(* ===== verification/TincPrelude.thy ===== *)
theory TincPrelude
  imports Main "HOL-Library.Word"
begin

text \<open>
  Shared ground of the development: the machine types of the daemon (bytes and the unsigned
  words of C), the C library comparisons the trees are ordered by (\<open>strcmp\<close>, \<open>memcmp\<close>, signed
  subtraction at 32 bits), the laws a comparison function has to satisfy (\<open>comparator\<close>), the
  ordered list every ordered container of the code denotes, and the big-endian encodings of
  the wire formats.  The collection \<open>wire_simps\<close> holds the encodings the
  component theories rewrite with.
\<close>

named_theorems wire_simps "byte-level encodings"

type_synonym u8 = "8 word"
type_synonym u16 = "16 word"
type_synonym u32 = "32 word"
type_synonym u64 = "64 word"
type_synonym bytes = "u8 list"
type_synonym name = string

section \<open>C library functions\<close>

text \<open>\<open>strcmp\<close> on strings without embedded NUL: only the sign of the result is used.\<close>

fun c_strcmp :: "string \<Rightarrow> string \<Rightarrow> int" where
  "c_strcmp [] [] = 0"
| "c_strcmp [] (y # ys) = -1"
| "c_strcmp (x # xs) [] = 1"
| "c_strcmp (x # xs) (y # ys) =
     (if (of_char x :: nat) < of_char y then -1
      else if (of_char y :: nat) < of_char x then 1
      else c_strcmp xs ys)"

text \<open>\<open>memcmp\<close> on two blocks of the same length, compared as unsigned bytes.\<close>

fun c_memcmp :: "bytes \<Rightarrow> bytes \<Rightarrow> int" where
  "c_memcmp (x # xs) (y # ys) =
     (if x < y then -1 else if y < x then 1 else c_memcmp xs ys)"
| "c_memcmp xs ys = 0"

text \<open>
  The value of a mathematical integer in a two's complement \<open>int\<close> of 32 bits.  Signed overflow
  is undefined in C; the compilers the daemon is built with wrap.
\<close>

definition wrap_int32 :: "int \<Rightarrow> int" where
  "wrap_int32 x = (x + 2 ^ 31) mod 2 ^ 32 - 2 ^ 31"

lemma wrap_int32_small [simp]:
  "- (2 ^ 31) \<le> x \<Longrightarrow> x < 2 ^ 31 \<Longrightarrow> wrap_int32 x = x"
  by (simp add: wrap_int32_def)

lemma wrap_int32_range: "- (2 ^ 31) \<le> wrap_int32 x \<and> wrap_int32 x < 2 ^ 31"
  using pos_mod_bound [of "2 ^ 32" "x + 2 ^ 31"] pos_mod_sign [of "2 ^ 32" "x + 2 ^ 31"]
  by (simp add: wrap_int32_def)

section \<open>Comparison functions\<close>

text \<open>
  What a tree needs of its \<open>compare\<close> callback on the elements it holds: the result changes
  sign with the arguments swapped, and "not greater" is transitive.  \<open>D\<close> is the set of elements
  on which that holds.
\<close>

locale comparator =
  fixes cmp :: "'a \<Rightarrow> 'a \<Rightarrow> int" and D :: "'a set"
  assumes cmp_swap: "\<lbrakk>x \<in> D; y \<in> D\<rbrakk> \<Longrightarrow> 0 < cmp x y \<longleftrightarrow> cmp y x < 0"
    and cmp_trans: "\<lbrakk>x \<in> D; y \<in> D; z \<in> D; cmp x y \<le> 0; cmp y z \<le> 0\<rbrakk> \<Longrightarrow> cmp x z \<le> 0"
begin

lemma cmp_refl: "x \<in> D \<Longrightarrow> cmp x x = 0"
  using cmp_swap [of x x] by (cases "cmp x x" "0::int" rule: linorder_cases) auto

lemma cmp_flip: "\<lbrakk>x \<in> D; y \<in> D\<rbrakk> \<Longrightarrow> cmp x y \<le> 0 \<longleftrightarrow> 0 \<le> cmp y x"
  using cmp_swap [of x y] by (simp add: not_less [symmetric])

lemma cmp_eq_sym: "\<lbrakk>x \<in> D; y \<in> D; cmp x y = 0\<rbrakk> \<Longrightarrow> cmp y x = 0"
  using cmp_flip [of x y] cmp_flip [of y x] by simp

lemma cmp_less_trans: "\<lbrakk>x \<in> D; y \<in> D; z \<in> D; cmp x y < 0; cmp y z \<le> 0\<rbrakk> \<Longrightarrow> cmp x z < 0"
  by (metis cmp_flip cmp_trans not_less)

lemma cmp_less_trans2: "\<lbrakk>x \<in> D; y \<in> D; z \<in> D; cmp x y \<le> 0; cmp y z < 0\<rbrakk> \<Longrightarrow> cmp x z < 0"
  by (metis cmp_flip cmp_trans not_less)

lemma cmp_greater_trans: "\<lbrakk>x \<in> D; y \<in> D; z \<in> D; 0 < cmp x y; cmp z y \<le> 0\<rbrakk> \<Longrightarrow> 0 < cmp x z"
  by (metis cmp_less_trans2 cmp_swap)

end

lemma c_strcmp_refl [simp]: "c_strcmp xs xs = 0"
  by (induction xs) auto

lemma c_strcmp_eq_iff [simp]: "c_strcmp xs ys = 0 \<longleftrightarrow> xs = ys"
  by (induction xs ys rule: c_strcmp.induct)
    (auto dest: antisym [OF leI leI] simp: not_less)

lemma c_strcmp_swap: "0 < c_strcmp xs ys \<longleftrightarrow> c_strcmp ys xs < 0"
  by (induction xs ys rule: c_strcmp.induct) auto

lemma c_strcmp_Cons_le:
  "c_strcmp (x # xs) (y # ys) \<le> 0 \<longleftrightarrow>
     (of_char x :: nat) < of_char y \<or> (of_char x :: nat) = of_char y \<and> c_strcmp xs ys \<le> 0"
  by (cases "of_char x :: nat" "of_char y :: nat" rule: linorder_cases) auto

lemma c_strcmp_trans: "c_strcmp xs ys \<le> 0 \<Longrightarrow> c_strcmp ys zs \<le> 0 \<Longrightarrow> c_strcmp xs zs \<le> 0"
proof (induction xs ys arbitrary: zs rule: c_strcmp.induct)
  case (2 y ys)
  then show ?case by (cases zs) auto
next
  case (4 x xs y ys)
  show ?case
  proof (cases zs)
    case Nil
    with "4.prems" show ?thesis by simp
  next
    case (Cons z zs')
    from "4.prems"
    have cases: "(of_char x :: nat) < of_char z \<or>
      (of_char x :: nat) = of_char y \<and> (of_char y :: nat) = of_char z \<and>
      c_strcmp xs ys \<le> 0 \<and> c_strcmp ys zs' \<le> 0"
      unfolding Cons c_strcmp_Cons_le by linarith
    have "c_strcmp xs zs' \<le> 0"
      if "(of_char x :: nat) = of_char y" "c_strcmp xs ys \<le> 0" "c_strcmp ys zs' \<le> 0"
      by (rule "4.IH") (use that in simp_all)
    with cases show ?thesis
      unfolding Cons c_strcmp_Cons_le by presburger
  qed
qed auto

interpretation strcmp: comparator c_strcmp UNIV
  by unfold_locales (auto simp: c_strcmp_swap intro: c_strcmp_trans)

lemma c_memcmp_refl [simp]: "c_memcmp xs xs = 0"
  by (induction xs) auto

lemma c_memcmp_eq_iff: "length xs = length ys \<Longrightarrow> c_memcmp xs ys = 0 \<longleftrightarrow> xs = ys"
  by (induction xs ys rule: c_memcmp.induct) (auto simp: not_less antisym)

lemma c_memcmp_swap: "0 < c_memcmp xs ys \<longleftrightarrow> c_memcmp ys xs < 0"
  by (induction xs ys rule: c_memcmp.induct) auto

lemma c_memcmp_trans:
  "length xs = length ys \<Longrightarrow> length ys = length zs \<Longrightarrow>
   c_memcmp xs ys \<le> 0 \<Longrightarrow> c_memcmp ys zs \<le> 0 \<Longrightarrow> c_memcmp xs zs \<le> 0"
proof (induction xs ys arbitrary: zs rule: c_memcmp.induct)
  case (1 x xs y ys)
  then show ?case by (cases zs) (auto split: if_splits)
qed auto

interpretation memcmp: comparator c_memcmp "{xs. length xs = n}" for n
  by unfold_locales (auto simp: c_memcmp_swap dest: c_memcmp_trans [rotated 2])

text \<open>
  The idiom \<open>if(result) return result; return next_compare\<close>: compare by one key, and by the
  next where the first is equal.
\<close>

definition then_cmp :: "int \<Rightarrow> int \<Rightarrow> int" where
  "then_cmp a b = (if a \<noteq> 0 then a else b)"

text \<open>Lexicographic composition keeps the laws, so a chain of keys is a comparator.\<close>

lemma comparator_then:
  assumes "comparator f D" "comparator g D"
  shows "comparator (\<lambda>x y. then_cmp (f x y) (g x y)) D"
proof -
  have f: "\<And>x y. \<lbrakk>x \<in> D; y \<in> D\<rbrakk> \<Longrightarrow> 0 < f x y \<longleftrightarrow> f y x < 0"
    and ft: "\<And>x y z. \<lbrakk>x \<in> D; y \<in> D; z \<in> D; f x y \<le> 0; f y z \<le> 0\<rbrakk> \<Longrightarrow> f x z \<le> 0"
    and ftl: "\<And>x y z. \<lbrakk>x \<in> D; y \<in> D; z \<in> D; f x y < 0; f y z \<le> 0\<rbrakk> \<Longrightarrow> f x z < 0"
    and ftl2: "\<And>x y z. \<lbrakk>x \<in> D; y \<in> D; z \<in> D; f x y \<le> 0; f y z < 0\<rbrakk> \<Longrightarrow> f x z < 0"
    using comparator.cmp_swap [OF assms(1)] comparator.cmp_trans [OF assms(1)]
      comparator.cmp_less_trans [OF assms(1)] comparator.cmp_less_trans2 [OF assms(1)]
    by blast+
  have g: "\<And>x y. \<lbrakk>x \<in> D; y \<in> D\<rbrakk> \<Longrightarrow> 0 < g x y \<longleftrightarrow> g y x < 0"
    and gt: "\<And>x y z. \<lbrakk>x \<in> D; y \<in> D; z \<in> D; g x y \<le> 0; g y z \<le> 0\<rbrakk> \<Longrightarrow> g x z \<le> 0"
    using comparator.cmp_swap [OF assms(2)] comparator.cmp_trans [OF assms(2)] by blast+
  show ?thesis
  proof
    fix x y assume D: "x \<in> D" "y \<in> D"
    then show "0 < then_cmp (f x y) (g x y) \<longleftrightarrow> then_cmp (f y x) (g y x) < 0"
      using f [of x y] f [of y x] g [of x y] by (auto simp: then_cmp_def)
  next
    fix x y z
    assume D: "x \<in> D" "y \<in> D" "z \<in> D"
      and le: "then_cmp (f x y) (g x y) \<le> 0" "then_cmp (f y z) (g y z) \<le> 0"
    then have le': "f x y \<le> 0" "f y z \<le> 0"
      by (auto simp: then_cmp_def split: if_splits)
    show "then_cmp (f x z) (g x z) \<le> 0"
    proof (cases "f x y < 0 \<or> f y z < 0")
      case True
      then have "f x z < 0"
        using ftl [of x y z] ftl2 [of x y z] D le' by blast
      then show ?thesis by (simp add: then_cmp_def)
    next
      case False
      with le le' have "g x y \<le> 0" "g y z \<le> 0"
        by (auto simp: then_cmp_def)
      then show ?thesis
        using gt [of x y z] ft [of x y z] D le' by (auto simp: then_cmp_def)
    qed
  qed
qed

text \<open>Comparing a projection keeps the laws, too.\<close>

lemma comparator_inj:
  assumes "comparator f E" and "\<And>x. x \<in> D \<Longrightarrow> k x \<in> E"
  shows "comparator (\<lambda>x y. f (k x) (k y)) D"
  using assms comparator.cmp_swap [OF assms(1)] comparator.cmp_trans [OF assms(1)]
  by unfold_locales blast+

text \<open>
  Subtraction of two \<open>int\<close> keys is a comparator as long as no difference overflows, that is on
  keys of absolute value below \<open>2 ^ 30\<close>.
\<close>

definition int_cmp :: "int \<Rightarrow> int \<Rightarrow> int" where
  "int_cmp a b = wrap_int32 (a - b)"

definition small_int :: "int set" where
  "small_int = {x. \<bar>x\<bar> < 2 ^ 30}"

lemma int_cmp_small: "a \<in> small_int \<Longrightarrow> b \<in> small_int \<Longrightarrow> int_cmp a b = a - b"
  unfolding int_cmp_def small_int_def by (rule wrap_int32_small) auto

interpretation int_sub: comparator int_cmp small_int
  by unfold_locales (auto simp: int_cmp_small)

section \<open>Ordered lists\<close>

text \<open>
  The contents of an ordered container, in order.  These are the specification operations:
  insertion keeps an element that compares equal (as the tree does), deletion removes it.
\<close>

fun ol_search :: "('a \<Rightarrow> 'a \<Rightarrow> int) \<Rightarrow> 'a \<Rightarrow> 'a list \<Rightarrow> 'a option" where
  "ol_search cmp x [] = None"
| "ol_search cmp x (y # ys) = (if cmp x y = 0 then Some y else ol_search cmp x ys)"

fun ol_insert :: "('a \<Rightarrow> 'a \<Rightarrow> int) \<Rightarrow> 'a \<Rightarrow> 'a list \<Rightarrow> 'a list" where
  "ol_insert cmp x [] = [x]"
| "ol_insert cmp x (y # ys) =
     (if cmp x y < 0 then x # y # ys else if cmp x y = 0 then y # ys
      else y # ol_insert cmp x ys)"

fun ol_delete :: "('a \<Rightarrow> 'a \<Rightarrow> int) \<Rightarrow> 'a \<Rightarrow> 'a list \<Rightarrow> 'a list" where
  "ol_delete cmp x [] = []"
| "ol_delete cmp x (y # ys) = (if cmp x y = 0 then ys else y # ol_delete cmp x ys)"

definition ol_sorted :: "('a \<Rightarrow> 'a \<Rightarrow> int) \<Rightarrow> 'a list \<Rightarrow> bool" where
  "ol_sorted cmp xs = sorted_wrt (\<lambda>x y. cmp x y < 0) xs"

lemma ol_sorted_Nil [simp]: "ol_sorted cmp []"
  by (simp add: ol_sorted_def)

lemma ol_sorted_Cons [simp]:
  "ol_sorted cmp (x # xs) \<longleftrightarrow> (\<forall>y\<in>set xs. cmp x y < 0) \<and> ol_sorted cmp xs"
  by (simp add: ol_sorted_def)

lemma ol_sorted_append [simp]:
  "ol_sorted cmp (xs @ ys) \<longleftrightarrow>
     ol_sorted cmp xs \<and> ol_sorted cmp ys \<and> (\<forall>x\<in>set xs. \<forall>y\<in>set ys. cmp x y < 0)"
  by (auto simp: ol_sorted_def sorted_wrt_append)

lemma ol_search_SomeD: "ol_search cmp x ys = Some y \<Longrightarrow> y \<in> set ys \<and> cmp x y = 0"
  by (induction ys) (auto split: if_splits)

lemma ol_search_None_iff: "ol_search cmp x ys = None \<longleftrightarrow> (\<forall>y\<in>set ys. cmp x y \<noteq> 0)"
  by (induction ys) auto

lemma set_ol_insert_subset: "set (ol_insert cmp x ys) \<subseteq> insert x (set ys)"
  by (induction ys) auto

lemma filter_ol_insert_skip: "\<not> P x \<Longrightarrow> filter P (ol_insert cmp x ys) = filter P ys"
  by (induction ys) auto

lemma filter_ol_delete_skip:
  "\<forall>y\<in>set ys. cmp x y = 0 \<longrightarrow> \<not> P y \<Longrightarrow> filter P (ol_delete cmp x ys) = filter P ys"
  by (induction ys) auto

lemma filter_ol_delete:
  "\<forall>y\<in>set ys. cmp x y = 0 \<longrightarrow> P y \<Longrightarrow> filter P (ol_delete cmp x ys) = ol_delete cmp x (filter P ys)"
  by (induction ys) auto

lemma set_ol_delete_subset: "set (ol_delete cmp x ys) \<subseteq> set ys"
  by (induction ys) auto

context comparator begin

lemma sorted_ol_insert:
  assumes "ol_sorted cmp ys" "set ys \<subseteq> D" "x \<in> D"
  shows "ol_sorted cmp (ol_insert cmp x ys)"
  using assms
proof (induction ys)
  case (Cons y ys)
  show ?case
  proof (cases "cmp x y < 0")
    case True
    with Cons.prems show ?thesis
      by (auto intro: cmp_less_trans2 [of x y] less_imp_le)
  next
    case False
    note F = this
    show ?thesis
    proof (cases "cmp x y = 0")
      case True
      with F Cons.prems show ?thesis by simp
    next
      case False
      with F Cons.prems have "cmp y x < 0"
        using cmp_swap [of x y] by auto
      with F False Cons show ?thesis
        using set_ol_insert_subset [of cmp x ys] by auto
    qed
  qed
qed simp

lemma sorted_ol_delete: "ol_sorted cmp ys \<Longrightarrow> ol_sorted cmp (ol_delete cmp x ys)"
  using set_ol_delete_subset [of cmp x] by (induction ys) auto

lemma ol_search_insert_same:
  assumes "set ys \<subseteq> D" "x \<in> D" "ol_search cmp x ys = None"
  shows "ol_search cmp x (ol_insert cmp x ys) = Some x"
  using assms by (induction ys) (auto simp: cmp_refl split: if_splits)

lemma set_ol_insert:
  assumes "set ys \<subseteq> D" "x \<in> D" "ol_sorted cmp ys" "ol_search cmp x ys = None"
  shows "set (ol_insert cmp x ys) = insert x (set ys)"
  using assms by (induction ys) (auto split: if_splits)

lemma ol_insert_present:
  assumes "set ys \<subseteq> D" "x \<in> D" "ol_sorted cmp ys" "ol_search cmp x ys \<noteq> None"
  shows "ol_insert cmp x ys = ys"
  using assms
proof (induction ys)
  case (Cons y ys)
  show ?case
  proof (cases "cmp x y < 0")
    case True
    then have "\<forall>z\<in>set ys. cmp x z < 0"
      using Cons.prems by (auto intro: cmp_less_trans [of x y] less_imp_le)
    with True Cons.prems show ?thesis
      by (auto simp: ol_search_None_iff)
  next
    case False
    with Cons show ?thesis by auto
  qed
qed simp

lemma set_ol_delete:
  assumes "set ys \<subseteq> D" "x \<in> D" "ol_sorted cmp ys"
  shows "set (ol_delete cmp x ys) = {y \<in> set ys. cmp x y \<noteq> 0}"
  using assms
proof (induction ys)
  case (Cons y ys)
  show ?case
  proof (cases "cmp x y = 0")
    case True
    then have "\<forall>z\<in>set ys. cmp x z < 0"
      using Cons.prems by (auto intro: cmp_less_trans2 [of x y])
    with True show ?thesis by auto
  next
    case False
    with Cons show ?thesis by auto
  qed
qed simp

lemma ol_search_delete_same:
  assumes "set ys \<subseteq> D" "x \<in> D" "ol_sorted cmp ys"
  shows "ol_search cmp x (ol_delete cmp x ys) = None"
  using set_ol_delete [OF assms] by (simp add: ol_search_None_iff)

lemma ol_delete_absent: "ol_search cmp x ys = None \<Longrightarrow> ol_delete cmp x ys = ys"
  by (induction ys) (auto split: if_splits)

lemma ol_insert_before_all: "\<forall>y\<in>set ys. cmp x y < 0 \<Longrightarrow> ol_insert cmp x ys = x # ys"
  by (cases ys) auto

lemma ol_insert_after_all:
  "\<forall>y\<in>set xs. 0 < cmp x y \<Longrightarrow> ol_insert cmp x (xs @ ys) = xs @ ol_insert cmp x ys"
  by (induction xs) auto

lemma filter_ol_insert:
  assumes "ol_sorted cmp ys" "set ys \<subseteq> D" "x \<in> D" "P x"
    and "\<forall>y\<in>set ys. cmp x y = 0 \<longrightarrow> P y"
  shows "filter P (ol_insert cmp x ys) = ol_insert cmp x (filter P ys)"
  using assms
proof (induction ys)
  case (Cons y ys)
  show ?case
  proof (cases "cmp x y < 0")
    case True
    then have "\<forall>z\<in>set (y # ys). cmp x z < 0"
      using Cons.prems by (auto intro: cmp_less_trans [of x y] less_imp_le)
    then have "ol_insert cmp x (y # ys) = x # y # ys"
      "ol_insert cmp x (filter P (y # ys)) = x # filter P (y # ys)"
      by (intro ol_insert_before_all; auto)+
    with Cons.prems(4) show ?thesis by simp
  next
    case False
    with Cons show ?thesis by auto
  qed
qed simp

end

section \<open>Runs of operations\<close>

text \<open>
  A component driven by a sequence of operations, each of which answers something, and the way a
  concrete component is compared with its specification: a relation every operation keeps.
\<close>

fun run_ops :: "('o \<Rightarrow> 's \<Rightarrow> 'b \<times> 's) \<Rightarrow> 'o list \<Rightarrow> 's \<Rightarrow> 'b list \<times> 's" where
  "run_ops step [] s = ([], s)"
| "run_ops step (op # ops) s =
     (fst (step op s) # fst (run_ops step ops (snd (step op s))),
      snd (run_ops step ops (snd (step op s))))"

lemma run_ops_simulation:
  assumes "\<And>op s a. R s a \<Longrightarrow> valid op \<Longrightarrow>
      fst (step op s) = fst (spec op a) \<and> R (snd (step op s)) (snd (spec op a))"
    and "R s a" "\<forall>op\<in>set ops. valid op"
  shows "fst (run_ops step ops s) = fst (run_ops spec ops a) \<and>
    R (snd (run_ops step ops s)) (snd (run_ops spec ops a))"
  using assms(2,3)
proof (induction ops arbitrary: s a)
  case (Cons op ops)
  then show ?case using assms(1) [of s a op] by simp
qed simp

lemma run_ops_invariant:
  assumes "\<And>op s. I s \<Longrightarrow> valid op \<Longrightarrow> I (snd (step op s))"
    and "I s" "\<forall>op\<in>set ops. valid op"
  shows "I (snd (run_ops step ops s))"
  using assms(2,3) by (induction ops arbitrary: s) (simp_all add: assms(1))

section \<open>Wire encodings\<close>

text \<open>Network byte order: \<open>htonl\<close>/\<open>htons\<close> followed by \<open>memcpy\<close>, and back.\<close>

definition be32 :: "u32 \<Rightarrow> bytes" where
  "be32 w = [ucast (drop_bit 24 w), ucast (drop_bit 16 w), ucast (drop_bit 8 w), ucast w]"

definition be16 :: "u16 \<Rightarrow> bytes" where
  "be16 w = [ucast (drop_bit 8 w), ucast w]"

fun be_val :: "bytes \<Rightarrow> nat" where
  "be_val [] = 0"
| "be_val (b # bs) = unat b * 256 ^ length bs + be_val bs"

lemma length_be32 [simp, wire_simps]: "length (be32 w) = 4"
  by (simp add: be32_def)

lemma length_be16 [simp, wire_simps]: "length (be16 w) = 2"
  by (simp add: be16_def)

lemma unat_shift: "unat (drop_bit k w) = unat w div 2 ^ k"
  by (simp only: unat_drop_bit_eq drop_bit_eq_div [of k "unat w"])

lemma unat_byte_of: "unat (ucast (drop_bit k (w :: 'a::len word)) :: u8) = unat w div 2 ^ k mod 256"
  by (simp only: unsigned_ucast_eq take_bit_eq_mod unat_shift) simp

lemma unat_low_byte: "unat (ucast (w :: 'a::len word) :: u8) = unat w mod 256"
  using unat_byte_of [of 0 w] by simp

lemma base256_4:
  assumes "(q::nat) < 4294967296"
  shows "q div 16777216 mod 256 * 16777216 + (q div 65536 mod 256 * 65536
    + (q div 256 mod 256 * 256 + q mod 256)) = q"
proof -
  have "q div 16777216 mod 256 = q div 16777216" using assms by simp
  moreover have "q div 256 = q div 65536 * 256 + q div 256 mod 256"
    using div_mult_mod_eq [of "q div 256" 256] by (simp add: div_mult2_eq [symmetric])
  moreover have "q div 65536 = q div 16777216 * 256 + q div 65536 mod 256"
    using div_mult_mod_eq [of "q div 65536" 256] by (simp add: div_mult2_eq [symmetric])
  moreover have "q = q div 256 * 256 + q mod 256"
    using div_mult_mod_eq [of q 256] by simp
  ultimately show ?thesis by linarith
qed

lemma be_val_be32 [simp, wire_simps]: "be_val (be32 w) = unat w"
proof -
  have "unat w < 4294967296" using unsigned_less [of w, where 'a = nat] by simp
  then show ?thesis
    using base256_4 [of "unat w"] unat_byte_of [of 24 w] unat_byte_of [of 16 w] unat_byte_of [of 8 w]
    by (simp add: be32_def unat_low_byte)
qed

lemma be_val_be16 [simp, wire_simps]: "be_val (be16 w) = unat w"
proof -
  have "unat w div 256 < 256" using unsigned_less [of w, where 'a = nat] by simp
  then show ?thesis
    using div_mult_mod_eq [of "unat w" 256] unat_byte_of [of 8 w]
    by (simp add: be16_def unat_low_byte)
qed

lemma be_val_bound: "be_val bs < 256 ^ length bs"
proof (induction bs)
  case (Cons b bs)
  have "unat b < 256" using unsigned_less [of b, where 'a = nat] by simp
  then have "Suc (unat b) * 256 ^ length bs \<le> 256 * 256 ^ length bs"
    by (intro mult_le_mono1) simp
  with Cons show ?case
    unfolding be_val.simps list.size power_Suc add_0_right add_Suc_right mult_Suc by linarith
qed simp

end
