(* ===== verification/SplayTree.thy ===== *)
theory SplayTree
  imports TincPrelude
begin

text \<open>
  The ordered container of the daemon, \<open>splay_tree.c\<close>: a splay tree whose nodes are also threaded
  on a doubly linked list from \<open>head\<close> to \<open>tail\<close>.  A node is identified with its data pointer.
  The tree pointers (\<open>root\<close>, \<open>left\<close>, \<open>right\<close>) are the datatype \<open>stree\<close>; \<open>parent\<close> pointers are
  the path a node is reached by; the \<open>prev\<close>/\<open>next\<close> pointers are the list \<open>thread\<close>.  Tree and
  thread are updated separately, as in the code, and \<open>splay_wf\<close> states that they agree.

  The top-down splay works for any comparison function; what the operations mean needs the laws
  of the \<open>comparator\<close> locale.  The locale \<open>ordered_table\<close> is the interface the other components
  rely on, and \<open>splay_tree.c\<close> provides it for every lawful comparison.
\<close>

datatype 'a stree = Leaf | Node "'a stree" 'a "'a stree"

fun inorder :: "'a stree \<Rightarrow> 'a list" where
  "inorder Leaf = []"
| "inorder (Node l x r) = inorder l @ x # inorder r"

record 'a splay_tree =
  root :: "'a stree"
  thread :: "'a list"
  tcount :: u32
  generation :: u32

definition empty_tree :: "'a splay_tree" where
  "empty_tree = \<lparr>root = Leaf, thread = [], tcount = 0, generation = 0\<rparr>"

section \<open>Splaying from the top\<close>

text \<open>
  The loop of \<open>splay_top_down\<close>.  \<open>L\<close> is the tree under construction on the left: its right spine
  from \<open>leftbottom\<close> upwards, each node with its left subtree; \<open>R\<close> is the mirror image on the
  right.  \<open>attach_left\<close> and \<open>attach_right\<close> are the two merge steps after the loop.
\<close>

fun attach_left :: "('a stree \<times> 'a) list \<Rightarrow> 'a stree \<Rightarrow> 'a stree" where
  "attach_left [] t = t"
| "attach_left ((l, x) # L) t = attach_left L (Node l x t)"

fun attach_right :: "'a stree \<Rightarrow> ('a \<times> 'a stree) list \<Rightarrow> 'a stree" where
  "attach_right t [] = t"
| "attach_right t ((x, r) # R) = attach_right (Node t x r) R"

fun splay_merge :: "('a stree \<times> 'a) list \<Rightarrow> 'a stree \<Rightarrow> ('a \<times> 'a stree) list \<Rightarrow> 'a stree" where
  "splay_merge L Leaf R = Leaf"
| "splay_merge L (Node l x r) R = Node (attach_left L l) x (attach_right r R)"

function splay_loop ::
  "('a \<Rightarrow> 'a \<Rightarrow> int) \<Rightarrow> 'a \<Rightarrow> ('a stree \<times> 'a) list \<Rightarrow> 'a stree \<Rightarrow> ('a \<times> 'a stree) list
   \<Rightarrow> 'a stree \<times> int" where
  "splay_loop cmp x L Leaf R = (Leaf, 0)"
| "splay_loop cmp x L (Node rl rx rr) R =
     (let c = cmp x rx in
      if c < 0 then
        (case rl of
           Leaf \<Rightarrow> (splay_merge L (Node rl rx rr) R, c)
         | Node cl cx cr \<Rightarrow>
             let c' = cmp x cx in
             if c' < 0 \<and> cl \<noteq> Leaf then splay_loop cmp x L cl ((cx, Node cr rx rr) # R)
             else if 0 < c' \<and> cr \<noteq> Leaf then splay_loop cmp x ((cl, cx) # L) cr ((rx, rr) # R)
             else (splay_merge L (Node cl cx cr) ((rx, rr) # R), c'))
      else if 0 < c then
        (case rr of
           Leaf \<Rightarrow> (splay_merge L (Node rl rx rr) R, c)
         | Node cl cx cr \<Rightarrow>
             let c' = cmp x cx in
             if 0 < c' \<and> cr \<noteq> Leaf then splay_loop cmp x ((Node rl rx cl, cx) # L) cr R
             else if c' < 0 \<and> cl \<noteq> Leaf then splay_loop cmp x ((rl, rx) # L) cl ((cx, cr) # R)
             else (splay_merge ((rl, rx) # L) (Node cl cx cr) R, c'))
      else (splay_merge L (Node rl rx rr) R, c))"
  by pat_completeness auto
termination
  by (relation "measure (\<lambda>(cmp, x, L, t, R). size t)") auto

declare splay_loop.simps(2) [simp del]

definition splay_top_down ::
  "('a \<Rightarrow> 'a \<Rightarrow> int) \<Rightarrow> 'a \<Rightarrow> 'a splay_tree \<Rightarrow> 'a splay_tree \<times> 'a option \<times> int" where
  "splay_top_down cmp x t =
     (case root t of
        Leaf \<Rightarrow> (t, None, 0)
      | Node _ _ _ \<Rightarrow>
          (case splay_loop cmp x [] (root t) [] of
             (Node l r rr, c) \<Rightarrow> (t\<lparr>root := Node l r rr\<rparr>, Some r, c)
           | (Leaf, c) \<Rightarrow> (t, None, c)))"

section \<open>Splaying from the bottom\<close>

text \<open>One parent pointer: the parent and its other subtree.\<close>

datatype 'a crumb = LeftOf 'a "'a stree" | RightOf "'a stree" 'a

fun rebuild :: "'a stree \<Rightarrow> 'a crumb list \<Rightarrow> 'a stree" where
  "rebuild t [] = t"
| "rebuild t (LeftOf p pr # cs) = rebuild (Node t p pr) cs"
| "rebuild t (RightOf pl p # cs) = rebuild (Node pl p t) cs"

fun path_to :: "'a \<Rightarrow> 'a stree \<Rightarrow> 'a crumb list \<Rightarrow> ('a stree \<times> 'a stree \<times> 'a crumb list) option" where
  "path_to n Leaf cs = None"
| "path_to n (Node l x r) cs =
     (if x = n then Some (l, r, cs)
      else case path_to n l (LeftOf x r # cs) of
             Some res \<Rightarrow> Some res
           | None \<Rightarrow> path_to n r (RightOf l x # cs))"

text \<open>The rotations of \<open>splay_bottom_up\<close>; \<open>l\<close>, \<open>r\<close> are the subtrees of the node moved up.\<close>

fun splay_up :: "'a stree \<Rightarrow> 'a \<Rightarrow> 'a stree \<Rightarrow> 'a crumb list \<Rightarrow> 'a stree" where
  "splay_up l n r [] = Node l n r"
| "splay_up l n r [LeftOf p pr] = Node l n (Node r p pr)"
| "splay_up l n r [RightOf pl p] = Node (Node pl p l) n r"
| "splay_up l n r (LeftOf p pr # LeftOf g gr # cs) = splay_up l n (Node r p (Node pr g gr)) cs"
| "splay_up l n r (RightOf pl p # RightOf gl g # cs) = splay_up (Node (Node gl g pl) p l) n r cs"
| "splay_up l n r (RightOf pl p # LeftOf g gr # cs) = splay_up (Node pl p l) n (Node r g gr) cs"
| "splay_up l n r (LeftOf p pr # RightOf gl g # cs) = splay_up (Node gl g l) n (Node r p pr) cs"

definition splay_bottom_up :: "'a \<Rightarrow> 'a stree \<Rightarrow> 'a stree" where
  "splay_bottom_up n t =
     (case path_to n t [] of None \<Rightarrow> t | Some (l, r, cs) \<Rightarrow> splay_up l n r cs)"

section \<open>The thread\<close>

fun thread_before :: "'a \<Rightarrow> 'a \<Rightarrow> 'a list \<Rightarrow> 'a list" where
  "thread_before b x [] = [x]"
| "thread_before b x (y # ys) = (if y = b then x # y # ys else y # thread_before b x ys)"

fun thread_after :: "'a \<Rightarrow> 'a \<Rightarrow> 'a list \<Rightarrow> 'a list" where
  "thread_after a x [] = [x]"
| "thread_after a x (y # ys) = (if y = a then y # x # ys else y # thread_after a x ys)"

fun thread_prev :: "'a \<Rightarrow> 'a list \<Rightarrow> 'a option" where
  "thread_prev n (x # y # ys) = (if y = n then Some x else thread_prev n (y # ys))"
| "thread_prev n _ = None"

fun thread_next :: "'a \<Rightarrow> 'a list \<Rightarrow> 'a option" where
  "thread_next n (x # y # ys) = (if x = n then Some y else thread_next n (y # ys))"
| "thread_next n _ = None"

section \<open>Operations\<close>

definition splay_search_closest_node ::
  "('a \<Rightarrow> 'a \<Rightarrow> int) \<Rightarrow> 'a \<Rightarrow> 'a splay_tree \<Rightarrow> 'a splay_tree \<times> 'a option \<times> int" where
  "splay_search_closest_node cmp x t = splay_top_down cmp x t"

definition splay_search ::
  "('a \<Rightarrow> 'a \<Rightarrow> int) \<Rightarrow> 'a \<Rightarrow> 'a splay_tree \<Rightarrow> 'a option \<times> 'a splay_tree" where
  "splay_search cmp x t =
     (case splay_search_closest_node cmp x t of
        (t', n, c) \<Rightarrow> (if c \<noteq> 0 then None else n, t'))"

definition splay_search_closest_smaller ::
  "('a \<Rightarrow> 'a \<Rightarrow> int) \<Rightarrow> 'a \<Rightarrow> 'a splay_tree \<Rightarrow> 'a option \<times> 'a splay_tree" where
  "splay_search_closest_smaller cmp x t =
     (case splay_search_closest_node cmp x t of
        (t', n, c) \<Rightarrow>
          (if c < 0 then (case n of None \<Rightarrow> None | Some y \<Rightarrow> thread_prev y (thread t')) else n, t'))"

definition splay_search_closest_greater ::
  "('a \<Rightarrow> 'a \<Rightarrow> int) \<Rightarrow> 'a \<Rightarrow> 'a splay_tree \<Rightarrow> 'a option \<times> 'a splay_tree" where
  "splay_search_closest_greater cmp x t =
     (case splay_search_closest_node cmp x t of
        (t', n, c) \<Rightarrow>
          (if 0 < c then (case n of None \<Rightarrow> None | Some y \<Rightarrow> thread_next y (thread t')) else n, t'))"

fun closest_nosplay :: "('a \<Rightarrow> 'a \<Rightarrow> int) \<Rightarrow> 'a \<Rightarrow> 'a stree \<Rightarrow> 'a option \<times> int" where
  "closest_nosplay cmp x Leaf = (None, 0)"
| "closest_nosplay cmp x (Node l y r) =
     (let c = cmp x y in
      if c < 0 \<and> l \<noteq> Leaf then closest_nosplay cmp x l
      else if 0 < c \<and> r \<noteq> Leaf then closest_nosplay cmp x r
      else (Some y, c))"

definition splay_insert_top :: "'a splay_tree \<Rightarrow> 'a \<Rightarrow> 'a splay_tree" where
  "splay_insert_top t x =
     t\<lparr>root := Node Leaf x Leaf, thread := [x], tcount := tcount t + 1,
       generation := generation t + 1\<rparr>"

definition splay_insert_before :: "'a splay_tree \<Rightarrow> 'a \<Rightarrow> 'a \<Rightarrow> 'a splay_tree" where
  "splay_insert_before t b x =
     t\<lparr>thread := thread_before b x (thread t),
       root := (case splay_bottom_up b (root t) of
                  Leaf \<Rightarrow> Leaf
                | Node bl n br \<Rightarrow> Node bl x (Node Leaf n br)),
       tcount := tcount t + 1, generation := generation t + 1\<rparr>"

definition splay_insert_after :: "'a splay_tree \<Rightarrow> 'a \<Rightarrow> 'a \<Rightarrow> 'a splay_tree" where
  "splay_insert_after t a x =
     t\<lparr>thread := thread_after a x (thread t),
       root := (case splay_bottom_up a (root t) of
                  Leaf \<Rightarrow> Leaf
                | Node al n ar \<Rightarrow> Node (Node al n Leaf) x ar),
       tcount := tcount t + 1, generation := generation t + 1\<rparr>"

definition splay_insert ::
  "('a \<Rightarrow> 'a \<Rightarrow> int) \<Rightarrow> 'a \<Rightarrow> 'a splay_tree \<Rightarrow> bool \<times> 'a splay_tree" where
  "splay_insert cmp x t =
     (if root t = Leaf then (True, splay_insert_top t x)
      else case splay_search_closest_node cmp x t of
             (t', None, c) \<Rightarrow> (False, t')
           | (t', Some closest, c) \<Rightarrow>
               if c = 0 then (False, t')
               else if c < 0 then (True, splay_insert_before t' closest x)
               else (True, splay_insert_after t' closest x))"

text \<open>Sets the right child of node \<open>p\<close>.\<close>

fun set_right :: "'a \<Rightarrow> 'a stree \<Rightarrow> 'a stree \<Rightarrow> 'a stree" where
  "set_right p r Leaf = Leaf"
| "set_right p r (Node a y b) =
     (if y = p then Node a y r else Node (set_right p r a) y (set_right p r b))"

definition splay_unlink_node :: "'a splay_tree \<Rightarrow> 'a \<Rightarrow> 'a splay_tree" where
  "splay_unlink_node t n =
     t\<lparr>thread := remove1 n (thread t),
       root := (case splay_bottom_up n (root t) of
                  Leaf \<Rightarrow> Leaf
                | Node l _ r \<Rightarrow>
                    (case thread_prev n (thread t) of
                       Some p \<Rightarrow> set_right p r l
                     | None \<Rightarrow> (case thread_next n (thread t) of Some _ \<Rightarrow> r | None \<Rightarrow> Leaf))),
       tcount := tcount t - 1, generation := generation t + 1\<rparr>"

definition splay_unlink ::
  "('a \<Rightarrow> 'a \<Rightarrow> int) \<Rightarrow> 'a \<Rightarrow> 'a splay_tree \<Rightarrow> 'a option \<times> 'a splay_tree" where
  "splay_unlink cmp x t =
     (case splay_search cmp x t of
        (None, t') \<Rightarrow> (None, t')
      | (Some n, t') \<Rightarrow> (Some n, splay_unlink_node t' n))"

definition splay_delete :: "('a \<Rightarrow> 'a \<Rightarrow> int) \<Rightarrow> 'a \<Rightarrow> 'a splay_tree \<Rightarrow> 'a splay_tree" where
  "splay_delete cmp x t =
     (case splay_search cmp x t of
        (None, t') \<Rightarrow> t'
      | (Some n, t') \<Rightarrow> splay_unlink_node t' n)"

definition splay_empty_tree :: "'a splay_tree \<Rightarrow> 'a splay_tree" where
  "splay_empty_tree t = t\<lparr>thread := [], root := Leaf, tcount := 0, generation := generation t + 1\<rparr>"

section \<open>What splaying does to the sequence of elements\<close>

fun left_list :: "('a stree \<times> 'a) list \<Rightarrow> 'a list" where
  "left_list [] = []"
| "left_list ((l, x) # L) = left_list L @ inorder l @ [x]"

fun right_list :: "('a \<times> 'a stree) list \<Rightarrow> 'a list" where
  "right_list [] = []"
| "right_list ((x, r) # R) = x # inorder r @ right_list R"

lemma inorder_attach_left [simp]: "inorder (attach_left L t) = left_list L @ inorder t"
  by (induction L t rule: attach_left.induct) auto

lemma inorder_attach_right [simp]: "inorder (attach_right t R) = inorder t @ right_list R"
  by (induction t R rule: attach_right.induct) auto

lemma inorder_Nil_iff [simp]: "inorder t = [] \<longleftrightarrow> t = Leaf"
  by (cases t) auto

text \<open>
  The loop keeps the sequence of elements, whatever the comparison function returns, and the
  result it reports is the comparison with the new root.
\<close>

lemma splay_loop_Node:
  "t \<noteq> Leaf \<Longrightarrow>
   \<exists>l r rr. splay_loop cmp x L t R = (Node l r rr, cmp x r) \<and>
     inorder (Node l r rr) = left_list L @ inorder t @ right_list R"
proof (induction cmp x L t R rule: splay_loop.induct)
  case (2 cmp x L rl rx rr R)
  show ?case
  proof (cases "cmp x rx < 0")
    case True
    show ?thesis
    proof (cases rl)
      case Leaf
      with True show ?thesis by (simp add: splay_loop.simps(2))
    next
      case (Node cl cx cr)
      consider "cmp x cx < 0 \<and> cl \<noteq> Leaf" | "\<not> (cmp x cx < 0 \<and> cl \<noteq> Leaf)" "0 < cmp x cx \<and> cr \<noteq> Leaf"
        | "\<not> (cmp x cx < 0 \<and> cl \<noteq> Leaf)" "\<not> (0 < cmp x cx \<and> cr \<noteq> Leaf)" by blast
      then show ?thesis
        by cases (use "2.IH"(1,2) [OF refl True Node refl] True Node
          in \<open>auto simp: splay_loop.simps(2)\<close>)
    qed
  next
    case notless: False
    show ?thesis
    proof (cases "0 < cmp x rx")
      case True
      show ?thesis
      proof (cases rr)
        case Leaf
        with True notless show ?thesis by (simp add: splay_loop.simps(2))
      next
        case (Node cl cx cr)
        consider "0 < cmp x cx \<and> cr \<noteq> Leaf" | "\<not> (0 < cmp x cx \<and> cr \<noteq> Leaf)" "cmp x cx < 0 \<and> cl \<noteq> Leaf"
          | "\<not> (0 < cmp x cx \<and> cr \<noteq> Leaf)" "\<not> (cmp x cx < 0 \<and> cl \<noteq> Leaf)" by blast
        then show ?thesis
          by cases (use "2.IH"(3,4) [OF refl notless True Node refl] True notless Node
            in \<open>auto simp: splay_loop.simps(2)\<close>)
      qed
    next
      case False
      with notless show ?thesis by (simp add: splay_loop.simps(2))
    qed
  qed
qed simp

text \<open>The nodes the rotations of \<open>splay_bottom_up\<close> rearrange keep their order as well.\<close>

lemma inorder_splay_up [simp]: "inorder (splay_up l n r cs) = inorder (rebuild (Node l n r) cs)"
proof -
  have rebuild_cong: "inorder a = inorder b \<Longrightarrow> inorder (rebuild a cs) = inorder (rebuild b cs)"
    for a b :: "'a stree" and cs
  proof (induction cs arbitrary: a b)
    case (Cons c cs)
    then show ?case by (cases c) auto
  qed simp
  show ?thesis
    by (induction l n r cs rule: splay_up.induct) (auto intro: rebuild_cong)
qed

lemma splay_up_root: "\<exists>l' r'. splay_up l n r cs = Node l' n r'"
  by (induction l n r cs rule: splay_up.induct) auto

lemma path_to_None: "path_to n t cs = None \<longleftrightarrow> n \<notin> set (inorder t)"
  by (induction n t cs rule: path_to.induct) (auto split: option.splits)

lemma path_to_Some: "path_to n t cs = Some (l, r, cs') \<Longrightarrow> rebuild (Node l n r) cs' = rebuild t cs"
  by (induction n t cs rule: path_to.induct) (auto split: option.splits if_splits)

lemma splay_bottom_up_Node:
  assumes "n \<in> set (inorder t)"
  shows "\<exists>l r. splay_bottom_up n t = Node l n r \<and> inorder (Node l n r) = inorder t"
proof -
  from assms obtain l r cs where p: "path_to n t [] = Some (l, r, cs)"
    using path_to_None [of n t "[]"] by (cases "path_to n t []") auto
  obtain l' r' where u: "splay_up l n r cs = Node l' n r'"
    using splay_up_root [of l n r cs] by blast
  have "inorder (Node l' n r') = inorder t"
    using inorder_splay_up [of l n r cs] path_to_Some [OF p] u by (metis rebuild.simps(1))
  with p u show ?thesis by (simp add: splay_bottom_up_def)
qed

section \<open>Splaying with a lawful comparison\<close>

context comparator begin

lemma less_less: "\<lbrakk>x \<in> D; y \<in> D; z \<in> D; cmp x y < 0; cmp y z < 0\<rbrakk> \<Longrightarrow> cmp x z < 0"
  by (blast intro: cmp_less_trans less_imp_le)

lemma greater_greater: "\<lbrakk>x \<in> D; y \<in> D; z \<in> D; 0 < cmp x y; cmp z y < 0\<rbrakk> \<Longrightarrow> 0 < cmp x z"
  by (blast intro: cmp_greater_trans less_imp_le)

lemma below_all:
  "\<lbrakk>x \<in> D; z \<in> D; set ys \<subseteq> D; cmp x z < 0; \<forall>y\<in>set ys. cmp z y < 0\<rbrakk> \<Longrightarrow>
   \<forall>y\<in>set ys. cmp x y < 0"
  by (auto intro: less_less [of x z])

lemma above_all:
  "\<lbrakk>x \<in> D; z \<in> D; set ys \<subseteq> D; 0 < cmp x z; \<forall>y\<in>set ys. cmp y z < 0\<rbrakk> \<Longrightarrow>
   \<forall>y\<in>set ys. 0 < cmp x y"
  by (auto intro: greater_greater [of x z])

lemma splay_loop_closest:
  "\<lbrakk>splay_loop cmp x L t R = (Node l r rr, c); t \<noteq> Leaf; x \<in> D; set (inorder t) \<subseteq> D;
    ol_sorted cmp (inorder t); \<forall>y\<in>set (left_list L). 0 < cmp x y;
    \<forall>y\<in>set (right_list R). cmp x y < 0\<rbrakk> \<Longrightarrow>
   (c < 0 \<longrightarrow> (\<forall>y\<in>set (inorder l). 0 < cmp x y)) \<and>
   (0 < c \<longrightarrow> (\<forall>y\<in>set (inorder rr). cmp x y < 0))"
proof (induction t arbitrary: L R rule: measure_induct_rule [where f = size])
  case (less t)
  obtain rl rx rt where t: "t = Node rl rx rt" using less.prems(2) by (cases t) auto
  note res = less.prems(1) [unfolded t] and x = less.prems(3)
  have D: "rx \<in> D" "set (inorder rl) \<subseteq> D" "set (inorder rt) \<subseteq> D"
    using less.prems(4) t by auto
  have sorted: "ol_sorted cmp (inorder rl)" "ol_sorted cmp (inorder rt)"
    "\<forall>y\<in>set (inorder rl). cmp y rx < 0" "\<forall>y\<in>set (inorder rt). cmp rx y < 0"
    using less.prems(5) t by auto
  show ?case
  proof (cases "cmp x rx" "0::int" rule: linorder_cases)
    case less': less
    have above: "\<forall>y\<in>set (inorder rt). cmp x y < 0"
      by (rule below_all [of x rx]) (use x D sorted less' in simp_all)
    show ?thesis
    proof (cases rl)
      case Leaf
      with less' res less.prems(6) show ?thesis by (auto simp: splay_loop.simps(2))
    next
      case (Node cl cx cr)
      with D sorted have C: "cx \<in> D" "set (inorder cl) \<subseteq> D" "set (inorder cr) \<subseteq> D"
        "ol_sorted cmp (inorder cl)" "ol_sorted cmp (inorder cr)"
        "\<forall>y\<in>set (inorder cl). cmp y cx < 0" "\<forall>y\<in>set (inorder cr). cmp cx y < 0" by auto
      have up: "\<forall>y\<in>set (inorder cr). cmp x y < 0" if "cmp x cx < 0"
        by (rule below_all [of x cx]) (use x C that in simp_all)
      have down: "\<forall>y\<in>set (inorder cl). 0 < cmp x y" if "0 < cmp x cx"
        by (rule above_all [of x cx]) (use x C that in simp_all)
      consider "cmp x cx < 0 \<and> cl \<noteq> Leaf" | "0 < cmp x cx \<and> cr \<noteq> Leaf"
        | "\<not> (cmp x cx < 0 \<and> cl \<noteq> Leaf)" "\<not> (0 < cmp x cx \<and> cr \<noteq> Leaf)" by blast
      then show ?thesis
      proof cases
        case 1
        with res less' Node have "splay_loop cmp x L cl ((cx, Node cr rx rt) # R) = (Node l r rr, c)"
          by (simp add: splay_loop.simps(2))
        then show ?thesis
          by (rule less.IH [rotated]) (use t Node 1 x C less' above up less.prems(6,7) in auto)
      next
        case 2
        with res less' Node have "splay_loop cmp x ((cl, cx) # L) cr ((rx, rt) # R) = (Node l r rr, c)"
          by (simp add: splay_loop.simps(2))
        then show ?thesis
          by (rule less.IH [rotated]) (use t Node 2 x C less' above down less.prems(6,7) in auto)
      next
        case 3
        with res less' Node have "(splay_merge L (Node cl cx cr) ((rx, rt) # R), cmp x cx) = (Node l r rr, c)"
          by (auto simp: splay_loop.simps(2))
        then show ?thesis
          using 3 less' above less.prems(6,7) by auto
      qed
    qed
  next
    case greater
    have below: "\<forall>y\<in>set (inorder rl). 0 < cmp x y"
      by (rule above_all [of x rx]) (use x D sorted greater in simp_all)
    show ?thesis
    proof (cases rt)
      case Leaf
      with greater res less.prems(7) show ?thesis by (auto simp: splay_loop.simps(2))
    next
      case (Node cl cx cr)
      with D sorted have C: "cx \<in> D" "set (inorder cl) \<subseteq> D" "set (inorder cr) \<subseteq> D"
        "ol_sorted cmp (inorder cl)" "ol_sorted cmp (inorder cr)"
        "\<forall>y\<in>set (inorder cl). cmp y cx < 0" "\<forall>y\<in>set (inorder cr). cmp cx y < 0" by auto
      have up: "\<forall>y\<in>set (inorder cr). cmp x y < 0" if "cmp x cx < 0"
        by (rule below_all [of x cx]) (use x C that in simp_all)
      have down: "\<forall>y\<in>set (inorder cl). 0 < cmp x y" if "0 < cmp x cx"
        by (rule above_all [of x cx]) (use x C that in simp_all)
      consider "0 < cmp x cx \<and> cr \<noteq> Leaf" | "cmp x cx < 0 \<and> cl \<noteq> Leaf"
        | "\<not> (cmp x cx < 0 \<and> cl \<noteq> Leaf)" "\<not> (0 < cmp x cx \<and> cr \<noteq> Leaf)" by blast
      then show ?thesis
      proof cases
        case 1
        with res greater Node have "splay_loop cmp x ((Node rl rx cl, cx) # L) cr R = (Node l r rr, c)"
          by (simp add: splay_loop.simps(2))
        then show ?thesis
          by (rule less.IH [rotated]) (use t Node 1 x C greater below down less.prems(6,7) in auto)
      next
        case 2
        with res greater Node have "splay_loop cmp x ((rl, rx) # L) cl ((cx, cr) # R) = (Node l r rr, c)"
          by (simp add: splay_loop.simps(2))
        then show ?thesis
          by (rule less.IH [rotated]) (use t Node 2 x C greater below up less.prems(6,7) in auto)
      next
        case 3
        with res greater Node have "(splay_merge ((rl, rx) # L) (Node cl cx cr) R, cmp x cx) = (Node l r rr, c)"
          by (auto simp: splay_loop.simps(2))
        then show ?thesis
          using 3 greater below less.prems(6,7) by auto
      qed
    qed
  next
    case equal
    with res show ?thesis by (auto simp: splay_loop.simps(2))
  qed
qed

end

section \<open>The representation invariant and the operations\<close>

definition splay_wf :: "('a \<Rightarrow> 'a \<Rightarrow> int) \<Rightarrow> 'a set \<Rightarrow> 'a splay_tree \<Rightarrow> bool" where
  "splay_wf cmp D t \<longleftrightarrow>
     inorder (root t) = thread t \<and> ol_sorted cmp (thread t) \<and> set (thread t) \<subseteq> D \<and>
     tcount t = of_nat (length (thread t))"

lemma splay_wf_empty: "splay_wf cmp D empty_tree"
  by (simp add: splay_wf_def empty_tree_def)

lemma splay_top_down_Node:
  assumes "root t \<noteq> Leaf"
  obtains l r rr where "splay_loop cmp x [] (root t) [] = (Node l r rr, cmp x r)"
    "splay_top_down cmp x t = (t\<lparr>root := Node l r rr\<rparr>, Some r, cmp x r)"
    "inorder (Node l r rr) = inorder (root t)"
proof -
  obtain l r rr where "splay_loop cmp x [] (root t) [] = (Node l r rr, cmp x r)"
    and "inorder (Node l r rr) = inorder (root t)"
    using splay_loop_Node [OF assms, of cmp x "[]" "[]"] by auto
  moreover have "splay_top_down cmp x t = (t\<lparr>root := Node l r rr\<rparr>, Some r, cmp x r)"
    using assms calculation(1) by (cases "root t") (simp_all add: splay_top_down_def)
  ultimately show thesis using that by blast
qed

lemma splay_bottom_up_root [simp]: "splay_bottom_up r (Node l r rr) = Node l r rr"
  by (simp add: splay_bottom_up_def)

lemma thread_before_split: "b \<notin> set xs \<Longrightarrow> thread_before b x (xs @ b # ys) = xs @ x # b # ys"
  by (induction xs) auto

lemma thread_after_split: "b \<notin> set xs \<Longrightarrow> thread_after b x (xs @ b # ys) = xs @ b # x # ys"
  by (induction xs) auto

lemma thread_prev_split:
  "n \<notin> set xs \<Longrightarrow> thread_prev n (xs @ n # ys) = (if xs = [] then thread_prev n (n # ys) else Some (last xs))"
proof (induction xs)
  case (Cons a xs)
  then show ?case by (cases xs) auto
qed simp

lemma thread_prev_head: "n \<notin> set ys \<Longrightarrow> thread_prev n (n # ys) = None"
proof -
  have "n \<notin> set ys \<Longrightarrow> thread_prev n (m # ys) = None" for m
    by (induction ys arbitrary: m) auto
  then show "n \<notin> set ys \<Longrightarrow> thread_prev n (n # ys) = None" .
qed

lemma thread_next_split:
  "n \<notin> set xs \<Longrightarrow> thread_next n (xs @ n # ys) = (case ys of [] \<Rightarrow> None | y # _ \<Rightarrow> Some y)"
proof (induction xs)
  case Nil
  then show ?case by (cases ys) auto
next
  case (Cons a xs)
  then show ?case by (cases xs) auto
qed

lemma set_right_absent: "p \<notin> set (inorder t) \<Longrightarrow> set_right p r t = t"
  by (induction t) auto

lemma inorder_set_right_last:
  "t \<noteq> Leaf \<Longrightarrow> distinct (inorder t) \<Longrightarrow>
   inorder (set_right (last (inorder t)) r t) = inorder t @ inorder r"
proof (induction t)
  case (Node a y b)
  show ?case
  proof (cases "b = Leaf")
    case True
    with Node.prems show ?thesis by (auto simp: set_right_absent)
  next
    case False
    with Node.prems have "last (inorder b) \<in> set (inorder b)" by simp
    with Node.prems have "last (inorder b) \<noteq> y" "last (inorder b) \<notin> set (inorder a)" by auto
    with Node False show ?thesis by (simp add: set_right_absent)
  qed
qed simp

lemma splay_unlink_node_list:
  assumes "inorder (root t) = thread t" "distinct (thread t)" "n \<in> set (thread t)"
  shows "inorder (root (splay_unlink_node t n)) = remove1 n (thread t)"
    and "thread (splay_unlink_node t n) = remove1 n (thread t)"
proof -
  obtain l r where b: "splay_bottom_up n (root t) = Node l n r"
    and io: "inorder l @ n # inorder r = thread t"
    using splay_bottom_up_Node [of n "root t"] assms by auto
  have dist: "distinct (inorder l @ n # inorder r)" using assms(2) io by simp
  have rem: "remove1 n (thread t) = inorder l @ inorder r"
    using dist unfolding io [symmetric] by (simp add: remove1_append)
  show "thread (splay_unlink_node t n) = remove1 n (thread t)"
    by (simp add: splay_unlink_node_def)
  have prev: "thread_prev n (thread t) = (if l = Leaf then None else Some (last (inorder l)))"
    using dist unfolding io [symmetric] by (auto simp: thread_prev_split thread_prev_head)
  have "thread_next n (thread t) = (case inorder r of [] \<Rightarrow> None | y # _ \<Rightarrow> Some y)"
    using dist unfolding io [symmetric] by (simp add: thread_next_split)
  then have nxt: "thread_next n (thread t) = None \<longleftrightarrow> r = Leaf"
    by (auto split: list.splits)
  show "inorder (root (splay_unlink_node t n)) = remove1 n (thread t)"
    using dist nxt
    by (auto simp: splay_unlink_node_def b rem prev inorder_set_right_last split: option.splits)
qed

context comparator begin

lemma sorted_distinct: "ol_sorted cmp xs \<Longrightarrow> set xs \<subseteq> D \<Longrightarrow> distinct xs"
  by (induction xs) (auto simp: cmp_refl)

lemma splay_closest:
  assumes wf: "splay_wf cmp D t" and x: "x \<in> D" and ne: "root t \<noteq> Leaf"
  obtains l r rr where "splay_top_down cmp x t = (t\<lparr>root := Node l r rr\<rparr>, Some r, cmp x r)"
    "thread t = inorder l @ r # inorder rr" "r \<in> D"
    "cmp x r \<le> 0 \<longrightarrow> (\<forall>y\<in>set (inorder l). 0 < cmp x y)"
    "0 \<le> cmp x r \<longrightarrow> (\<forall>y\<in>set (inorder rr). cmp x y < 0)"
    "cmp x r < 0 \<longrightarrow> (\<forall>y\<in>set (inorder rr). cmp x y < 0)"
    "0 < cmp x r \<longrightarrow> (\<forall>y\<in>set (inorder l). 0 < cmp x y)"
proof -
  obtain l r rr where loop: "splay_loop cmp x [] (root t) [] = (Node l r rr, cmp x r)"
    and td: "splay_top_down cmp x t = (t\<lparr>root := Node l r rr\<rparr>, Some r, cmp x r)"
    and io: "inorder (Node l r rr) = inorder (root t)"
    using splay_top_down_Node [OF ne] by blast
  have th: "thread t = inorder l @ r # inorder rr"
    using io wf by (simp add: splay_wf_def)
  have sorted: "ol_sorted cmp (thread t)" and sub: "set (thread t) \<subseteq> D"
    using wf by (simp_all add: splay_wf_def)
  have D: "r \<in> D" "set (inorder l) \<subseteq> D" "set (inorder rr) \<subseteq> D"
    and lt: "\<forall>y\<in>set (inorder l). cmp y r < 0" and gt: "\<forall>y\<in>set (inorder rr). cmp r y < 0"
    using sorted sub th by auto
  from loop have cl: "(cmp x r < 0 \<longrightarrow> (\<forall>y\<in>set (inorder l). 0 < cmp x y)) \<and>
      (0 < cmp x r \<longrightarrow> (\<forall>y\<in>set (inorder rr). cmp x y < 0))"
    by (rule splay_loop_closest) (use ne x sorted sub wf in \<open>auto simp: splay_wf_def\<close>)
  have eq1: "\<forall>y\<in>set (inorder l). 0 < cmp x y" if "cmp x r = 0"
  proof
    fix y assume "y \<in> set (inorder l)"
    with lt D have y: "cmp y r < 0" "y \<in> D" by auto
    have "cmp y x < 0"
      using cmp_less_trans [OF y(2) D(1) x y(1)] cmp_eq_sym [OF x D(1) that] by simp
    then show "0 < cmp x y" using cmp_swap [OF x y(2)] by simp
  qed
  have eq2: "\<forall>y\<in>set (inorder rr). cmp x y < 0" if "cmp x r = 0"
  proof
    fix y assume "y \<in> set (inorder rr)"
    with gt D have y: "cmp r y < 0" "y \<in> D" by auto
    show "cmp x y < 0"
      using cmp_less_trans2 [OF x D(1) y(2) _ y(1)] that by simp
  qed
  show thesis
  proof (rule that [OF td th D(1)])
    show "cmp x r \<le> 0 \<longrightarrow> (\<forall>y\<in>set (inorder l). 0 < cmp x y)"
      using cl eq1 by (cases "cmp x r = 0") auto
    show "0 \<le> cmp x r \<longrightarrow> (\<forall>y\<in>set (inorder rr). cmp x y < 0)"
      using cl eq2 by (cases "cmp x r = 0") auto
    show "cmp x r < 0 \<longrightarrow> (\<forall>y\<in>set (inorder rr). cmp x y < 0)"
      using below_all [OF x D(1,3) _ gt] by blast
    show "0 < cmp x r \<longrightarrow> (\<forall>y\<in>set (inorder l). 0 < cmp x y)"
      using above_all [OF x D(1,2) _ lt] by blast
  qed
qed

lemma ol_search_split:
  "\<forall>y\<in>set xs. cmp x y \<noteq> 0 \<Longrightarrow> ol_search cmp x (xs @ ys) = ol_search cmp x ys"
  by (induction xs) auto

lemma ol_delete_split:
  "\<forall>y\<in>set xs. cmp x y \<noteq> 0 \<Longrightarrow> ol_delete cmp x (xs @ ys) = xs @ ol_delete cmp x ys"
  by (induction xs) auto

lemma splay_search_spec:
  assumes wf: "splay_wf cmp D t" and x: "x \<in> D"
  shows "fst (splay_search cmp x t) = ol_search cmp x (thread t)"
    and "splay_wf cmp D (snd (splay_search cmp x t))"
    and "thread (snd (splay_search cmp x t)) = thread t"
    and "fst (splay_search cmp x t) = Some n \<Longrightarrow> \<exists>l r. root (snd (splay_search cmp x t)) = Node l n r"
proof -
  have "fst (splay_search cmp x t) = ol_search cmp x (thread t) \<and>
    splay_wf cmp D (snd (splay_search cmp x t)) \<and> thread (snd (splay_search cmp x t)) = thread t \<and>
    (fst (splay_search cmp x t) = Some n \<longrightarrow> (\<exists>l r. root (snd (splay_search cmp x t)) = Node l n r))"
  proof (cases "root t = Leaf")
    case True
    with wf show ?thesis
      by (auto simp: splay_search_def splay_search_closest_node_def splay_top_down_def splay_wf_def)
  next
    case False
    obtain l r rr where td: "splay_top_down cmp x t = (t\<lparr>root := Node l r rr\<rparr>, Some r, cmp x r)"
      and th: "thread t = inorder l @ r # inorder rr" and rD: "r \<in> D"
      and lo: "cmp x r \<le> 0 \<longrightarrow> (\<forall>y\<in>set (inorder l). 0 < cmp x y)"
      and hi: "0 \<le> cmp x r \<longrightarrow> (\<forall>y\<in>set (inorder rr). cmp x y < 0)"
      and ge: "cmp x r < 0 \<longrightarrow> (\<forall>y\<in>set (inorder rr). cmp x y < 0)"
      and le: "0 < cmp x r \<longrightarrow> (\<forall>y\<in>set (inorder l). 0 < cmp x y)"
      by (rule splay_closest [OF wf x False]) (rule that; assumption)
    have "ol_search cmp x (thread t) = (if cmp x r = 0 then Some r else None)"
    proof (cases "cmp x r" "0::int" rule: linorder_cases)
      case equal
      with lo have "\<forall>y\<in>set (inorder l). cmp x y \<noteq> 0" by fastforce
      with equal show ?thesis by (simp add: th ol_search_split)
    next
      case less
      with lo ge show ?thesis by (auto simp: th ol_search_None_iff)
    next
      case greater
      with hi le show ?thesis by (fastforce simp: th ol_search_None_iff)
    qed
    with td th wf show ?thesis
      by (auto simp: splay_search_def splay_search_closest_node_def splay_wf_def)
  qed
  then show "fst (splay_search cmp x t) = ol_search cmp x (thread t)"
    "splay_wf cmp D (snd (splay_search cmp x t))"
    "thread (snd (splay_search cmp x t)) = thread t"
    "fst (splay_search cmp x t) = Some n \<Longrightarrow> \<exists>l r. root (snd (splay_search cmp x t)) = Node l n r"
    by blast+
qed

lemma splay_insert_thread:
  assumes wf: "splay_wf cmp D t" and x: "x \<in> D"
  shows "thread (snd (splay_insert cmp x t)) = ol_insert cmp x (thread t)"
    and "inorder (root (snd (splay_insert cmp x t))) = ol_insert cmp x (thread t)"
    and "fst (splay_insert cmp x t) \<longleftrightarrow> ol_search cmp x (thread t) = None"
    and "tcount (snd (splay_insert cmp x t)) = of_nat (length (ol_insert cmp x (thread t)))"
proof -
  let ?t = "snd (splay_insert cmp x t)" and ?xs = "ol_insert cmp x (thread t)"
  have sorted: "ol_sorted cmp (thread t)" and sub: "set (thread t) \<subseteq> D"
    and cnt: "tcount t = of_nat (length (thread t))"
    using wf by (simp_all add: splay_wf_def)
  have "thread ?t = ?xs \<and> inorder (root ?t) = ?xs \<and> tcount ?t = of_nat (length ?xs) \<and>
    (fst (splay_insert cmp x t) \<longleftrightarrow> ol_search cmp x (thread t) = None)"
  proof (cases "root t = Leaf")
    case True
    with wf show ?thesis
      by (auto simp: splay_insert_def splay_insert_top_def splay_wf_def)
  next
    case False
    obtain l r rr where td: "splay_top_down cmp x t = (t\<lparr>root := Node l r rr\<rparr>, Some r, cmp x r)"
      and th: "thread t = inorder l @ r # inorder rr" and rD: "r \<in> D"
      and lo: "cmp x r \<le> 0 \<longrightarrow> (\<forall>y\<in>set (inorder l). 0 < cmp x y)"
      and hi: "0 \<le> cmp x r \<longrightarrow> (\<forall>y\<in>set (inorder rr). cmp x y < 0)"
      and ge: "cmp x r < 0 \<longrightarrow> (\<forall>y\<in>set (inorder rr). cmp x y < 0)"
      and le: "0 < cmp x r \<longrightarrow> (\<forall>y\<in>set (inorder l). 0 < cmp x y)"
      by (rule splay_closest [OF wf x False]) (rule that; assumption)
    have "distinct (inorder l @ r # inorder rr)"
      using sorted_distinct [OF sorted sub] th by simp
    then have r: "r \<notin> set (inorder l)" by simp
    show ?thesis
    proof (cases "cmp x r" "0::int" rule: linorder_cases)
      case equal
      then have "ol_search cmp x (thread t) \<noteq> None" by (auto simp: th ol_search_None_iff)
      with equal td th wf ol_insert_present [OF sub x sorted] show ?thesis
        by (auto simp: splay_insert_def splay_search_closest_node_def splay_wf_def False)
    next
      case less
      then have "ol_search cmp x (thread t) = None" "?xs = inorder l @ x # r # inorder rr"
        using lo ge by (auto simp: th ol_search_None_iff ol_insert_after_all)
      with less td cnt r show ?thesis
        by (simp add: splay_insert_def splay_search_closest_node_def splay_insert_before_def
            False th thread_before_split)
    next
      case greater
      then have "ol_search cmp x (thread t) = None"
        using hi le by (fastforce simp: th ol_search_None_iff)
      moreover have "?xs = inorder l @ r # x # inorder rr"
        using greater hi le by (simp add: th ol_insert_after_all ol_insert_before_all)
      ultimately show ?thesis
        using greater td cnt r
        by (simp add: splay_insert_def splay_search_closest_node_def splay_insert_after_def
            False th thread_after_split)
    qed
  qed
  then show "thread ?t = ?xs" "inorder (root ?t) = ?xs" "tcount ?t = of_nat (length ?xs)"
    "fst (splay_insert cmp x t) \<longleftrightarrow> ol_search cmp x (thread t) = None"
    by blast+
qed

lemma splay_insert_wf:
  assumes "splay_wf cmp D t" "x \<in> D"
  shows "splay_wf cmp D (snd (splay_insert cmp x t))"
  using splay_insert_thread [OF assms] assms sorted_ol_insert [of "thread t" x]
    set_ol_insert_subset [of cmp x "thread t"]
  by (auto simp: splay_wf_def)

lemma ol_delete_remove1:
  "ol_search cmp x ys = Some n \<Longrightarrow> ol_sorted cmp ys \<Longrightarrow> set ys \<subseteq> D \<Longrightarrow> x \<in> D \<Longrightarrow>
   ol_delete cmp x ys = remove1 n ys"
proof (induction ys)
  case (Cons y ys)
  show ?case
  proof (cases "cmp x y = 0")
    case False
    with Cons.prems have n: "ol_search cmp x ys = Some n" by simp
    then have "n \<noteq> y" using False ol_search_SomeD [OF n] by auto
    with False Cons n show ?thesis by simp
  qed (use Cons.prems in auto)
qed simp

lemma ol_search_self:
  "ol_sorted cmp ys \<Longrightarrow> set ys \<subseteq> D \<Longrightarrow> n \<in> set ys \<Longrightarrow> ol_search cmp n ys = Some n"
proof (induction ys)
  case (Cons y ys)
  show ?case
  proof (cases "n = y")
    case True
    with Cons.prems show ?thesis by (simp add: cmp_refl)
  next
    case False
    with Cons.prems have n: "n \<in> set ys" "cmp y n < 0" "n \<in> D" "y \<in> D" by auto
    then have "0 < cmp n y" using cmp_swap by blast
    with Cons n show ?thesis by simp
  qed
qed simp

lemma splay_unlink_node_wf:
  assumes wf: "splay_wf cmp D t" and n: "n \<in> set (thread t)"
  shows "splay_wf cmp D (splay_unlink_node t n)"
proof -
  have sorted: "ol_sorted cmp (thread t)" and sub: "set (thread t) \<subseteq> D"
    and cnt: "tcount t = of_nat (length (thread t))" and io: "inorder (root t) = thread t"
    using wf by (simp_all add: splay_wf_def)
  have rem: "remove1 n (thread t) = ol_delete cmp n (thread t)"
    using ol_delete_remove1 [OF ol_search_self [OF sorted sub n] sorted sub] sub n by auto
  have len: "tcount (splay_unlink_node t n) = of_nat (length (remove1 n (thread t)))"
    using n cnt length_pos_if_in_set [OF n]
    by (simp add: splay_unlink_node_def length_remove1 of_nat_diff Suc_leI)
  have "set (remove1 n (thread t)) \<subseteq> D"
    using sub set_remove1_subset [of n "thread t"] by blast
  with len sorted_ol_delete [OF sorted, of n, folded rem] show ?thesis
    by (simp add: splay_wf_def splay_unlink_node_list [OF io sorted_distinct [OF sorted sub] n])
qed

lemma splay_delete_spec:
  assumes wf: "splay_wf cmp D t" and x: "x \<in> D"
  shows "thread (splay_delete cmp x t) = ol_delete cmp x (thread t)"
    and "splay_wf cmp D (splay_delete cmp x t)"
proof -
  note s = splay_search_spec [OF wf x]
  have "thread (splay_delete cmp x t) = ol_delete cmp x (thread t) \<and>
    splay_wf cmp D (splay_delete cmp x t)"
  proof (cases "ol_search cmp x (thread t)")
    case None
    with s show ?thesis
      by (auto simp: splay_delete_def ol_delete_absent split: prod.splits)
  next
    case (Some n)
    then have n: "n \<in> set (thread t)" by (blast dest: ol_search_SomeD)
    let ?t = "snd (splay_search cmp x t)"
    have del: "splay_delete cmp x t = splay_unlink_node ?t n"
      using s(1) Some by (cases "splay_search cmp x t") (simp add: splay_delete_def)
    have "ol_delete cmp x (thread t) = remove1 n (thread t)"
      using ol_delete_remove1 [OF Some _ _ x] wf by (simp add: splay_wf_def)
    moreover have "thread (splay_unlink_node ?t n) = remove1 n (thread t)"
      by (simp add: splay_unlink_node_def s(3))
    ultimately show ?thesis
      using splay_unlink_node_wf [OF s(2), of n] n s(3) by (simp add: del)
  qed
  then show "thread (splay_delete cmp x t) = ol_delete cmp x (thread t)"
    "splay_wf cmp D (splay_delete cmp x t)" by blast+
qed

end

section \<open>The interface other components use\<close>

text \<open>
  What \<open>splay_search\<close>, \<open>splay_insert\<close> and \<open>splay_delete\<close> promise: the container denotes an ordered
  list, and the three operations act on it as search, insertion and deletion do.  The facts below
  are proved once for every container with these laws.
\<close>

locale ordered_table = comparator cmp D
  for cmp :: "'a \<Rightarrow> 'a \<Rightarrow> int" and D :: "'a set" +
  fixes contents :: "'t \<Rightarrow> 'a list"
    and valid :: "'t \<Rightarrow> bool"
    and tsearch :: "'a \<Rightarrow> 't \<Rightarrow> 'a option \<times> 't"
    and tinsert :: "'a \<Rightarrow> 't \<Rightarrow> bool \<times> 't"
    and tdelete :: "'a \<Rightarrow> 't \<Rightarrow> 't"
  assumes contents_sorted: "valid t \<Longrightarrow> ol_sorted cmp (contents t)"
    and contents_subset: "valid t \<Longrightarrow> set (contents t) \<subseteq> D"
    and search_result: "valid t \<Longrightarrow> x \<in> D \<Longrightarrow> fst (tsearch x t) = ol_search cmp x (contents t)"
    and search_contents: "valid t \<Longrightarrow> x \<in> D \<Longrightarrow> contents (snd (tsearch x t)) = contents t"
    and search_valid: "valid t \<Longrightarrow> x \<in> D \<Longrightarrow> valid (snd (tsearch x t))"
    and insert_result: "valid t \<Longrightarrow> x \<in> D \<Longrightarrow>
      fst (tinsert x t) \<longleftrightarrow> ol_search cmp x (contents t) = None"
    and insert_contents: "valid t \<Longrightarrow> x \<in> D \<Longrightarrow>
      contents (snd (tinsert x t)) = ol_insert cmp x (contents t)"
    and insert_valid: "valid t \<Longrightarrow> x \<in> D \<Longrightarrow> valid (snd (tinsert x t))"
    and delete_contents: "valid t \<Longrightarrow> x \<in> D \<Longrightarrow>
      contents (tdelete x t) = ol_delete cmp x (contents t)"
    and delete_valid: "valid t \<Longrightarrow> x \<in> D \<Longrightarrow> valid (tdelete x t)"
begin

lemmas table_laws = search_result search_contents search_valid insert_result insert_contents
  insert_valid delete_contents delete_valid

lemma search_after_insert:
  assumes "valid t" "x \<in> D" "fst (tinsert x t)"
  shows "fst (tsearch x (snd (tinsert x t))) = Some x"
  using assms contents_subset [of t] by (simp add: table_laws ol_search_insert_same)

lemma search_after_delete:
  assumes "valid t" "x \<in> D"
  shows "fst (tsearch x (tdelete x t)) = None"
  using assms contents_subset [of t] contents_sorted [of t]
  by (simp add: table_laws ol_search_delete_same)

lemma insert_refused:
  assumes "valid t" "x \<in> D" "\<not> fst (tinsert x t)"
  shows "contents (snd (tinsert x t)) = contents t"
  using assms contents_subset [of t] contents_sorted [of t] ol_insert_present [of "contents t" x]
  by (simp add: table_laws)

text \<open>
  Insertion and deletion do not touch an element that compares different: searching for \<open>y\<close>
  finds what it found before.
\<close>

lemma search_other_after_delete:
  assumes "valid t" "x \<in> D" "y \<in> D" "cmp x y \<noteq> 0"
  shows "fst (tsearch y (tdelete x t)) = fst (tsearch y t)"
proof -
  have "ol_search cmp y (ol_delete cmp x zs) = ol_search cmp y zs" if "set zs \<subseteq> D" for zs
    using that
  proof (induction zs)
    case (Cons z zs)
    show ?case
    proof (cases "cmp x z = 0")
      case True
      with Cons.prems assms have "cmp y z \<noteq> 0"
        using cmp_eq_sym [of y z] cmp_flip [of x z] cmp_flip [of z y]
          cmp_trans [of x z y] cmp_trans [of y z x] cmp_eq_sym [of x z] cmp_flip [of y x]
        by (metis dual_order.refl insert_subset list.simps(15) order_antisym)
      with True show ?thesis by simp
    next
      case False
      with Cons show ?thesis by simp
    qed
  qed simp
  with assms contents_subset [of t] show ?thesis by (simp add: table_laws)
qed

lemma search_other_after_insert:
  assumes "valid t" "x \<in> D" "y \<in> D" "cmp y x \<noteq> 0"
  shows "fst (tsearch y (snd (tinsert x t))) = fst (tsearch y t)"
proof -
  have "ol_search cmp y (ol_insert cmp x zs) = ol_search cmp y zs" for zs
    using assms by (induction zs) auto
  with assms show ?thesis by (simp add: table_laws)
qed

end

text \<open>\<open>splay_tree.c\<close> provides the interface for every lawful comparison function.\<close>

sublocale comparator \<subseteq> splay: ordered_table cmp D thread "splay_wf cmp D"
  "splay_search cmp" "splay_insert cmp" "splay_delete cmp"
  by unfold_locales
    (simp_all add: splay_search_spec splay_insert_thread splay_insert_wf splay_delete_spec,
     simp_all add: splay_wf_def)

section \<open>Runs of operations\<close>

datatype 'a tree_op = Op_insert 'a | Op_delete 'a | Op_search 'a | Op_clear

datatype 'a tree_obs = Inserted bool | Found "'a option" | Done

fun op_args :: "'a tree_op \<Rightarrow> 'a set" where
  "op_args (Op_insert x) = {x}"
| "op_args (Op_delete x) = {x}"
| "op_args (Op_search x) = {x}"
| "op_args Op_clear = {}"

fun splay_exec :: "('a \<Rightarrow> 'a \<Rightarrow> int) \<Rightarrow> 'a tree_op \<Rightarrow> 'a splay_tree \<Rightarrow> 'a tree_obs \<times> 'a splay_tree" where
  "splay_exec cmp (Op_insert x) t = 
     (Inserted (fst (splay_insert cmp x t)), snd (splay_insert cmp x t))"
| "splay_exec cmp (Op_delete x) t = (Done, splay_delete cmp x t)"
| "splay_exec cmp (Op_search x) t = 
     (Found (fst (splay_search cmp x t)), snd (splay_search cmp x t))"
| "splay_exec cmp Op_clear t = (Done, splay_empty_tree t)"

fun list_exec :: "('a \<Rightarrow> 'a \<Rightarrow> int) \<Rightarrow> 'a tree_op \<Rightarrow> 'a list \<Rightarrow> 'a tree_obs \<times> 'a list" where
  "list_exec cmp (Op_insert x) xs = (Inserted (ol_search cmp x xs = None), ol_insert cmp x xs)"
| "list_exec cmp (Op_delete x) xs = (Done, ol_delete cmp x xs)"
| "list_exec cmp (Op_search x) xs = (Found (ol_search cmp x xs), xs)"
| "list_exec cmp Op_clear xs = (Done, [])"

context comparator begin

lemma splay_exec_refines:
  assumes wf: "splay_wf cmp D t" and args: "op_args op \<subseteq> D"
  shows "fst (splay_exec cmp op t) = fst (list_exec cmp op (thread t))"
    and "thread (snd (splay_exec cmp op t)) = snd (list_exec cmp op (thread t))"
    and "splay_wf cmp D (snd (splay_exec cmp op t))"
proof -
  have empty: "splay_wf cmp D (splay_empty_tree t)" "thread (splay_empty_tree t) = []"
    by (simp_all add: splay_empty_tree_def splay_wf_def)
  show "fst (splay_exec cmp op t) = fst (list_exec cmp op (thread t))"
    by (cases op) (use args wf in \<open>simp_all add: splay.search_result splay.insert_result\<close>)
  show "thread (snd (splay_exec cmp op t)) = snd (list_exec cmp op (thread t))"
    by (cases op) (use args wf empty in \<open>simp_all add: splay.table_laws\<close>)
  show "splay_wf cmp D (snd (splay_exec cmp op t))"
    by (cases op) (use args wf empty in \<open>simp_all add: splay.table_laws\<close>)
qed

lemma splay_run_refines:
  assumes "\<Union> (op_args ` set ops) \<subseteq> D" "splay_wf cmp D t"
  shows "fst (run_ops (splay_exec cmp) ops t) = fst (run_ops (list_exec cmp) ops (thread t)) \<and>
    splay_wf cmp D (snd (run_ops (splay_exec cmp) ops t)) \<and>
    thread (snd (run_ops (splay_exec cmp) ops t)) = snd (run_ops (list_exec cmp) ops (thread t))"
  by (rule run_ops_simulation [where R = "\<lambda>t xs. splay_wf cmp D t \<and> thread t = xs"
        and valid = "\<lambda>op. op_args op \<subseteq> D"])
    (use assms splay_exec_refines in auto)

end

section \<open>Properties\<close>

text \<open>Whatever the comparison function answers, the top-down splay neither loses, duplicates nor
  reorders an element: the in-order sequence of the tree is the same before and after, the node
  it returns is the new root, and the result it reports is the comparison with that node.\<close>

lemma splay_top_down_keeps_elements:
  assumes "root t \<noteq> Leaf"
  shows "\<exists>l n r. splay_top_down cmp x t = (t\<lparr>root := Node l n r\<rparr>, Some n, cmp x n) \<and>
    inorder (Node l n r) = inorder (root t)"
  using splay_top_down_Node [OF assms, of cmp x] by metis

text \<open>C5: Any sequence of insertions, deletions, searches and clearings on an empty tree with a lawful
  comparison gives the answers an ordered list gives, and leaves a tree whose in-order sequence,
  linked list and counter are those of that ordered list.\<close>

theorem splay_tree_refines_ordered_list:
  assumes "comparator cmp D" "\<Union> (op_args ` set ops) \<subseteq> D"
  shows "let (answers, t) = run_ops (splay_exec cmp) ops empty_tree;
             (expected, xs) = run_ops (list_exec cmp) ops []
         in answers = expected \<and> inorder (root t) = xs \<and> thread t = xs \<and>
            tcount t = of_nat (length xs) \<and> ol_sorted cmp xs"
  using comparator.splay_run_refines [OF assms splay_wf_empty]
  by (auto simp: splay_wf_def empty_tree_def split: prod.splits)

theorem splay_tree_refines_ordered_list_witness:
  "thread (snd (run_ops (splay_exec int_cmp)
     [Op_insert 4, Op_insert 9, Op_insert 1, Op_search 9, Op_delete 4, Op_insert 9] empty_tree)) = [1, 9]"
proof -
  have "\<Union> (op_args ` set [Op_insert 4, Op_insert 9, Op_insert 1, Op_search 9, Op_delete 4, Op_insert 9])
    \<subseteq> small_int" by (simp add: small_int_def)
  from splay_tree_refines_ordered_list [OF int_sub.comparator_axioms this] show ?thesis
    by (simp add: int_cmp_def wrap_int32_def Let_def split: prod.splits)
qed

end
