(* ===== verification/HashCache.thy ===== *)
theory HashCache
  imports TincPrelude
begin

text \<open>
  The fixed-size lookup cache of \<open>hash.h\<close> (the functions the macro \<open>hash_define(t, n)\<close> generates):
  \<open>n\<close> slots of keys and values, a key is looked for in four consecutive slots from the one its
  hash selects.  A cleared or deleted slot has the value \<open>NULL\<close> (\<open>None\<close> here) and keeps its key.

  The cache may forget an entry at any insertion.  What it must never do is answer with a value that was
  deleted: that is the locale \<open>lossy_cache\<close>, which the slots provide as long as an entry is
  inserted only after its key was looked up without success.
\<close>

record ('k, 'v) hash_t =
  hkeys :: "'k list"
  hvalues :: "'v option list"

definition hash_search_iterations :: nat where
  "hash_search_iterations = 4"

text \<open>\<open>hash & (n - 1)\<close> in 32-bit arithmetic.\<close>

definition hash_modulo :: "nat \<Rightarrow> u32 \<Rightarrow> nat" where
  "hash_modulo n h = unat (and h (of_nat n - 1))"

text \<open>\<open>if(++i == n) i = 0\<close>\<close>

definition next_slot :: "nat \<Rightarrow> nat \<Rightarrow> nat" where
  "next_slot n i = (if Suc i = n then 0 else Suc i)"

definition hash_store :: "nat \<Rightarrow> 'k \<Rightarrow> 'v \<Rightarrow> ('k, 'v) hash_t \<Rightarrow> ('k, 'v) hash_t" where
  "hash_store i key v c = c\<lparr>hkeys := (hkeys c)[i := key], hvalues := (hvalues c)[i := Some v]\<rparr>"

fun hash_insert_loop ::
  "nat \<Rightarrow> nat \<Rightarrow> nat \<Rightarrow> 'k \<Rightarrow> 'v \<Rightarrow> ('k, 'v) hash_t \<Rightarrow> ('k, 'v) hash_t" where
  "hash_insert_loop n 0 i key v c = hash_store i key v c"
| "hash_insert_loop n (Suc f) i key v c =
     (if hvalues c ! i = None \<or> hkeys c ! i = key then hash_store i key v c
      else hash_insert_loop n f (next_slot n i) key v c)"

definition hash_insert ::
  "nat \<Rightarrow> ('k \<Rightarrow> u32) \<Rightarrow> ('k, 'v) hash_t \<Rightarrow> 'k \<Rightarrow> 'v \<Rightarrow> ('k, 'v) hash_t" where
  "hash_insert n h c key v =
     hash_insert_loop n (hash_search_iterations - 1) (hash_modulo n (h key)) key v c"

fun hash_search_loop :: "nat \<Rightarrow> nat \<Rightarrow> nat \<Rightarrow> 'k \<Rightarrow> ('k, 'v) hash_t \<Rightarrow> 'v option" where
  "hash_search_loop n 0 i key c = None"
| "hash_search_loop n (Suc f) i key c =
     (if hkeys c ! i = key then hvalues c ! i else hash_search_loop n f (next_slot n i) key c)"

definition hash_search :: "nat \<Rightarrow> ('k \<Rightarrow> u32) \<Rightarrow> ('k, 'v) hash_t \<Rightarrow> 'k \<Rightarrow> 'v option" where
  "hash_search n h c key = hash_search_loop n hash_search_iterations (hash_modulo n (h key)) key c"

fun hash_delete_loop :: "nat \<Rightarrow> nat \<Rightarrow> nat \<Rightarrow> 'k \<Rightarrow> ('k, 'v) hash_t \<Rightarrow> ('k, 'v) hash_t" where
  "hash_delete_loop n 0 i key c = c"
| "hash_delete_loop n (Suc f) i key c =
     (if hkeys c ! i = key then c\<lparr>hvalues := (hvalues c)[i := None]\<rparr>
      else hash_delete_loop n f (next_slot n i) key c)"

definition hash_delete :: "nat \<Rightarrow> ('k \<Rightarrow> u32) \<Rightarrow> ('k, 'v) hash_t \<Rightarrow> 'k \<Rightarrow> ('k, 'v) hash_t" where
  "hash_delete n h c key = hash_delete_loop n hash_search_iterations (hash_modulo n (h key)) key c"

text \<open>\<open>memset\<close> of both arrays: every key becomes the all-zero key.\<close>

definition hash_clear :: "nat \<Rightarrow> 'k \<Rightarrow> ('k, 'v) hash_t \<Rightarrow> ('k, 'v) hash_t" where
  "hash_clear n zero c = c\<lparr>hvalues := replicate n None, hkeys := replicate n zero\<rparr>"

section \<open>The interface\<close>

locale lossy_cache =
  fixes ok :: "'c \<Rightarrow> bool"
    and cfind :: "'c \<Rightarrow> 'k \<Rightarrow> 'v option"
    and cput :: "'c \<Rightarrow> 'k \<Rightarrow> 'v \<Rightarrow> 'c"
    and cdel :: "'c \<Rightarrow> 'k \<Rightarrow> 'c"
    and cclear :: "'c \<Rightarrow> 'c"
  assumes ok_clear: "ok (cclear c)"
    and ok_put: "ok c \<Longrightarrow> cfind c k = None \<Longrightarrow> ok (cput c k v)"
    and ok_del: "ok c \<Longrightarrow> ok (cdel c k)"
    and find_clear: "cfind (cclear c) k = None"
    and find_put: "ok c \<Longrightarrow> cfind c k = None \<Longrightarrow> cfind (cput c k v) k = Some v"
    and find_put_other: "ok c \<Longrightarrow> cfind c k = None \<Longrightarrow> j \<noteq> k \<Longrightarrow>
      cfind (cput c k v) j = cfind c j \<or> cfind (cput c k v) j = None"
    and find_del: "ok c \<Longrightarrow> cfind (cdel c k) k = None"
    and find_del_other: "ok c \<Longrightarrow> j \<noteq> k \<Longrightarrow> cfind (cdel c k) j = cfind c j"
begin

text \<open>
  A memoised function: the cache holds only values of \<open>f\<close>.  \<open>cached f\<close> looks a key up and stores
  what \<open>f\<close> computes on a miss.
\<close>

definition coherent :: "('k \<Rightarrow> 'v option) \<Rightarrow> 'c \<Rightarrow> bool" where
  "coherent f c \<longleftrightarrow> ok c \<and> (\<forall>k v. cfind c k = Some v \<longrightarrow> f k = Some v)"

definition cached :: "('k \<Rightarrow> 'v option) \<Rightarrow> 'c \<Rightarrow> 'k \<Rightarrow> 'v option \<times> 'c" where
  "cached f c k =
     (case cfind c k of
        Some v \<Rightarrow> (Some v, c)
      | None \<Rightarrow> (case f k of None \<Rightarrow> (None, c) | Some v \<Rightarrow> (Some v, cput c k v)))"

lemma coherent_clear: "coherent f (cclear c)"
  by (simp add: coherent_def ok_clear find_clear)

lemma cached_result: "coherent f c \<Longrightarrow> fst (cached f c k) = f k"
  by (auto simp: cached_def coherent_def split: option.splits)

lemma coherent_put:
  assumes "coherent f c" "cfind c k = None" "f k = Some v"
  shows "coherent f (cput c k v)"
proof -
  have c: "ok c" "\<And>j w. cfind c j = Some w \<Longrightarrow> f j = Some w"
    using assms(1) by (auto simp: coherent_def)
  have "f j = Some w" if w: "cfind (cput c k v) j = Some w" for j w
  proof (cases "j = k")
    case True
    with w find_put [OF c(1) assms(2), of v] assms(3) show ?thesis by simp
  next
    case False
    with w find_put_other [OF c(1) assms(2), of j v] have "cfind c j = Some w" by auto
    then show ?thesis by (rule c(2))
  qed
  with assms c show ?thesis by (simp add: coherent_def ok_put)
qed

lemma cached_coherent: "coherent f c \<Longrightarrow> coherent f (snd (cached f c k))"
  by (auto simp: cached_def intro: coherent_put split: option.splits)

text \<open>
  When the function changes at one key only, deleting that key keeps the cache coherent.
\<close>

lemma coherent_del:
  assumes "coherent f c" "\<And>j. j \<noteq> k \<Longrightarrow> g j = f j"
  shows "coherent g (cdel c k)"
  unfolding coherent_def
proof (intro conjI allI impI)
  have c: "ok c" "\<And>j w. cfind c j = Some w \<Longrightarrow> f j = Some w"
    using assms(1) by (auto simp: coherent_def)
  show "ok (cdel c k)" by (rule ok_del [OF c(1)])
  fix j v assume v: "cfind (cdel c k) j = Some v"
  have j: "j \<noteq> k" using v find_del [OF c(1), of k] by auto
  with v have "cfind c j = Some v" using find_del_other [OF c(1) j] by simp
  then show "g j = Some v" using assms(2) [OF j] c(2) by simp
qed

end

section \<open>The slots provide the interface\<close>

text \<open>The slots a key may be in, in the order they are visited.\<close>

fun slots :: "nat \<Rightarrow> nat \<Rightarrow> nat \<Rightarrow> nat list" where
  "slots n 0 i = []"
| "slots n (Suc f) i = i # slots n f (next_slot n i)"

fun slot_find :: "'k \<Rightarrow> ('k, 'v) hash_t \<Rightarrow> nat list \<Rightarrow> 'v option" where
  "slot_find key c [] = None"
| "slot_find key c (s # ss) = (if hkeys c ! s = key then hvalues c ! s else slot_find key c ss)"

fun slot_delete :: "'k \<Rightarrow> ('k, 'v) hash_t \<Rightarrow> nat list \<Rightarrow> ('k, 'v) hash_t" where
  "slot_delete key c [] = c"
| "slot_delete key c (s # ss) =
     (if hkeys c ! s = key then c\<lparr>hvalues := (hvalues c)[s := None]\<rparr> else slot_delete key c ss)"

fun store_slot :: "'k \<Rightarrow> ('k, 'v) hash_t \<Rightarrow> nat list \<Rightarrow> nat" where
  "store_slot key c (s # s' # ss) =
     (if hvalues c ! s = None \<or> hkeys c ! s = key then s else store_slot key c (s' # ss))"
| "store_slot key c [s] = s"
| "store_slot key c [] = 0"

text \<open>All entries of the key in these slots are dead.\<close>

definition all_dead :: "'k \<Rightarrow> ('k, 'v) hash_t \<Rightarrow> nat list \<Rightarrow> bool" where
  "all_dead key c ss \<longleftrightarrow> (\<forall>q\<in>set ss. hkeys c ! q = key \<longrightarrow> hvalues c ! q = None)"

text \<open>
  No slot before a live entry carries the same key, so a live entry is the one a search meets.
\<close>

fun live_first :: "'k \<Rightarrow> ('k, 'v) hash_t \<Rightarrow> nat list \<Rightarrow> bool" where
  "live_first key c [] = True"
| "live_first key c (s # ss) \<longleftrightarrow>
     (hkeys c ! s = key \<longrightarrow> all_dead key c ss) \<and> live_first key c ss"

definition key_slots :: "nat \<Rightarrow> ('k \<Rightarrow> u32) \<Rightarrow> 'k \<Rightarrow> nat list" where
  "key_slots n h key = slots n hash_search_iterations (hash_modulo n (h key))"

definition hash_ok :: "nat \<Rightarrow> ('k \<Rightarrow> u32) \<Rightarrow> ('k, 'v) hash_t \<Rightarrow> bool" where
  "hash_ok n h c \<longleftrightarrow> length (hkeys c) = n \<and> length (hvalues c) = n \<and>
     (\<forall>key. live_first key c (key_slots n h key))"

lemma hash_search_slots: "hash_search_loop n f i key c = slot_find key c (slots n f i)"
  by (induction f arbitrary: i) auto

lemma hash_delete_slots: "hash_delete_loop n f i key c = slot_delete key c (slots n f i)"
  by (induction f arbitrary: i) auto

lemma hash_insert_slots:
  "hash_insert_loop n f i key v c = hash_store (store_slot key c (slots n (Suc f) i)) key v c"
  by (induction f arbitrary: i) auto

lemma hash_modulo_less:
  assumes "0 < n" "n \<le> 2 ^ 31"
  shows "hash_modulo n h < n"
proof -
  have eq: "of_nat n - (1 :: u32) = of_nat (n - 1)"
    using assms by (simp add: of_nat_diff)
  have "unat (of_nat (n - 1) :: u32) = n - 1"
    by (subst unat_of_nat) (use assms in simp)
  moreover have "and h (of_nat n - 1) \<le> of_nat n - 1"
    by (rule word_and_le1)
  ultimately show ?thesis
    using assms unfolding hash_modulo_def word_le_nat_alt eq by linarith
qed

lemma slots_4: "slots n 4 i =
    [i, next_slot n i, next_slot n (next_slot n i), next_slot n (next_slot n (next_slot n i))]"
  by (simp add: numeral_eq_Suc)

lemma slots_4_distinct: "4 \<le> n \<Longrightarrow> i < n \<Longrightarrow> distinct (slots n 4 i) \<and> set (slots n 4 i) \<subseteq> {..<n}"
  unfolding slots_4 next_slot_def by auto

lemma all_dead_Nil [simp]: "all_dead key c []"
  by (simp add: all_dead_def)

lemma all_dead_Cons [simp]:
  "all_dead key c (s # ss) \<longleftrightarrow> (hkeys c ! s = key \<longrightarrow> hvalues c ! s = None) \<and> all_dead key c ss"
  by (simp add: all_dead_def)

lemma live_first_miss: "live_first key c ss \<Longrightarrow> slot_find key c ss = None \<Longrightarrow> all_dead key c ss"
  by (induction ss) (auto split: if_splits)

lemma all_dead_miss: "all_dead key c ss \<Longrightarrow> slot_find key c ss = None"
  by (induction ss) auto

lemma all_dead_live_first: "all_dead key c ss \<Longrightarrow> live_first key c ss"
  by (induction ss) auto

lemma nth_hash_store:
  "p < length (hkeys c) \<Longrightarrow> p < length (hvalues c) \<Longrightarrow>
   hkeys (hash_store p key v c) ! q = (if q = p then key else hkeys c ! q) \<and>
   hvalues (hash_store p key v c) ! q = (if q = p then Some v else hvalues c ! q)"
  by (auto simp: hash_store_def nth_list_update)

text \<open>What storing an entry in slot \<open>p\<close> does to the other keys.\<close>

lemma store_all_dead_other:
  assumes "p < length (hkeys c)" "p < length (hvalues c)" "j \<noteq> key" "all_dead j c ss"
  shows "all_dead j (hash_store p key v c) ss"
  using assms nth_hash_store [OF assms(1,2)] by (auto simp: all_dead_def)

lemma store_live_first_other:
  assumes "p < length (hkeys c)" "p < length (hvalues c)" "j \<noteq> key"
  shows "live_first j c ss \<Longrightarrow> live_first j (hash_store p key v c) ss"
  using nth_hash_store [OF assms(1,2)] store_all_dead_other [OF assms] assms(3)
  by (induction ss) auto

lemma store_find_other:
  assumes "p < length (hkeys c)" "p < length (hvalues c)" "j \<noteq> key" "live_first j c ss"
  shows "slot_find j (hash_store p key v c) ss = slot_find j c ss \<or>
    slot_find j (hash_store p key v c) ss = None"
  using assms(4)
proof (induction ss)
  case (Cons s ss)
  show ?case
  proof (cases "s = p \<and> hkeys c ! p = j")
    case True
    with Cons.prems have "all_dead j c ss" by simp
    then have "slot_find j (hash_store p key v c) ss = None"
      by (intro all_dead_miss store_all_dead_other assms)
    with True assms(3) nth_hash_store [OF assms(1,2)] show ?thesis by simp
  next
    case False
    with Cons assms(3) nth_hash_store [OF assms(1,2)] show ?thesis by auto
  qed
qed simp

text \<open>What it does to the stored key, when no live entry of it existed.\<close>

lemma store_slot_in: "ss \<noteq> [] \<Longrightarrow> store_slot key c ss \<in> set ss"
  by (induction key c ss rule: store_slot.induct) auto

lemma store_same:
  assumes len: "\<forall>s\<in>set ss. s < length (hkeys c) \<and> s < length (hvalues c)"
    and dead: "all_dead key c ss" and dist: "distinct ss" "ss \<noteq> []"
  shows "slot_find key (hash_store (store_slot key c ss) key v c) ss = Some v \<and>
    live_first key (hash_store (store_slot key c ss) key v c) ss"
  using assms
proof (induction key c ss rule: store_slot.induct)
  case (1 key c s s' ss)
  note nth = nth_hash_store [of s c key v]
  show ?case
  proof (cases "hvalues c ! s = None \<or> hkeys c ! s = key")
    case True
    have "all_dead key (hash_store s key v c) (s' # ss)"
      using "1.prems" nth by (auto simp: all_dead_def)
    with True nth "1.prems" show ?thesis
      by (auto intro: all_dead_live_first)
  next
    case False
    let ?p = "store_slot key c (s' # ss)"
    have p: "?p \<in> set (s' # ss)" by (rule store_slot_in) simp
    then have ne: "s \<noteq> ?p" using "1.prems" by auto
    have "?p < length (hkeys c)" "?p < length (hvalues c)" using p "1.prems"(1) by auto
    with ne False nth_hash_store [of ?p c key v] "1.IH" "1.prems" show ?thesis by auto
  qed
next
  case (2 key c s)
  then show ?case using nth_hash_store [of s c key v] by simp
qed simp

lemma slot_delete_keys [simp]: "hkeys (slot_delete key c ss) = hkeys c"
  by (induction ss) auto

lemma slot_delete_length [simp]: "length (hvalues (slot_delete key c ss)) = length (hvalues c)"
  by (induction ss) auto

lemma slot_delete_values:
  "hvalues (slot_delete key c ss) ! q = hvalues c ! q \<or>
   hvalues (slot_delete key c ss) ! q = None \<and> hkeys c ! q = key"
proof (induction ss)
  case (Cons s ss)
  then show ?case by (cases "s = q"; cases "q < length (hvalues c)") (auto simp: list_update_beyond)
qed simp

lemma slot_delete_same:
  assumes "\<forall>s\<in>set ss. s < length (hvalues c)"
  shows "slot_find key (slot_delete key c ss) ss = None"
  using assms by (induction ss) auto

lemma slot_delete_other:
  "j \<noteq> key \<Longrightarrow> slot_find j (slot_delete key c ds) ss = slot_find j c ss"
proof (induction ss)
  case (Cons s ss)
  then show ?case using slot_delete_values [of key c ds s] by auto
qed simp

lemma slot_delete_all_dead: "all_dead j c ss \<Longrightarrow> all_dead j (slot_delete key c ds) ss"
  unfolding all_dead_def slot_delete_keys by (metis slot_delete_values)

lemma slot_delete_live_first: "live_first j c ss \<Longrightarrow> live_first j (slot_delete key c ds) ss"
  by (induction ss) (auto intro: slot_delete_all_dead)

section \<open>\<open>hash.h\<close> is such a cache\<close>

text \<open>
  A table of \<open>n\<close> slots, at least the four a key may occupy, and few enough for a 32-bit index.
\<close>

locale hash_table =
  fixes n :: nat and h :: "'k \<Rightarrow> u32" and zero :: 'k
  assumes n_range: "4 \<le> n" "n \<le> 2 ^ 31"
begin

lemma key_slots_props:
  "distinct (key_slots n h key)" "set (key_slots n h key) \<subseteq> {..<n}" "key_slots n h key \<noteq> []"
  using slots_4_distinct [OF n_range(1) hash_modulo_less, of "h key"] n_range
  by (auto simp: key_slots_def hash_search_iterations_def slots_4)

lemma hash_search_eq: "hash_search n h c key = slot_find key c (key_slots n h key)"
  by (simp add: hash_search_def key_slots_def hash_search_slots)

lemma hash_delete_eq: "hash_delete n h c key = slot_delete key c (key_slots n h key)"
  by (simp add: hash_delete_def key_slots_def hash_delete_slots)

lemma hash_insert_eq:
  "hash_insert n h c key v = hash_store (store_slot key c (key_slots n h key)) key v c"
  by (simp add: hash_insert_def key_slots_def hash_insert_slots hash_search_iterations_def
      del: slots.simps)

lemma hash_ok_len: "hash_ok n h c \<Longrightarrow> s \<in> set (key_slots n h key) \<Longrightarrow>
    s < length (hkeys c) \<and> s < length (hvalues c)"
  using key_slots_props(2) by (auto simp: hash_ok_def)

lemma hash_miss_dead:
  "hash_ok n h c \<Longrightarrow> hash_search n h c key = None \<Longrightarrow> all_dead key c (key_slots n h key)"
  by (auto simp: hash_ok_def hash_search_eq intro: live_first_miss)

lemma hash_insert_props:
  assumes ok: "hash_ok n h c" and miss: "hash_search n h c key = None"
  shows "hash_ok n h (hash_insert n h c key v)"
    and "hash_search n h (hash_insert n h c key v) key = Some v"
    and "j \<noteq> key \<Longrightarrow> hash_search n h (hash_insert n h c key v) j = hash_search n h c j \<or>
      hash_search n h (hash_insert n h c key v) j = None"
proof -
  let ?ss = "key_slots n h key" and ?p = "store_slot key c (key_slots n h key)"
  have p: "?p < length (hkeys c)" "?p < length (hvalues c)"
    using hash_ok_len [OF ok] store_slot_in [OF key_slots_props(3), of key c key] by blast+
  have same: "slot_find key (hash_store ?p key v c) ?ss = Some v"
    "live_first key (hash_store ?p key v c) ?ss"
    using store_same [of ?ss c key v] hash_ok_len [OF ok] hash_miss_dead [OF ok miss]
      key_slots_props by blast+
  have live: "live_first j c (key_slots n h j)" for j
    using ok by (simp add: hash_ok_def)
  have "live_first j (hash_store ?p key v c) (key_slots n h j)" for j
    using same store_live_first_other [OF p _ live, of j key v] by (cases "j = key") auto
  then show "hash_ok n h (hash_insert n h c key v)"
    using ok by (simp add: hash_ok_def hash_insert_eq hash_store_def)
  show "hash_search n h (hash_insert n h c key v) key = Some v"
    using same by (simp add: hash_search_eq hash_insert_eq)
  show "j \<noteq> key \<Longrightarrow> hash_search n h (hash_insert n h c key v) j = hash_search n h c j \<or>
      hash_search n h (hash_insert n h c key v) j = None"
    using store_find_other [OF p _ live] by (simp add: hash_search_eq hash_insert_eq)
qed

lemma hash_delete_props:
  assumes ok: "hash_ok n h c"
  shows "hash_ok n h (hash_delete n h c key)"
    and "hash_search n h (hash_delete n h c key) key = None"
    and "j \<noteq> key \<Longrightarrow> hash_search n h (hash_delete n h c key) j = hash_search n h c j"
  using ok hash_ok_len [OF ok, of _ key]
  by (auto simp: hash_ok_def hash_search_eq hash_delete_eq slot_delete_other slot_delete_live_first
      intro: slot_delete_same)

lemma hash_clear_props:
  "hash_ok n h (hash_clear n zero c)" "hash_search n h (hash_clear n zero c) key = None"
proof -
  have "all_dead key (hash_clear n zero c) (key_slots n h key)" for key
    unfolding all_dead_def hash_clear_def using key_slots_props(2) [of key]
    by (auto simp: subset_iff)
  then show "hash_ok n h (hash_clear n zero c)" "hash_search n h (hash_clear n zero c) key = None"
    by (auto simp: hash_ok_def hash_search_eq hash_clear_def
        intro: all_dead_live_first all_dead_miss)
qed

sublocale cache: lossy_cache "hash_ok n h" "hash_search n h" "hash_insert n h" "hash_delete n h"
  "hash_clear n zero"
  by unfold_locales
    (auto simp: hash_insert_props hash_delete_props hash_clear_props dest: hash_insert_props(3))

end

end
