(* ===== verification/SubnetAddr.thy ===== *)
theory SubnetAddr
  imports TincPrelude
begin

text \<open>
  Subnets, their masks and their order (\<open>subnet.h\<close>, \<open>subnet_parse.c\<close>).  The tagged union is the
  datatype \<open>net\<close>; the \<open>owner\<close> pointer is the owner's name, \<open>None\<close> for the ownerless broadcast
  subnets; the expiry time of learned MAC addresses is not part of the record, because it is the
  one field that changes while the subnet is in a tree.  Addresses are byte lists in network order.
\<close>

unbundle bit_operations_syntax

datatype net = Mac bytes | Ipv4 nat bytes | Ipv6 nat bytes

record subnet =
  owner :: "name option"
  weight :: int
  net :: net

section \<open>Mask handling\<close>

text \<open>\<open>0x100 - (1 << (8 - m))\<close>: the top \<open>m\<close> bits of a byte.\<close>

definition top_bits :: "nat \<Rightarrow> u8" where
  "top_bits m = word_of_int (256 - push_bit (8 - m) 1)"

fun maskcmp :: "bytes \<Rightarrow> bytes \<Rightarrow> nat \<Rightarrow> int" where
  "maskcmp (x # a) (y # b) m =
     (if 8 \<le> m then (if x \<noteq> y then uint x - uint y else maskcmp a b (m - 8))
      else if m \<noteq> 0 then uint (x AND top_bits m) - uint (y AND top_bits m)
      else 0)"
| "maskcmp a b m = 0"

text \<open>\<open>mask(va, masklen, len)\<close>, with \<open>len\<close> the length of the list: clear all but the first bits.\<close>

fun mask_addr :: "bytes \<Rightarrow> nat \<Rightarrow> bytes" where
  "mask_addr (x # a) m =
     (if 8 \<le> m then x # mask_addr a (m - 8)
      else if m \<noteq> 0 then (x AND top_bits m) # map (\<lambda>_. 0) a
      else map (\<lambda>_. 0) (x # a))"
| "mask_addr [] m = []"

text \<open>\<open>maskcpy(va, vb, masklen, len)\<close>: the masked copy of \<open>b\<close>, zero-filled to \<open>len\<close> bytes.\<close>

fun maskcpy :: "bytes \<Rightarrow> nat \<Rightarrow> nat \<Rightarrow> bytes" where
  "maskcpy (x # b) m (Suc len) =
     (if 8 \<le> m then x # maskcpy b (m - 8) len
      else if m \<noteq> 0 then (x AND top_bits m) # replicate len 0
      else replicate (Suc len) 0)"
| "maskcpy b m len = replicate len 0"

text \<open>\<open>maskcheck\<close>: nothing is set outside the prefix.\<close>

fun maskcheck :: "bytes \<Rightarrow> nat \<Rightarrow> bool" where
  "maskcheck (x # a) m =
     (if 8 \<le> m then maskcheck a (m - 8)
      else if m \<noteq> 0 then x AND drop_bit m 0xff = 0 \<and> list_all (\<lambda>y. y = 0) a
      else list_all (\<lambda>y. y = 0) (x # a))"
| "maskcheck [] m = True"

fun subnetcheck :: "net \<Rightarrow> bool" where
  "subnetcheck (Ipv4 p a) = maskcheck a p"
| "subnetcheck (Ipv6 p a) = maskcheck a p"
| "subnetcheck (Mac a) = True"

section \<open>Comparison\<close>

text \<open>The \<open>result || !a->owner || !b->owner\<close> tail that the three comparisons share.\<close>

definition compare_owner :: "subnet \<Rightarrow> subnet \<Rightarrow> int" where
  "compare_owner a b =
     (let result = int_cmp (weight a) (weight b) in
      case (owner a, owner b) of
        (Some x, Some y) \<Rightarrow> if result \<noteq> 0 then result else c_strcmp x y
      | _ \<Rightarrow> result)"

definition subnet_compare_mac :: "bytes \<Rightarrow> bytes \<Rightarrow> subnet \<Rightarrow> subnet \<Rightarrow> int" where
  "subnet_compare_mac x y a b =
     (let result = c_memcmp x y in if result \<noteq> 0 then result else compare_owner a b)"

definition subnet_compare_ip :: "nat \<Rightarrow> bytes \<Rightarrow> nat \<Rightarrow> bytes \<Rightarrow> subnet \<Rightarrow> subnet \<Rightarrow> int" where
  "subnet_compare_ip p x q y a b =
     (let result = int q - int p in
      if result \<noteq> 0 then result
      else let result = c_memcmp x y in
      if result \<noteq> 0 then result else compare_owner a b)"

fun net_type :: "net \<Rightarrow> int" where
  "net_type (Mac _) = 0"
| "net_type (Ipv4 _ _) = 1"
| "net_type (Ipv6 _ _) = 2"

definition subnet_compare :: "subnet \<Rightarrow> subnet \<Rightarrow> int" where
  "subnet_compare a b =
     (let result = net_type (net a) - net_type (net b) in
      if result \<noteq> 0 then result
      else case (net a, net b) of
             (Mac x, Mac y) \<Rightarrow> subnet_compare_mac x y a b
           | (Ipv4 p x, Ipv4 q y) \<Rightarrow> subnet_compare_ip p x q y a b
           | (Ipv6 p x, Ipv6 q y) \<Rightarrow> subnet_compare_ip p x q y a b
           | _ \<Rightarrow> 0)"

section \<open>Masks as bit prefixes\<close>

text \<open>The bits of an address, most significant first.\<close>

definition byte_bits :: "u8 \<Rightarrow> bool list" where
  "byte_bits x = map (bit x) [7, 6, 5, 4, 3, 2, 1, 0]"

definition addr_bits :: "bytes \<Rightarrow> bool list" where
  "addr_bits a = concat (map byte_bits a)"

lemma length_byte_bits [simp]: "length (byte_bits x) = 8"
  by (simp add: byte_bits_def)

lemma addr_bits_simps [simp]:
  "addr_bits [] = []" "addr_bits (x # a) = byte_bits x @ addr_bits a"
  by (simp_all add: addr_bits_def)

lemma length_addr_bits [simp]: "length (addr_bits a) = 8 * length a"
  by (induction a) auto

lemma byte_eqI: "(\<And>i. i < 8 \<Longrightarrow> bit x i = bit (y :: u8) i) \<Longrightarrow> x = y"
  by (rule bit_word_eqI) simp

lemma all_below_8: "(\<forall>i<8. P i) \<longleftrightarrow> P 0 \<and> P 1 \<and> P 2 \<and> P 3 \<and> P 4 \<and> P 5 \<and> P 6 \<and> P (7::nat)"
  by (simp add: numeral_eq_Suc All_less_Suc) blast

lemma byte_bits_inj [simp]: "byte_bits x = byte_bits y \<longleftrightarrow> x = y"
proof
  assume "byte_bits x = byte_bits y"
  then have "\<forall>i<8. bit x i = bit y i" unfolding all_below_8 byte_bits_def by simp
  then show "x = y" by (auto intro: byte_eqI)
qed simp

lemma bit_top_bits: "m \<le> 8 \<Longrightarrow> i < 8 \<Longrightarrow> bit (top_bits m) i \<longleftrightarrow> 8 - m \<le> i"
proof -
  assume m: "m \<le> 8" and i: "i < 8"
  have "top_bits m = NOT (mask (8 - m))"
    by (simp add: top_bits_def mask_eq_exp_minus_1 not_eq_complement push_bit_eq_mult)
  with i show ?thesis by (simp add: bit_simps not_less)
qed

lemma nth_byte_bits: "i < 8 \<Longrightarrow> byte_bits x ! i = bit x (7 - i)"
  by (simp add: byte_bits_def nth_Cons' numeral_eq_Suc less_Suc_eq) auto

lemma masked_byte_eq:
  assumes "m \<le> 8"
  shows "x AND top_bits m = y AND top_bits m \<longleftrightarrow> take m (byte_bits x) = take m (byte_bits y)"
    (is "?l = ?r")
proof
  assume l: ?l
  show ?r
  proof (rule nth_equalityI)
    fix i assume "i < length (take m (byte_bits x))"
    then have i: "i < m" "i < 8" "8 - m \<le> 7 - i" "7 - i < 8" by auto
    have "bit (x AND top_bits m) (7 - i) = bit (y AND top_bits m) (7 - i)" using l by simp
    with i assms bit_top_bits [OF assms, of "7 - i"]
    show "take m (byte_bits x) ! i = take m (byte_bits y) ! i"
      by (simp add: nth_byte_bits bit_and_iff)
  qed simp
next
  assume r: ?r
  show ?l
  proof (rule byte_eqI)
    fix i :: nat assume i: "i < 8"
    show "bit (x AND top_bits m) i = bit (y AND top_bits m) i"
    proof (cases "8 - m \<le> i")
      case True
      then have "take m (byte_bits x) ! (7 - i) = take m (byte_bits y) ! (7 - i)"
        using r by simp
      with True i assms show ?thesis by (simp add: nth_byte_bits bit_and_iff)
    next
      case False
      with i assms show ?thesis by (simp add: bit_and_iff bit_top_bits)
    qed
  qed
qed

text \<open>Two addresses agree under a mask exactly when their prefixes agree.\<close>

lemma maskcmp_prefix:
  "length a = length b \<Longrightarrow> m \<le> 8 * length a \<Longrightarrow>
   maskcmp a b m = 0 \<longleftrightarrow> take m (addr_bits a) = take m (addr_bits b)"
proof (induction a b m rule: maskcmp.induct)
  case (1 x a y b m)
  show ?case
  proof (cases "8 \<le> m")
    case True
    with 1 show ?thesis by (auto simp: word_uint_eq_iff [symmetric])
  next
    case False
    with masked_byte_eq [of m x y] show ?thesis by (auto simp: word_uint_eq_iff [symmetric])
  qed
qed auto

lemma addr_bits_inj: "length a = length b \<Longrightarrow> addr_bits a = addr_bits b \<longleftrightarrow> a = b"
  by (induction a b rule: list_induct2) auto

lemma maskcmp_full: "length a = length b \<Longrightarrow> maskcmp a b (8 * length a) = 0 \<longleftrightarrow> a = b"
  by (simp add: maskcmp_prefix addr_bits_inj)

lemma maskcmp_refl [simp]: "maskcmp a a m = 0"
  by (induction a arbitrary: m) auto

lemma replicate_tail: "m < 8 \<Longrightarrow> replicate (8 + 8 * n - m) b = replicate (8 - m) b @ replicate (8 * n) b"
  by (simp add: replicate_add [symmetric])

lemma length_mask_addr [simp]: "length (mask_addr a m) = length a"
  by (induction a m rule: mask_addr.induct) auto

lemma byte_bits_zero [simp]: "byte_bits 0 = replicate 8 False"
  by (simp add: byte_bits_def numeral_eq_Suc)

lemma addr_bits_zero [simp]: "addr_bits (map (\<lambda>_. 0) a) = replicate (8 * length a) False"
  by (induction a) (simp_all add: replicate_add [symmetric])

lemma byte_bits_masked:
  assumes "m \<le> 8"
  shows "byte_bits (x AND top_bits m) = take m (byte_bits x) @ replicate (8 - m) False"
proof (rule nth_equalityI)
  fix i assume "i < length (byte_bits (x AND top_bits m))"
  then have i: "i < 8" "7 - i < 8" by auto
  show "byte_bits (x AND top_bits m) ! i = (take m (byte_bits x) @ replicate (8 - m) False) ! i"
  proof (cases "i < m")
    case True
    then have "8 - m \<le> 7 - i" by simp
    with True i assms show ?thesis
      by (simp add: nth_byte_bits nth_append bit_and_iff bit_top_bits)
  next
    case False
    then have "\<not> 8 - m \<le> 7 - i" using i assms by simp
    with False i assms show ?thesis
      by (simp add: nth_byte_bits nth_append bit_and_iff bit_top_bits)
  qed
qed (use assms in simp)

text \<open>Masking keeps the prefix and clears the rest.\<close>

lemma mask_addr_bits:
  "m \<le> 8 * length a \<Longrightarrow>
   addr_bits (mask_addr a m) = take m (addr_bits a) @ replicate (8 * length a - m) False"
proof (induction a m rule: mask_addr.induct)
  case (1 x a m)
  consider "8 \<le> m" | "m < 8" "m \<noteq> 0" | "m = 0" by linarith
  then show ?case
  proof cases
    case 2
    then show ?thesis by (simp add: byte_bits_masked replicate_tail)
  qed (use 1 in \<open>auto simp: replicate_add [symmetric]\<close>)
qed simp

lemma maskcpy_mask: "length b = len \<Longrightarrow> maskcpy b m len = mask_addr b m"
  by (induction b m len rule: maskcpy.induct) (auto simp: map_replicate_const)

lemma drop_bit_255: "m \<le> 8 \<Longrightarrow> i < 8 \<Longrightarrow> bit (drop_bit m (0xff :: u8)) i \<longleftrightarrow> i < 8 - m"
proof -
  assume "m \<le> 8" "i < 8"
  moreover have "(0xff :: u8) = mask 8" by (simp add: mask_eq_exp_minus_1)
  then have "bit (drop_bit m (0xff :: u8)) i \<longleftrightarrow> bit (drop_bit m (mask 8 :: u8)) i" by (simp only:)
  ultimately show ?thesis by (simp only: bit_drop_bit_eq bit_mask_iff comp_def) auto
qed

lemma low_bits_clear:
  assumes "m \<le> 8"
  shows "x AND drop_bit m (0xff :: u8) = 0 \<longleftrightarrow> drop m (byte_bits x) = replicate (8 - m) False"
proof
  assume l: "x AND drop_bit m (0xff :: u8) = 0"
  show "drop m (byte_bits x) = replicate (8 - m) False"
  proof (rule nth_equalityI)
    fix i assume "i < length (drop m (byte_bits x))"
    then have i: "m + i < 8" "7 - (m + i) < 8 - m" "7 - (m + i) < 8" by auto
    have "\<not> bit (x AND drop_bit m 0xff) (7 - (m + i))" unfolding l by simp
    with i assms show "drop m (byte_bits x) ! i = replicate (8 - m) False ! i"
      by (simp add: nth_byte_bits bit_and_iff drop_bit_255)
  qed simp
next
  assume r: "drop m (byte_bits x) = replicate (8 - m) False"
  show "x AND drop_bit m (0xff :: u8) = 0"
  proof (rule byte_eqI)
    fix i :: nat assume i: "i < 8"
    show "bit (x AND drop_bit m 0xff) i = bit (0 :: u8) i"
    proof (cases "i < 8 - m")
      case True
      then have j: "7 - i - m < 8 - m" "m + (7 - i - m) = 7 - i" by auto
      have "drop m (byte_bits x) ! (7 - i - m) = False"
        unfolding r using j by simp
      with True i j show ?thesis by (simp add: nth_byte_bits bit_and_iff)
    next
      case False
      with i assms show ?thesis by (simp add: bit_and_iff drop_bit_255)
    qed
  qed
qed

lemma list_all_zero_bits:
  "list_all (\<lambda>y. y = 0) a \<longleftrightarrow> addr_bits a = replicate (8 * length a) False"
proof (induction a)
  case (Cons x a)
  have "byte_bits x @ addr_bits a = replicate (8 * length (x # a)) False \<longleftrightarrow>
      byte_bits x = replicate 8 False \<and> addr_bits a = replicate (8 * length a) False"
    using append_eq_append_conv [of "byte_bits x" "replicate 8 False" "addr_bits a"]
    by (simp add: replicate_add)
  then show ?case using Cons byte_bits_inj [of x 0] by simp
qed simp

lemma maskcheck_bits:
  "m \<le> 8 * length a \<Longrightarrow>
   maskcheck a m \<longleftrightarrow> drop m (addr_bits a) = replicate (8 * length a - m) False"
proof (induction a m rule: maskcheck.induct)
  case (1 x a m)
  consider "8 \<le> m" | "m < 8" "m \<noteq> 0" | "m = 0" by linarith
  then show ?case
  proof cases
    case 2
    with append_eq_append_conv [of "drop m (byte_bits x)" "replicate (8 - m) False" "addr_bits a"]
    show ?thesis
      by (simp add: low_bits_clear list_all_zero_bits replicate_tail)
  next
    case 3
    then show ?thesis
      using list_all_zero_bits [of "x # a"] by simp
  qed (use 1 in auto)
qed simp

section \<open>The order of the trees\<close>

text \<open>
  The subnets on which \<open>subnet_compare\<close> is a lawful comparison: addresses of the right size,
  weights whose differences fit an \<open>int\<close>, and no ownerless subnet with the network and weight of an
  owned one (the comparison calls those two equal).  \<open>B\<close> holds the networks and weights of the
  ownerless subnets.
\<close>

fun net_ok :: "net \<Rightarrow> bool" where
  "net_ok (Mac a) \<longleftrightarrow> length a = 6"
| "net_ok (Ipv4 p a) \<longleftrightarrow> length a = 4 \<and> p \<le> 32"
| "net_ok (Ipv6 p a) \<longleftrightarrow> length a = 16 \<and> p \<le> 128"

definition subnets_ok :: "(net \<times> int) set \<Rightarrow> subnet set" where
  "subnets_ok B = {s. net_ok (net s) \<and> weight s \<in> small_int \<and>
     (owner s = None \<longleftrightarrow> (net s, weight s) \<in> B)}"

definition net_compare :: "net \<Rightarrow> net \<Rightarrow> int" where
  "net_compare a b =
     then_cmp (net_type a - net_type b)
       (case (a, b) of
          (Mac x, Mac y) \<Rightarrow> c_memcmp x y
        | (Ipv4 p x, Ipv4 q y) \<Rightarrow> then_cmp (int q - int p) (c_memcmp x y)
        | (Ipv6 p x, Ipv6 q y) \<Rightarrow> then_cmp (int q - int p) (c_memcmp x y)
        | _ \<Rightarrow> 0)"

lemma subnet_compare_chain:
  "subnet_compare a b = then_cmp (net_compare (net a) (net b)) (compare_owner a b)"
  by (auto simp: subnet_compare_def net_compare_def subnet_compare_mac_def subnet_compare_ip_def
      then_cmp_def Let_def split: net.splits)

lemma net_compare_refl [simp]: "net_compare a a = 0"
  by (cases a) (simp_all add: net_compare_def then_cmp_def)

lemma net_compare_eq: "net_ok a \<Longrightarrow> net_ok b \<Longrightarrow> net_compare a b = 0 \<longleftrightarrow> a = b"
  by (cases a; cases b) (auto simp: net_compare_def then_cmp_def c_memcmp_eq_iff)

lemma net_compare_swap: "0 < net_compare a b \<longleftrightarrow> net_compare b a < 0"
  by (cases a; cases b) (auto simp: net_compare_def then_cmp_def c_memcmp_swap)

lemma prefix_compare_trans:
  assumes "length x = length y" "length y = length z"
    and "then_cmp (int q - int p) (c_memcmp x y) \<le> 0" "then_cmp (int r - int q) (c_memcmp y z) \<le> 0"
  shows "then_cmp (int r - int p) (c_memcmp x z) \<le> 0"
proof -
  consider "q < p \<or> r < q" "r < p" | "p = q" "q = r" "c_memcmp x y \<le> 0" "c_memcmp y z \<le> 0"
    using assms(3,4) unfolding then_cmp_def by (auto split: if_splits)
  then show ?thesis
    by cases (use c_memcmp_trans [OF assms(1,2)] in \<open>simp_all add: then_cmp_def\<close>)
qed

lemma net_compare_Mac [simp]: "net_compare (Mac x) (Mac y) = c_memcmp x y"
  by (simp add: net_compare_def then_cmp_def)

lemma net_compare_Ipv4 [simp]:
  "net_compare (Ipv4 p x) (Ipv4 q y) = then_cmp (int q - int p) (c_memcmp x y)"
  by (simp add: net_compare_def then_cmp_def)

lemma net_compare_Ipv6 [simp]:
  "net_compare (Ipv6 p x) (Ipv6 q y) = then_cmp (int q - int p) (c_memcmp x y)"
  by (simp add: net_compare_def then_cmp_def)

lemma net_compare_types:
  "net_type a \<noteq> net_type b \<Longrightarrow> net_compare a b = net_type a - net_type b"
  by (simp add: net_compare_def then_cmp_def)

lemma net_compare_trans:
  assumes "net_ok a" "net_ok b" "net_ok c" "net_compare a b \<le> 0" "net_compare b c \<le> 0"
  shows "net_compare a c \<le> 0"
proof (cases "net_type a = net_type b \<and> net_type b = net_type c")
  case True
  then consider (mac) x y z where "a = Mac x" "b = Mac y" "c = Mac z"
    | (v4) p x q y r z where "a = Ipv4 p x" "b = Ipv4 q y" "c = Ipv4 r z"
    | (v6) p x q y r z where "a = Ipv6 p x" "b = Ipv6 q y" "c = Ipv6 r z"
    by (cases a; cases b; cases c) auto
  then show ?thesis
  proof cases
    case mac
    with assms c_memcmp_trans [of x y z] show ?thesis by simp
  next
    case v4
    with assms prefix_compare_trans [of x y z q p r] show ?thesis by simp
  next
    case v6
    with assms prefix_compare_trans [of x y z q p r] show ?thesis by simp
  qed
next
  case False
  have "net_type a \<le> net_type b" "net_type b \<le> net_type c"
    using assms(4,5) net_compare_types [of a b] net_compare_types [of b c] by linarith+
  with False net_compare_types [of a c] show ?thesis by linarith
qed

interpretation net: comparator net_compare "{n. net_ok n}"
  by unfold_locales (auto simp: net_compare_swap intro: net_compare_trans)

lemma compare_owner_same_net:
  assumes "a \<in> subnets_ok B" "b \<in> subnets_ok B" "net a = net b"
  shows "compare_owner a b =
    then_cmp (weight a - weight b)
      (case (owner a, owner b) of (Some x, Some y) \<Rightarrow> c_strcmp x y | _ \<Rightarrow> 0)"
  using assms by (auto simp: compare_owner_def then_cmp_def subnets_ok_def Let_def int_cmp_small
      split: option.splits)

lemma compare_owner_swap:
  assumes "a \<in> subnets_ok B" "b \<in> subnets_ok B" "net a = net b"
  shows "0 < compare_owner a b \<longleftrightarrow> compare_owner b a < 0"
  using assms by (auto simp: compare_owner_same_net then_cmp_def c_strcmp_swap split: option.splits)

lemma compare_owner_trans:
  assumes "a \<in> subnets_ok B" "b \<in> subnets_ok B" "c \<in> subnets_ok B" "net a = net b" "net b = net c"
    "compare_owner a b \<le> 0" "compare_owner b c \<le> 0"
  shows "compare_owner a c \<le> 0"
  using assms
  by (auto simp: compare_owner_same_net then_cmp_def subnets_ok_def
      split: option.splits if_splits intro: c_strcmp_trans)

lemma comparator_subnet: "comparator subnet_compare (subnets_ok B)"
proof
  fix a b assume D: "a \<in> subnets_ok B" "b \<in> subnets_ok B"
  then have ok: "net_ok (net a)" "net_ok (net b)" by (simp_all add: subnets_ok_def)
  show "0 < subnet_compare a b \<longleftrightarrow> subnet_compare b a < 0"
    using net_compare_swap [of "net a" "net b"] net_compare_swap [of "net b" "net a"]
      net_compare_eq [OF ok] net_compare_eq [OF ok(2,1)] compare_owner_swap [OF D]
    by (auto simp: subnet_compare_chain then_cmp_def)
next
  fix a b c
  assume D: "a \<in> subnets_ok B" "b \<in> subnets_ok B" "c \<in> subnets_ok B"
    and le: "subnet_compare a b \<le> 0" "subnet_compare b c \<le> 0"
  then have ok: "net_ok (net a)" "net_ok (net b)" "net_ok (net c)"
    by (simp_all add: subnets_ok_def)
  from le have nle: "net_compare (net a) (net b) \<le> 0" "net_compare (net b) (net c) \<le> 0"
    by (auto simp: subnet_compare_chain then_cmp_def split: if_splits)
  consider "net a = net b" "net b = net c"
    | "net_compare (net a) (net b) < 0" | "net_compare (net b) (net c) < 0"
    using nle net_compare_eq ok by (meson order_le_less)
  then show "subnet_compare a c \<le> 0"
  proof cases
    case 1
    with le compare_owner_trans [OF D] show ?thesis
      by (simp add: subnet_compare_chain then_cmp_def)
  next
    case 2
    then have "net_compare (net a) (net c) < 0"
      using net.cmp_less_trans [of "net a" "net b" "net c"] ok nle by simp
    then show ?thesis by (simp add: subnet_compare_chain then_cmp_def)
  next
    case 3
    then have "net_compare (net a) (net c) < 0"
      using net.cmp_less_trans2 [of "net a" "net b" "net c"] ok nle by simp
    then show ?thesis by (simp add: subnet_compare_chain then_cmp_def)
  qed
qed

section \<open>Properties\<close>

text \<open>C20: The mask routines work on bit prefixes: \<open>maskcmp\<close> is zero exactly when the first \<open>masklen\<close>
  bits agree, \<open>mask\<close> and \<open>maskcpy\<close> keep those bits and clear all others, and \<open>maskcheck\<close>
  holds exactly when no bit outside the prefix is set.\<close>

theorem masks_are_bit_prefixes:
  assumes "length a = len" "length b = len" "m \<le> 8 * len"
  shows "(maskcmp a b m = 0 \<longleftrightarrow> take m (addr_bits a) = take m (addr_bits b)) \<and>
    addr_bits (mask_addr a m) = take m (addr_bits a) @ replicate (8 * len - m) False \<and>
    maskcpy b m len = mask_addr b m \<and>
    (maskcheck a m \<longleftrightarrow> drop m (addr_bits a) = replicate (8 * len - m) False)"
  using assms maskcmp_prefix [of a b m] mask_addr_bits [of m a] maskcpy_mask [of b len m]
    maskcheck_bits [of m a]
  by simp

theorem masks_are_bit_prefixes_witness:
  "maskcmp [10, 1, 0xff, 3] [10, 1, 0xf0, 7] 20 = 0 \<and>
   take 20 (addr_bits [10, 1, 0xff, 3]) = take 20 (addr_bits [10, 1, 0xf0, 7])"
proof -
  have c: "maskcmp [10, 1, 0xff, 3] [10, 1, 0xf0, 7] 20 = 0"
    by (simp add: top_bits_def)
  with masks_are_bit_prefixes [of "[10, 1, 0xff, 3]" 4 "[10, 1, 0xf0, 7]" 20] show ?thesis by simp
qed


end
