(* ===== verification/SubnetTable.thy ===== *)
theory SubnetTable
  imports SplayTree HashCache SubnetAddr
begin

text \<open>
  The subnet database of \<open>subnet.c\<close>: the global tree of subnets, one tree per node, and the three
  lookup caches in front of the global tree.  A subnet pointer in a cache is the subnet itself.

  The lookups are longest-prefix matches that prefer reachable owners; the caches must never show.
  That they do not is proved for every sequence of additions, deletions, lookups and graph runs
  (\<open>graph()\<close> flushes the caches before reachability changes), from the laws of \<open>lossy_cache\<close>.
  The MAC lookup is the exception: it can be restricted to one owner, but shares one cache.
\<close>

unbundle bit_operations_syntax

record subnet_db =
  subnet_tree :: "subnet splay_tree"
  node_subnets :: "name \<Rightarrow> subnet splay_tree"
  node_reachable :: "name \<Rightarrow> bool"
  ipv4_cache :: "(bytes, subnet) hash_t"
  ipv6_cache :: "(bytes, subnet) hash_t"
  mac_cache :: "(bytes, subnet) hash_t"
  hash_seed :: u32

text \<open>
  \<open>SUBNET_HASH_SIZE\<close>: the larger value is guarded by the macro \<open>_____LP64_____\<close>, which no compiler
  defines.
\<close>

definition SUBNET_HASH_SIZE :: nat where
  "SUBNET_HASH_SIZE = 0x1000"

section \<open>Hash functions\<close>

definition wrapping_add32 :: "u32 \<Rightarrow> u32 \<Rightarrow> u32" where
  "wrapping_add32 a b = a + b"

definition wrapping_mul32 :: "u32 \<Rightarrow> u32 \<Rightarrow> u32" where
  "wrapping_mul32 a b = a * b"

text \<open>Reading an address as 16- or 32-bit words on a little-endian machine.\<close>

fun le_words16 :: "bytes \<Rightarrow> u32 list" where
  "le_words16 (a # b # bs) = (ucast a OR push_bit 8 (ucast b)) # le_words16 bs"
| "le_words16 _ = []"

fun le_words32 :: "bytes \<Rightarrow> u32 list" where
  "le_words32 (a # b # c # d # bs) =
     (ucast a OR push_bit 8 (ucast b) OR push_bit 16 (ucast c) OR push_bit 24 (ucast d))
     # le_words32 bs"
| "le_words32 _ = []"

definition ntohs32 :: "u32 \<Rightarrow> u32" where
  "ntohs32 w = push_bit 8 (w AND 0xff) OR drop_bit 8 (w AND 0xff00)"

definition hash_function_ipv4_t :: "u32 \<Rightarrow> bytes \<Rightarrow> u32" where
  "hash_function_ipv4_t seed p =
     (case le_words16 p of
        [w0, w1] \<Rightarrow> wrapping_add32 seed (wrapping_mul32 w1 0x9e370001) XOR ntohs32 w0
      | _ \<Rightarrow> seed)"

definition hash_words :: "u32 \<Rightarrow> u32 list \<Rightarrow> u32" where
  "hash_words seed ws =
     fold (\<lambda>w hash. wrapping_mul32 (wrapping_add32 hash w) 0x9e370001) ws seed"

definition hash_function_ipv6_t :: "u32 \<Rightarrow> bytes \<Rightarrow> u32" where
  "hash_function_ipv6_t seed p = hash_words seed (le_words32 p)"

definition hash_function_mac_t :: "u32 \<Rightarrow> bytes \<Rightarrow> u32" where
  "hash_function_mac_t seed p = hash_words seed (le_words16 p)"

section \<open>Cache maintenance\<close>

definition zero4 :: bytes where "zero4 = replicate 4 0"
definition zero6 :: bytes where "zero6 = replicate 6 0"
definition zero16 :: bytes where "zero16 = replicate 16 0"

definition flush_ipv4 :: "subnet_db \<Rightarrow> subnet_db" where
  "flush_ipv4 db = db\<lparr>ipv4_cache := hash_clear SUBNET_HASH_SIZE zero4 (ipv4_cache db)\<rparr>"

definition flush_ipv6 :: "subnet_db \<Rightarrow> subnet_db" where
  "flush_ipv6 db = db\<lparr>ipv6_cache := hash_clear SUBNET_HASH_SIZE zero16 (ipv6_cache db)\<rparr>"

definition flush_mac :: "subnet_db \<Rightarrow> subnet_db" where
  "flush_mac db = db\<lparr>mac_cache := hash_clear SUBNET_HASH_SIZE zero6 (mac_cache db)\<rparr>"

definition subnet_cache_flush_tables :: "subnet_db \<Rightarrow> subnet_db" where
  "subnet_cache_flush_tables db = flush_mac (flush_ipv6 (flush_ipv4 db))"

fun is_ipv4 :: "net \<Rightarrow> bool" where
  "is_ipv4 (Ipv4 p a) = True" | "is_ipv4 _ = False"

fun is_ipv6 :: "net \<Rightarrow> bool" where
  "is_ipv6 (Ipv6 p a) = True" | "is_ipv6 _ = False"

definition subnet_cache_flush_table :: "net \<Rightarrow> subnet_db \<Rightarrow> subnet_db" where
  "subnet_cache_flush_table stype db =
     flush_mac
       ((if \<not> is_ipv4 stype then flush_ipv6 else id)
         ((if \<not> is_ipv6 stype then flush_ipv4 else id) db))"

abbreviation ipv4_hash :: "subnet_db \<Rightarrow> bytes \<Rightarrow> u32" where
  "ipv4_hash db \<equiv> hash_function_ipv4_t (hash_seed db)"

abbreviation ipv6_hash :: "subnet_db \<Rightarrow> bytes \<Rightarrow> u32" where
  "ipv6_hash db \<equiv> hash_function_ipv6_t (hash_seed db)"

abbreviation mac_hash :: "subnet_db \<Rightarrow> bytes \<Rightarrow> u32" where
  "mac_hash db \<equiv> hash_function_mac_t (hash_seed db)"

definition subnet_cache_flush :: "net \<Rightarrow> subnet_db \<Rightarrow> subnet_db" where
  "subnet_cache_flush s db =
     (case s of
        Ipv4 p a \<Rightarrow>
          if p = 32 then db\<lparr>ipv4_cache := hash_delete SUBNET_HASH_SIZE (ipv4_hash db) (ipv4_cache db) a\<rparr>
          else subnet_cache_flush_table s db
      | Ipv6 p a \<Rightarrow>
          if p = 128 then db\<lparr>ipv6_cache := hash_delete SUBNET_HASH_SIZE (ipv6_hash db) (ipv6_cache db) a\<rparr>
          else subnet_cache_flush_table s db
      | Mac a \<Rightarrow> db\<lparr>mac_cache := hash_delete SUBNET_HASH_SIZE (mac_hash db) (mac_cache db) a\<rparr>)"

section \<open>Adding and removing subnets\<close>

definition subnet_add :: "name option \<Rightarrow> subnet \<Rightarrow> subnet_db \<Rightarrow> subnet_db" where
  "subnet_add n s db =
     (let s = s\<lparr>owner := n\<rparr>;
          db = db\<lparr>subnet_tree := snd (splay_insert subnet_compare s (subnet_tree db))\<rparr>;
          db = (case n of None \<Rightarrow> db
                | Some m \<Rightarrow> db\<lparr>node_subnets := (node_subnets db)
                    (m := snd (splay_insert subnet_compare s (node_subnets db m)))\<rparr>)
      in subnet_cache_flush (net s) db)"

definition subnet_del :: "name option \<Rightarrow> subnet \<Rightarrow> subnet_db \<Rightarrow> subnet_db" where
  "subnet_del n s db =
     (let db = (case n of None \<Rightarrow> db
                | Some m \<Rightarrow> db\<lparr>node_subnets := (node_subnets db)
                    (m := splay_delete subnet_compare s (node_subnets db m))\<rparr>);
          db = db\<lparr>subnet_tree := splay_delete subnet_compare s (subnet_tree db)\<rparr>
      in subnet_cache_flush (net s) db)"

section \<open>Lookups\<close>

definition lookup_subnet :: "name \<Rightarrow> subnet \<Rightarrow> subnet_db \<Rightarrow> subnet option \<times> subnet_db" where
  "lookup_subnet n s db =
     (case splay_search subnet_compare s (node_subnets db n) of
        (r, t) \<Rightarrow> (r, db\<lparr>node_subnets := (node_subnets db)(n := t)\<rparr>))"

text \<open>\<open>!p->owner || p->owner->status.reachable\<close>\<close>

definition owner_up :: "(name \<Rightarrow> bool) \<Rightarrow> subnet \<Rightarrow> bool" where
  "owner_up reach p = (case owner p of None \<Rightarrow> True | Some n \<Rightarrow> reach n)"

text \<open>
  The loop of \<open>lookup_subnet_ipv4\<close> and \<open>lookup_subnet_ipv6\<close>, which differ in the type they select:
  \<open>sel\<close> gives the prefix length and address of a subnet of that type.
\<close>

fun prefix_of :: "net \<Rightarrow> nat" where
  "prefix_of (Ipv4 p a) = p" | "prefix_of (Ipv6 p a) = p" | "prefix_of (Mac a) = 0"

fun lookup_ip_loop ::
  "(net \<Rightarrow> (nat \<times> bytes) option) \<Rightarrow> (name \<Rightarrow> bool) \<Rightarrow> bytes \<Rightarrow> subnet option \<Rightarrow> subnet list
   \<Rightarrow> subnet option" where
  "lookup_ip_loop sel reach address r [] = r"
| "lookup_ip_loop sel reach address r (p # ps) =
     (case sel (net p) of
        None \<Rightarrow> lookup_ip_loop sel reach address r ps
      | Some (plen, paddr) \<Rightarrow>
          if maskcmp address paddr plen = 0 then
            if (case r of None \<Rightarrow> False | Some q \<Rightarrow> prefix_of (net q) > 0 \<and> plen = 0)
            then lookup_ip_loop sel reach address r ps
            else if owner_up reach p then Some p
            else lookup_ip_loop sel reach address (Some p) ps
          else lookup_ip_loop sel reach address r ps)"

fun as_ipv4 :: "net \<Rightarrow> (nat \<times> bytes) option" where
  "as_ipv4 (Ipv4 p a) = Some (p, a)" | "as_ipv4 _ = None"

fun as_ipv6 :: "net \<Rightarrow> (nat \<times> bytes) option" where
  "as_ipv6 (Ipv6 p a) = Some (p, a)" | "as_ipv6 _ = None"

definition search_ipv4 :: "subnet_db \<Rightarrow> bytes \<Rightarrow> subnet option" where
  "search_ipv4 db address =
     lookup_ip_loop as_ipv4 (node_reachable db) address None (thread (subnet_tree db))"

definition search_ipv6 :: "subnet_db \<Rightarrow> bytes \<Rightarrow> subnet option" where
  "search_ipv6 db address =
     lookup_ip_loop as_ipv6 (node_reachable db) address None (thread (subnet_tree db))"

definition lookup_subnet_ipv4 :: "bytes \<Rightarrow> subnet_db \<Rightarrow> subnet option \<times> subnet_db" where
  "lookup_subnet_ipv4 address db =
     (case hash_search SUBNET_HASH_SIZE (ipv4_hash db) (ipv4_cache db) address of
        Some r \<Rightarrow> (Some r, db)
      | None \<Rightarrow>
          (case search_ipv4 db address of
             None \<Rightarrow> (None, db)
           | Some r \<Rightarrow> (Some r, db\<lparr>ipv4_cache :=
               hash_insert SUBNET_HASH_SIZE (ipv4_hash db) (ipv4_cache db) address r\<rparr>)))"

definition lookup_subnet_ipv6 :: "bytes \<Rightarrow> subnet_db \<Rightarrow> subnet option \<times> subnet_db" where
  "lookup_subnet_ipv6 address db =
     (case hash_search SUBNET_HASH_SIZE (ipv6_hash db) (ipv6_cache db) address of
        Some r \<Rightarrow> (Some r, db)
      | None \<Rightarrow>
          (case search_ipv6 db address of
             None \<Rightarrow> (None, db)
           | Some r \<Rightarrow> (Some r, db\<lparr>ipv6_cache :=
               hash_insert SUBNET_HASH_SIZE (ipv6_hash db) (ipv6_cache db) address r\<rparr>)))"

fun lookup_mac_loop ::
  "(name \<Rightarrow> bool) \<Rightarrow> bytes \<Rightarrow> subnet option \<Rightarrow> subnet list \<Rightarrow> subnet option" where
  "lookup_mac_loop reach address r [] = r"
| "lookup_mac_loop reach address r (p # ps) =
     (case net p of
        Mac x \<Rightarrow>
          if c_memcmp address x = 0 then
            if owner_up reach p then Some p else lookup_mac_loop reach address (Some p) ps
          else lookup_mac_loop reach address r ps
      | _ \<Rightarrow> lookup_mac_loop reach address r ps)"

definition search_mac :: "subnet_db \<Rightarrow> name option \<Rightarrow> bytes \<Rightarrow> subnet option" where
  "search_mac db n address =
     lookup_mac_loop (node_reachable db) address None
       (thread (case n of None \<Rightarrow> subnet_tree db | Some m \<Rightarrow> node_subnets db m))"

definition lookup_subnet_mac :: "name option \<Rightarrow> bytes \<Rightarrow> subnet_db \<Rightarrow> subnet option \<times> subnet_db" where
  "lookup_subnet_mac n address db =
     (case hash_search SUBNET_HASH_SIZE (mac_hash db) (mac_cache db) address of
        Some r \<Rightarrow> (Some r, db)
      | None \<Rightarrow>
          (case search_mac db n address of
             None \<Rightarrow> (None, db)
           | Some r \<Rightarrow> (Some r, db\<lparr>mac_cache :=
               hash_insert SUBNET_HASH_SIZE (mac_hash db) (mac_cache db) address r\<rparr>)))"

section \<open>The caches\<close>

interpretation ipv4c: hash_table SUBNET_HASH_SIZE "hash_function_ipv4_t seed" zero4 for seed
  by unfold_locales (simp_all add: SUBNET_HASH_SIZE_def)

interpretation ipv6c: hash_table SUBNET_HASH_SIZE "hash_function_ipv6_t seed" zero16 for seed
  by unfold_locales (simp_all add: SUBNET_HASH_SIZE_def)

interpretation macc: hash_table SUBNET_HASH_SIZE "hash_function_mac_t seed" zero6 for seed
  by unfold_locales (simp_all add: SUBNET_HASH_SIZE_def)

text \<open>The uncached lookups, on addresses of the right size.\<close>

definition answer4 :: "subnet_db \<Rightarrow> bytes \<Rightarrow> subnet option" where
  "answer4 db a = (if length a = 4 then search_ipv4 db a else None)"

definition answer6 :: "subnet_db \<Rightarrow> bytes \<Rightarrow> subnet option" where
  "answer6 db a = (if length a = 16 then search_ipv6 db a else None)"

definition answer_mac :: "subnet_db \<Rightarrow> bytes \<Rightarrow> subnet option" where
  "answer_mac db a = (if length a = 6 then search_mac db None a else None)"

definition own_subnets :: "name \<Rightarrow> subnet set" where
  "own_subnets n = {s. net_ok (net s) \<and> weight s \<in> small_int \<and> (owner s = None \<or> owner s = Some n)}"

text \<open>
  \<open>init_subnets\<close> and \<open>exit_subnets\<close>; \<open>graph()\<close> ends with a flush of all caches, after the
  reachability of the nodes has changed.
\<close>

definition init_subnets :: "u32 \<Rightarrow> subnet_db \<Rightarrow> subnet_db" where
  "init_subnets seed db = subnet_cache_flush_tables (db\<lparr>hash_seed := seed\<rparr>)"

definition exit_subnets :: "subnet_db \<Rightarrow> subnet_db" where
  "exit_subnets db = subnet_cache_flush_tables (db\<lparr>subnet_tree := splay_empty_tree (subnet_tree db)\<rparr>)"

definition reachability_changed :: "(name \<Rightarrow> bool) \<Rightarrow> subnet_db \<Rightarrow> subnet_db" where
  "reachability_changed reach db = (subnet_cache_flush_tables db)\<lparr>node_reachable := reach\<rparr>"

section \<open>Longest prefix match\<close>

fun ip_match :: "(net \<Rightarrow> (nat \<times> bytes) option) \<Rightarrow> bytes \<Rightarrow> subnet \<Rightarrow> bool" where
  "ip_match sel a p = (case sel (net p) of None \<Rightarrow> False | Some (plen, pa) \<Rightarrow> maskcmp a pa plen = 0)"

fun mac_match :: "bytes \<Rightarrow> subnet \<Rightarrow> bool" where
  "mac_match a p = (case net p of Mac x \<Rightarrow> c_memcmp a x = 0 | _ \<Rightarrow> False)"

text \<open>The loops only see the subnets that match.\<close>

lemma lookup_ip_filter:
  "lookup_ip_loop sel reach a r ps = lookup_ip_loop sel reach a r (filter (ip_match sel a) ps)"
  by (induction sel reach a r ps rule: lookup_ip_loop.induct) (auto split: option.splits)

lemma lookup_mac_filter:
  "lookup_mac_loop reach a r ps = lookup_mac_loop reach a r (filter (mac_match a) ps)"
  by (induction reach a r ps rule: lookup_mac_loop.induct) (auto split: net.splits)

lemma lookup_ip_cong:
  "filter (ip_match sel a) ps = filter (ip_match sel a) qs \<Longrightarrow>
   lookup_ip_loop sel reach a r ps = lookup_ip_loop sel reach a r qs"
  using lookup_ip_filter [of sel reach a r ps] lookup_ip_filter [of sel reach a r qs] by simp

lemma lookup_mac_cong:
  "filter (mac_match a) ps = filter (mac_match a) qs \<Longrightarrow>
   lookup_mac_loop reach a r ps = lookup_mac_loop reach a r qs"
  using lookup_mac_filter [of reach a r ps] lookup_mac_filter [of reach a r qs] by simp

lemma same_net_match:
  "net p = net q \<Longrightarrow> ip_match sel a p = ip_match sel a q \<and> mac_match a p = mac_match a q"
  by simp

lemma equal_same_net:
  "p \<in> subnets_ok B \<Longrightarrow> q \<in> subnets_ok B \<Longrightarrow> subnet_compare p q = 0 \<Longrightarrow> net p = net q"
  using net_compare_eq [of "net p" "net q"]
  by (auto simp: subnet_compare_chain then_cmp_def subnets_ok_def split: if_splits)

text \<open>A host route matches its own address only.\<close>

lemma host_match4: "net p = Ipv4 32 x \<Longrightarrow> length x = 4 \<Longrightarrow> length a = 4 \<Longrightarrow>
    ip_match as_ipv4 a p \<longleftrightarrow> a = x"
  using maskcmp_full [of a x] by simp

lemma host_match6: "net p = Ipv6 128 x \<Longrightarrow> length x = 16 \<Longrightarrow> length a = 16 \<Longrightarrow>
    ip_match as_ipv6 a p \<longleftrightarrow> a = x"
  using maskcmp_full [of a x] by simp

section \<open>The caches never show\<close>

lemma comparator_own: "comparator subnet_compare (own_subnets n)"
proof -
  let ?k = "\<lambda>a b. then_cmp (net_compare (net a) (net b)) (int_cmp (weight a) (weight b))"
  have "comparator (\<lambda>a b. net_compare (net a) (net b)) (own_subnets n)"
    by (rule comparator_inj [OF net.comparator_axioms]) (simp add: own_subnets_def)
  moreover have "comparator (\<lambda>a b. int_cmp (weight a) (weight b)) (own_subnets n)"
    by (rule comparator_inj [OF int_sub.comparator_axioms]) (simp add: own_subnets_def)
  ultimately have k: "comparator ?k (own_subnets n)" by (rule comparator_then)
  have eq: "subnet_compare a b = ?k a b" if "a \<in> own_subnets n" "b \<in> own_subnets n" for a b
    using that by (auto simp: subnet_compare_chain compare_owner_def own_subnets_def Let_def)
  show ?thesis
    by (unfold_locales; simp add: eq comparator.cmp_swap [OF k])
      (rule comparator.cmp_trans [OF k])
qed

interpretation own: comparator subnet_compare "own_subnets n" for n
  by (rule comparator_own)

interpretation subnet: comparator subnet_compare "subnets_ok B" for B
  by (rule comparator_subnet)

definition caches_ok ::
  "(bytes \<Rightarrow> subnet option) \<Rightarrow> (bytes \<Rightarrow> subnet option) \<Rightarrow> (bytes \<Rightarrow> subnet option) \<Rightarrow> subnet_db \<Rightarrow> bool"
where
  "caches_ok f4 f6 fm db \<longleftrightarrow>
     ipv4c.cache.coherent (hash_seed db) f4 (ipv4_cache db) \<and>
     ipv6c.cache.coherent (hash_seed db) f6 (ipv6_cache db) \<and>
     macc.cache.coherent (hash_seed db) fm (mac_cache db)"

text \<open>
  \<open>subnet_cache_flush\<close> forgets enough: it suffices that the answers for the addresses the subnet
  does not match are unchanged.
\<close>

lemma subnet_cache_flush_ok:
  assumes ok: "net_ok (net s)" "caches_ok f4 f6 fm db"
    and g4: "\<And>a. \<not> (length a = 4 \<and> ip_match as_ipv4 a s) \<Longrightarrow> g4 a = f4 a"
    and g6: "\<And>a. \<not> (length a = 16 \<and> ip_match as_ipv6 a s) \<Longrightarrow> g6 a = f6 a"
    and gm: "\<And>a. \<not> (length a = 6 \<and> mac_match a s) \<Longrightarrow> gm a = fm a"
  shows "caches_ok g4 g6 gm (subnet_cache_flush (net s) db)"
proof -
  have c: "ipv4c.cache.coherent (hash_seed db) f4 (ipv4_cache db)"
    "ipv6c.cache.coherent (hash_seed db) f6 (ipv6_cache db)"
    "macc.cache.coherent (hash_seed db) fm (mac_cache db)"
    using ok(2) by (simp_all add: caches_ok_def)
  note flush = subnet_cache_flush_def subnet_cache_flush_table_def flush_ipv4_def flush_ipv6_def
    flush_mac_def caches_ok_def ipv4c.cache.coherent_clear ipv6c.cache.coherent_clear
    macc.cache.coherent_clear
  show ?thesis
  proof (cases "net s")
    case (Mac x)
    have "g4 = f4 \<and> g6 = f6" using Mac by (auto intro!: ext g4 g6)
    moreover have "macc.cache.coherent (hash_seed db) gm
        (hash_delete SUBNET_HASH_SIZE (mac_hash db) (mac_cache db) x)"
      by (rule macc.cache.coherent_del [OF c(3)], rule gm)
        (use Mac ok(1) c_memcmp_eq_iff in \<open>auto simp: c_memcmp_eq_iff\<close>)
    ultimately show ?thesis using Mac c by (simp add: flush)
  next
    case (Ipv4 p x)
    have same: "g6 = f6 \<and> gm = fm" using Ipv4 by (auto intro!: ext g6 gm)
    have "ipv4c.cache.coherent (hash_seed db) g4
        (hash_delete SUBNET_HASH_SIZE (ipv4_hash db) (ipv4_cache db) x)" if "p = 32"
      by (rule ipv4c.cache.coherent_del [OF c(1)], rule g4)
        (use Ipv4 ok(1) that host_match4 [of s x] in auto)
    with same show ?thesis using Ipv4 c by (simp add: flush)
  next
    case (Ipv6 p x)
    have same: "g4 = f4 \<and> gm = fm" using Ipv6 by (auto intro!: ext g4 gm)
    have "ipv6c.cache.coherent (hash_seed db) g6
        (hash_delete SUBNET_HASH_SIZE (ipv6_hash db) (ipv6_cache db) x)" if "p = 128"
      by (rule ipv6c.cache.coherent_del [OF c(2)], rule g6)
        (use Ipv6 ok(1) that host_match6 [of s x] in auto)
    with same show ?thesis using Ipv6 c by (simp add: flush)
  qed
qed

abbreviation owned_by :: "name \<Rightarrow> subnet \<Rightarrow> bool" where
  "owned_by n p \<equiv> owner p = Some n"

text \<open>
  The invariant of the database: the trees are well formed, the tree of each node is the part of
  the global tree that the node owns, and the caches hold what the loops would answer.
\<close>

definition db_ok :: "(net \<times> int) set \<Rightarrow> subnet_db \<Rightarrow> bool" where
  "db_ok B db \<longleftrightarrow>
     splay_wf subnet_compare (subnets_ok B) (subnet_tree db) \<and>
     (\<forall>n. splay_wf subnet_compare (own_subnets n) (node_subnets db n) \<and>
       thread (node_subnets db n) = filter (owned_by n) (thread (subnet_tree db))) \<and>
     caches_ok (answer4 db) (answer6 db) (answer_mac db) db"

lemma flush_same [simp]:
  "subnet_tree (subnet_cache_flush s db) = subnet_tree db"
  "node_subnets (subnet_cache_flush s db) = node_subnets db"
  "node_reachable (subnet_cache_flush s db) = node_reachable db"
  by (auto simp: subnet_cache_flush_def subnet_cache_flush_table_def flush_ipv4_def flush_ipv6_def
      flush_mac_def split: net.splits)

lemma answers_depend:
  assumes "thread (subnet_tree db) = thread (subnet_tree db')" "node_reachable db = node_reachable db'"
  shows "answer4 db = answer4 db'" "answer6 db = answer6 db'" "answer_mac db = answer_mac db'"
  using assms by (auto simp: answer4_def answer6_def answer_mac_def search_ipv4_def search_ipv6_def
      search_mac_def)

lemma flush_answers [simp]:
  "answer4 (subnet_cache_flush s db) = answer4 db"
  "answer6 (subnet_cache_flush s db) = answer6 db"
  "answer_mac (subnet_cache_flush s db) = answer_mac db"
  by (rule answers_depend; simp)+

text \<open>Changing the global tree by subnets with the network of \<open>s\<close> only, then flushing for \<open>s\<close>.\<close>

lemma change_and_flush:
  fixes t :: "subnet splay_tree" and ns :: "name \<Rightarrow> subnet splay_tree"
  assumes "caches_ok (answer4 db) (answer6 db) (answer_mac db) db" "net_ok (net s)"
    and "\<And>sel a. \<not> ip_match sel a s \<Longrightarrow>
      filter (ip_match sel a) (thread t) = filter (ip_match sel a) (thread (subnet_tree db))"
    and "\<And>a. \<not> mac_match a s \<Longrightarrow>
      filter (mac_match a) (thread t) = filter (mac_match a) (thread (subnet_tree db))"
  defines "db' \<equiv> db\<lparr>subnet_tree := t, node_subnets := ns\<rparr>"
  shows "caches_ok (answer4 db') (answer6 db') (answer_mac db') (subnet_cache_flush (net s) db')"
proof (rule subnet_cache_flush_ok [OF assms(2)])
  show "caches_ok (answer4 db) (answer6 db) (answer_mac db) db'"
    using assms(1) by (simp add: caches_ok_def db'_def)
  show "answer4 db' a = answer4 db a" if "\<not> (length a = 4 \<and> ip_match as_ipv4 a s)" for a
    using that lookup_ip_cong [OF assms(3)] by (simp add: answer4_def search_ipv4_def db'_def)
  show "answer6 db' a = answer6 db a" if "\<not> (length a = 16 \<and> ip_match as_ipv6 a s)" for a
    using that lookup_ip_cong [OF assms(3)] by (simp add: answer6_def search_ipv6_def db'_def)
  show "answer_mac db' a = answer_mac db a" if "\<not> (length a = 6 \<and> mac_match a s)" for a
    using that lookup_mac_cong [OF assms(4)] by (simp add: answer_mac_def search_mac_def db'_def)
qed

section \<open>Every operation keeps the invariant\<close>

text \<open>The abstract database: the ordered list of all subnets, and who is reachable.\<close>

type_synonym subnet_spec = "subnet list \<times> (name \<Rightarrow> bool)"

datatype db_op =
    Db_add "name option" subnet
  | Db_del "name option" subnet
  | Db_lookup name subnet
  | Db_ipv4 bytes
  | Db_ipv6 bytes
  | Db_mac bytes
  | Db_graph "name \<Rightarrow> bool"

fun db_exec :: "db_op \<Rightarrow> subnet_db \<Rightarrow> subnet option \<times> subnet_db" where
  "db_exec (Db_add n s) db = (None, subnet_add n s db)"
| "db_exec (Db_del n s) db = (None, subnet_del n s db)"
| "db_exec (Db_lookup n s) db = lookup_subnet n s db"
| "db_exec (Db_ipv4 a) db = lookup_subnet_ipv4 a db"
| "db_exec (Db_ipv6 a) db = lookup_subnet_ipv6 a db"
| "db_exec (Db_mac a) db = lookup_subnet_mac None a db"
| "db_exec (Db_graph r) db = (None, reachability_changed r db)"

fun spec_exec :: "db_op \<Rightarrow> subnet_spec \<Rightarrow> subnet option \<times> subnet_spec" where
  "spec_exec (Db_add n s) (xs, r) = (None, ol_insert subnet_compare (s\<lparr>owner := n\<rparr>) xs, r)"
| "spec_exec (Db_del n s) (xs, r) = (None, ol_delete subnet_compare s xs, r)"
| "spec_exec (Db_lookup n s) (xs, r) = (ol_search subnet_compare s (filter (owned_by n) xs), xs, r)"
| "spec_exec (Db_ipv4 a) (xs, r) = (lookup_ip_loop as_ipv4 r a None xs, xs, r)"
| "spec_exec (Db_ipv6 a) (xs, r) = (lookup_ip_loop as_ipv6 r a None xs, xs, r)"
| "spec_exec (Db_mac a) (xs, r) = (lookup_mac_loop r a None xs, xs, r)"
| "spec_exec (Db_graph r') (xs, r) = (None, xs, r')"

text \<open>
  What the callers guarantee: addresses of the right size, a subnet is deleted from its owner, and
  all subnets stay within \<open>subnets_ok\<close>.
\<close>

fun db_op_ok :: "(net \<times> int) set \<Rightarrow> db_op \<Rightarrow> bool" where
  "db_op_ok B (Db_add n s) \<longleftrightarrow> s\<lparr>owner := n\<rparr> \<in> subnets_ok B"
| "db_op_ok B (Db_del n s) \<longleftrightarrow> owner s = n \<and> s \<in> subnets_ok B"
| "db_op_ok B (Db_lookup n s) \<longleftrightarrow> s \<in> own_subnets n"
| "db_op_ok B (Db_ipv4 a) \<longleftrightarrow> length a = 4"
| "db_op_ok B (Db_ipv6 a) \<longleftrightarrow> length a = 16"
| "db_op_ok B (Db_mac a) \<longleftrightarrow> length a = 6"
| "db_op_ok B (Db_graph r) \<longleftrightarrow> True"

definition db_abs :: "subnet_db \<Rightarrow> subnet_spec" where
  "db_abs db = (thread (subnet_tree db), node_reachable db)"

lemma subnets_own: "s \<in> subnets_ok B \<Longrightarrow> owner s = Some n \<Longrightarrow> s \<in> own_subnets n"
  by (simp add: subnets_ok_def own_subnets_def)

lemma equal_same_owner:
  assumes "p \<in> subnets_ok B" "q \<in> subnets_ok B" "subnet_compare p q = 0"
  shows "owner p = owner q"
proof -
  note n = equal_same_net [OF assms]
  have w: "compare_owner p q = 0"
    using assms(3) by (simp add: subnet_compare_chain then_cmp_def split: if_splits)
  with compare_owner_same_net [OF assms(1,2) n] have "weight p = weight q"
    by (simp add: then_cmp_def split: if_splits)
  with w n assms(1,2) compare_owner_same_net [OF assms(1,2) n] show ?thesis
    by (cases "owner p"; cases "owner q") (auto simp: subnets_ok_def then_cmp_def)
qed

lemma db_wf:
  assumes "db_ok B db"
  shows "splay_wf subnet_compare (subnets_ok B) (subnet_tree db)"
    and "splay_wf subnet_compare (own_subnets n) (node_subnets db n)"
    and "thread (node_subnets db n) = filter (owned_by n) (thread (subnet_tree db))"
    and "set (thread (subnet_tree db)) \<subseteq> subnets_ok B"
    and "ol_sorted subnet_compare (thread (subnet_tree db))"
  using assms subnet.splay.contents_sorted subnet.splay.contents_subset
  by (auto simp: db_ok_def)

lemma subnet_add_ok:
  assumes db: "db_ok B db" and s: "s\<lparr>owner := n\<rparr> \<in> subnets_ok B"
  shows "db_ok B (subnet_add n s db) \<and>
    db_abs (subnet_add n s db) = (ol_insert subnet_compare (s\<lparr>owner := n\<rparr>) (fst (db_abs db)),
      node_reachable db)"
proof -
  let ?s = "s\<lparr>owner := n\<rparr>"
  let ?t = "snd (splay_insert subnet_compare ?s (subnet_tree db))"
  define ns where "ns = (case n of None \<Rightarrow> node_subnets db
    | Some m \<Rightarrow> (node_subnets db)(m := snd (splay_insert subnet_compare ?s (node_subnets db m))))"
  have eq: "subnet_add n s db = subnet_cache_flush (net ?s) (db\<lparr>subnet_tree := ?t, node_subnets := ns\<rparr>)"
    by (cases n) (simp_all add: subnet_add_def ns_def Let_def)
  have t: "thread ?t = ol_insert subnet_compare ?s (thread (subnet_tree db))"
    "splay_wf subnet_compare (subnets_ok B) ?t"
    using subnet.splay.insert_contents [OF db_wf(1) [OF db] s]
      subnet.splay.insert_valid [OF db_wf(1) [OF db] s] by simp_all
  have caches: "caches_ok (answer4 (subnet_add n s db)) (answer6 (subnet_add n s db))
      (answer_mac (subnet_add n s db)) (subnet_add n s db)"
    unfolding eq flush_answers
    by (rule change_and_flush)
      (use db s in \<open>simp_all add: db_ok_def t filter_ol_insert_skip subnets_ok_def\<close>)
  have keep: "filter (owned_by m) (thread ?t) = (if n = Some m
      then ol_insert subnet_compare ?s (filter (owned_by m) (thread (subnet_tree db)))
      else filter (owned_by m) (thread (subnet_tree db)))" for m
    using subnet.filter_ol_insert [of "thread (subnet_tree db)" B ?s "owned_by m"]
      db_wf [OF db] s equal_same_owner [OF s]
    by (auto simp: t filter_ol_insert_skip subset_iff)
  have "splay_wf subnet_compare (own_subnets m) (ns m) \<and>
      thread (ns m) = filter (owned_by m) (thread ?t)" for m
    using db_wf(2,3) [OF db, of m] subnets_own [OF s, of m]
      own.splay.insert_contents [of m "node_subnets db m" ?s]
      own.splay.insert_valid [of m "node_subnets db m" ?s]
    unfolding keep by (cases n) (auto simp: ns_def)
  with caches t show ?thesis
    by (simp add: db_ok_def db_abs_def eq)
qed

lemma subnet_del_ok:
  assumes db: "db_ok B db" and s: "s \<in> subnets_ok B" and n: "owner s = n"
  shows "db_ok B (subnet_del n s db) \<and>
    db_abs (subnet_del n s db) = (ol_delete subnet_compare s (fst (db_abs db)), node_reachable db)"
proof -
  let ?t = "splay_delete subnet_compare s (subnet_tree db)"
  define ns where "ns = (case n of None \<Rightarrow> node_subnets db
    | Some m \<Rightarrow> (node_subnets db)(m := splay_delete subnet_compare s (node_subnets db m)))"
  have eq: "subnet_del n s db = subnet_cache_flush (net s) (db\<lparr>subnet_tree := ?t, node_subnets := ns\<rparr>)"
    by (cases n; cases db) (simp_all add: subnet_del_def ns_def Let_def)
  have t: "thread ?t = ol_delete subnet_compare s (thread (subnet_tree db))"
    "splay_wf subnet_compare (subnets_ok B) ?t"
    using subnet.splay.delete_contents [OF db_wf(1) [OF db] s]
      subnet.splay.delete_valid [OF db_wf(1) [OF db] s] by simp_all
  have same: "owner p = owner s \<and> net p = net s"
    if "p \<in> set (thread (subnet_tree db))" "subnet_compare s p = 0" for p
    using that db_wf(4) [OF db] equal_same_owner [OF s, of p] equal_same_net [OF s, of p] by auto
  have caches: "caches_ok (answer4 (subnet_del n s db)) (answer6 (subnet_del n s db))
      (answer_mac (subnet_del n s db)) (subnet_del n s db)"
    unfolding eq flush_answers
  proof (rule change_and_flush)
    show "filter (ip_match sel a) (thread ?t) = filter (ip_match sel a) (thread (subnet_tree db))"
      if "\<not> ip_match sel a s" for sel a
      unfolding t by (rule filter_ol_delete_skip) (use that same in auto)
    show "filter (mac_match a) (thread ?t) = filter (mac_match a) (thread (subnet_tree db))"
      if "\<not> mac_match a s" for a
      unfolding t by (rule filter_ol_delete_skip) (use that same in auto)
  qed (use db s in \<open>simp_all add: db_ok_def subnets_ok_def\<close>)
  have keep: "filter (owned_by m) (thread ?t) = (if n = Some m
      then ol_delete subnet_compare s (filter (owned_by m) (thread (subnet_tree db)))
      else filter (owned_by m) (thread (subnet_tree db)))" for m
    using same n unfolding t
    by (cases "n = Some m") (auto intro: filter_ol_delete filter_ol_delete_skip)
  have "splay_wf subnet_compare (own_subnets m) (ns m) \<and>
      thread (ns m) = filter (owned_by m) (thread ?t)" for m
    using db_wf(2,3) [OF db, of m] subnets_own [OF s, of m] n
      own.splay.delete_contents [of m "node_subnets db m" s]
      own.splay.delete_valid [of m "node_subnets db m" s]
    unfolding keep by (cases n) (auto simp: ns_def)
  with caches t show ?thesis
    by (simp add: db_ok_def db_abs_def eq)
qed

lemma lookup_subnet_ok:
  assumes db: "db_ok B db" and s: "s \<in> own_subnets n"
  shows "db_ok B (snd (lookup_subnet n s db)) \<and> db_abs (snd (lookup_subnet n s db)) = db_abs db \<and>
    fst (lookup_subnet n s db) = ol_search subnet_compare s (filter (owned_by n) (fst (db_abs db)))"
proof -
  obtain r t where rt: "splay_search subnet_compare s (node_subnets db n) = (r, t)"
    by (cases "splay_search subnet_compare s (node_subnets db n)")
  with own.splay.search_result [OF db_wf(2) [OF db] s] own.splay.search_contents [OF db_wf(2) [OF db] s]
    own.splay.search_valid [OF db_wf(2) [OF db] s] db_wf(3) [OF db, of n]
  have "splay_wf subnet_compare (own_subnets n) t" "thread t = thread (node_subnets db n)"
    "r = ol_search subnet_compare s (filter (owned_by n) (thread (subnet_tree db)))"
    by simp_all
  moreover have "answer4 (db\<lparr>node_subnets := ns\<rparr>) = answer4 db"
    "answer6 (db\<lparr>node_subnets := ns\<rparr>) = answer6 db"
    "answer_mac (db\<lparr>node_subnets := ns\<rparr>) = answer_mac db" for ns
    by (rule answers_depend; simp)+
  ultimately show ?thesis
    using db by (simp add: lookup_subnet_def rt db_ok_def db_abs_def caches_ok_def)
qed

text \<open>A lookup is \<open>cached\<close> of \<open>lossy_cache\<close>, so it answers what the loop would.\<close>

lemma lookup_ipv4_ok:
  assumes db: "db_ok B db" and a: "length a = 4"
  shows "db_ok B (snd (lookup_subnet_ipv4 a db)) \<and> db_abs (snd (lookup_subnet_ipv4 a db)) = db_abs db \<and>
    fst (lookup_subnet_ipv4 a db) = search_ipv4 db a"
proof -
  let ?c = "ipv4c.cache.cached (hash_seed db) (answer4 db) (ipv4_cache db) a"
  have c: "ipv4c.cache.coherent (hash_seed db) (answer4 db) (ipv4_cache db)"
    using db by (simp add: db_ok_def caches_ok_def)
  have eq: "lookup_subnet_ipv4 a db = (fst ?c, db\<lparr>ipv4_cache := snd ?c\<rparr>)"
    using a by (auto simp: lookup_subnet_ipv4_def ipv4c.cache.cached_def answer4_def split: option.splits)
  have "answer4 (db\<lparr>ipv4_cache := x\<rparr>) = answer4 db" "answer6 (db\<lparr>ipv4_cache := x\<rparr>) = answer6 db"
    "answer_mac (db\<lparr>ipv4_cache := x\<rparr>) = answer_mac db" for x
    by (rule answers_depend; simp)+
  then show ?thesis
    using db a ipv4c.cache.cached_result [OF c] ipv4c.cache.cached_coherent [OF c]
    by (simp add: eq db_ok_def db_abs_def caches_ok_def answer4_def)
qed

lemma lookup_ipv6_ok:
  assumes db: "db_ok B db" and a: "length a = 16"
  shows "db_ok B (snd (lookup_subnet_ipv6 a db)) \<and> db_abs (snd (lookup_subnet_ipv6 a db)) = db_abs db \<and>
    fst (lookup_subnet_ipv6 a db) = search_ipv6 db a"
proof -
  let ?c = "ipv6c.cache.cached (hash_seed db) (answer6 db) (ipv6_cache db) a"
  have c: "ipv6c.cache.coherent (hash_seed db) (answer6 db) (ipv6_cache db)"
    using db by (simp add: db_ok_def caches_ok_def)
  have eq: "lookup_subnet_ipv6 a db = (fst ?c, db\<lparr>ipv6_cache := snd ?c\<rparr>)"
    using a by (auto simp: lookup_subnet_ipv6_def ipv6c.cache.cached_def answer6_def split: option.splits)
  have "answer4 (db\<lparr>ipv6_cache := x\<rparr>) = answer4 db" "answer6 (db\<lparr>ipv6_cache := x\<rparr>) = answer6 db"
    "answer_mac (db\<lparr>ipv6_cache := x\<rparr>) = answer_mac db" for x
    by (rule answers_depend; simp)+
  then show ?thesis
    using db a ipv6c.cache.cached_result [OF c] ipv6c.cache.cached_coherent [OF c]
    by (simp add: eq db_ok_def db_abs_def caches_ok_def answer6_def)
qed

lemma lookup_mac_ok:
  assumes db: "db_ok B db" and a: "length a = 6"
  shows "db_ok B (snd (lookup_subnet_mac None a db)) \<and>
    db_abs (snd (lookup_subnet_mac None a db)) = db_abs db \<and>
    fst (lookup_subnet_mac None a db) = search_mac db None a"
proof -
  let ?c = "macc.cache.cached (hash_seed db) (answer_mac db) (mac_cache db) a"
  have c: "macc.cache.coherent (hash_seed db) (answer_mac db) (mac_cache db)"
    using db by (simp add: db_ok_def caches_ok_def)
  have eq: "lookup_subnet_mac None a db = (fst ?c, db\<lparr>mac_cache := snd ?c\<rparr>)"
    using a by (auto simp: lookup_subnet_mac_def macc.cache.cached_def answer_mac_def split: option.splits)
  have "answer4 (db\<lparr>mac_cache := x\<rparr>) = answer4 db" "answer6 (db\<lparr>mac_cache := x\<rparr>) = answer6 db"
    "answer_mac (db\<lparr>mac_cache := x\<rparr>) = answer_mac db" for x
    by (rule answers_depend; simp)+
  then show ?thesis
    using db a macc.cache.cached_result [OF c] macc.cache.cached_coherent [OF c]
    by (simp add: eq db_ok_def db_abs_def caches_ok_def answer_mac_def)
qed

lemma reachability_changed_ok:
  assumes db: "db_ok B db"
  shows "db_ok B (reachability_changed r db) \<and> db_abs (reachability_changed r db) = (fst (db_abs db), r)"
proof -
  have "splay_wf subnet_compare (subnets_ok B) (subnet_tree db) \<and>
    (\<forall>n. splay_wf subnet_compare (own_subnets n) (node_subnets db n) \<and>
      thread (node_subnets db n) = filter (owned_by n) (thread (subnet_tree db)))"
    using db by (simp add: db_ok_def)
  then show ?thesis
    by (simp add: db_ok_def db_abs_def reachability_changed_def subnet_cache_flush_tables_def
        flush_ipv4_def flush_ipv6_def flush_mac_def caches_ok_def ipv4c.cache.coherent_clear
        ipv6c.cache.coherent_clear macc.cache.coherent_clear)
qed

lemma db_exec_refines:
  assumes db: "db_ok B db" and op: "db_op_ok B op"
  shows "fst (db_exec op db) = fst (spec_exec op (db_abs db)) \<and>
    db_ok B (snd (db_exec op db)) \<and> db_abs (snd (db_exec op db)) = snd (spec_exec op (db_abs db))"
proof (cases op)
  case (Db_add n s)
  with subnet_add_ok [OF db, of n s] op show ?thesis by (simp add: db_abs_def)
next
  case (Db_del n s)
  with subnet_del_ok [OF db, of s n] op show ?thesis by (simp add: db_abs_def)
next
  case (Db_lookup n s)
  with lookup_subnet_ok [OF db, of s n] op show ?thesis by (simp add: db_abs_def)
next
  case (Db_ipv4 a)
  with lookup_ipv4_ok [OF db, of a] op show ?thesis by (simp add: db_abs_def search_ipv4_def)
next
  case (Db_ipv6 a)
  with lookup_ipv6_ok [OF db, of a] op show ?thesis by (simp add: db_abs_def search_ipv6_def)
next
  case (Db_mac a)
  with lookup_mac_ok [OF db, of a] op show ?thesis by (simp add: db_abs_def search_mac_def)
next
  case (Db_graph r)
  with reachability_changed_ok [OF db, of r] show ?thesis by (simp add: db_abs_def)
qed

definition empty_db :: subnet_db where
  "empty_db = \<lparr>subnet_tree = empty_tree, node_subnets = \<lambda>_. empty_tree, node_reachable = \<lambda>_. False,
     ipv4_cache = \<lparr>hkeys = [], hvalues = []\<rparr>, ipv6_cache = \<lparr>hkeys = [], hvalues = []\<rparr>,
     mac_cache = \<lparr>hkeys = [], hvalues = []\<rparr>, hash_seed = 0\<rparr>"

lemma init_subnets_ok: "db_ok B (init_subnets seed empty_db) \<and>
    db_abs (init_subnets seed empty_db) = ([], \<lambda>_. False)"
  by (simp add: db_ok_def db_abs_def init_subnets_def empty_db_def subnet_cache_flush_tables_def
      flush_ipv4_def flush_ipv6_def flush_mac_def caches_ok_def ipv4c.cache.coherent_clear
      ipv6c.cache.coherent_clear macc.cache.coherent_clear splay_wf_empty)
    (simp add: empty_tree_def)

section \<open>The best match\<close>

text \<open>The loop on a list of matching subnets whose prefix lengths do not increase.\<close>

definition ip_sel :: "(net \<Rightarrow> (nat \<times> bytes) option) \<Rightarrow> bool" where
  "ip_sel sel \<longleftrightarrow> (\<forall>n p a. sel n = Some (p, a) \<longrightarrow> prefix_of n = p)"

lemma ip_sel_4 [simp]: "ip_sel as_ipv4"
proof -
  have "as_ipv4 n = Some (p, a) \<Longrightarrow> prefix_of n = p" for n p a by (cases n) simp_all
  then show ?thesis by (simp add: ip_sel_def)
qed

lemma ip_sel_6 [simp]: "ip_sel as_ipv6"
proof -
  have "as_ipv6 n = Some (p, a) \<Longrightarrow> prefix_of n = p" for n p a by (cases n) simp_all
  then show ?thesis by (simp add: ip_sel_def)
qed

abbreviation subnet_prefix :: "subnet \<Rightarrow> nat" where
  "subnet_prefix p \<equiv> prefix_of (net p)"

lemma lookup_ip_Cons:
  assumes "ip_sel sel"
  shows "lookup_ip_loop sel reach a r (p # ps) =
    (if ip_match sel a p \<and> \<not> (case r of None \<Rightarrow> False | Some q \<Rightarrow> 0 < subnet_prefix q \<and> subnet_prefix p = 0)
     then (if owner_up reach p then Some p else lookup_ip_loop sel reach a (Some p) ps)
     else lookup_ip_loop sel reach a r ps)"
proof (cases "sel (net p)")
  case (Some y)
  then have "fst y = subnet_prefix p" using assms by (cases y) (simp add: ip_sel_def)
  with Some show ?thesis by (cases y) simp
qed simp

lemma lookup_ip_up:
  assumes sel: "ip_sel sel" and match: "\<forall>p\<in>set ps. ip_match sel a p"
    and "sorted_wrt (\<lambda>p q. subnet_prefix q \<le> subnet_prefix p) ps"
    and "q \<in> set ps" "owner_up reach q" "0 < subnet_prefix q"
  shows "lookup_ip_loop sel reach a r ps = Some (hd (filter (owner_up reach) ps))"
  using assms(2-)
proof (induction ps arbitrary: r)
  case (Cons p ps)
  have p: "0 < subnet_prefix p" "ip_match sel a p" using Cons.prems by (auto simp del: ip_match.simps)
  show ?case
  proof (cases "owner_up reach p")
    case True
    with p show ?thesis
      by (simp add: lookup_ip_Cons [OF sel] del: lookup_ip_loop.simps ip_match.simps split: option.split)
  next
    case False
    then have "lookup_ip_loop sel reach a (Some p) ps = Some (hd (filter (owner_up reach) ps))"
      using Cons.prems by (intro Cons.IH) (auto simp del: ip_match.simps)
    with False p show ?thesis
      by (simp add: lookup_ip_Cons [OF sel] del: lookup_ip_loop.simps ip_match.simps split: option.split)
  qed
qed simp

lemma lookup_ip_specific:
  assumes "ip_sel sel" "0 < subnet_prefix q" "lookup_ip_loop sel reach a (Some q) ps = Some p"
  shows "0 < subnet_prefix p"
  using assms(2,3)
proof (induction ps arbitrary: q)
  case (Cons x ps)
  then show ?case
    by (simp add: lookup_ip_Cons [OF assms(1)] del: lookup_ip_loop.simps ip_match.simps
        split: if_splits)
qed simp

lemma lookup_ip_result:
  assumes "ip_sel sel" "lookup_ip_loop sel reach a r ps = Some p"
  shows "r = Some p \<or> p \<in> set ps \<and> ip_match sel a p"
  using assms(2)
proof (induction ps arbitrary: r)
  case (Cons x ps)
  then have "lookup_ip_loop sel reach a r ps = Some p \<or>
      ip_match sel a x \<and> (p = x \<or> lookup_ip_loop sel reach a (Some x) ps = Some p)"
    by (simp add: lookup_ip_Cons [OF assms(1)] del: lookup_ip_loop.simps ip_match.simps
        split: if_splits)
  with Cons.IH show ?case by (auto simp del: ip_match.simps lookup_ip_loop.simps)
qed simp

lemma lookup_ip_Some: "lookup_ip_loop sel reach a (Some x) ps \<noteq> None"
  by (induction ps arbitrary: x) (auto split: option.splits)

lemma lookup_ip_not_None:
  assumes "ip_sel sel" "ip_match sel a q" "q \<in> set ps"
  shows "lookup_ip_loop sel reach a None ps \<noteq> None"
  using assms(3)
proof (induction ps)
  case (Cons x ps)
  with assms(2) lookup_ip_Some show ?case
    by (simp add: lookup_ip_Cons [OF assms(1)] del: lookup_ip_loop.simps ip_match.simps) blast
qed simp

text \<open>The matches for an address come in order of decreasing prefix length.\<close>

lemma matches_sorted:
  assumes sel: "ip_sel sel" "\<And>n. sel n \<noteq> None \<Longrightarrow> net_type n = k" and k: "0 < k"
    and ps: "ol_sorted subnet_compare ps"
  shows "sorted_wrt (\<lambda>p q. subnet_prefix q \<le> subnet_prefix p) (filter (ip_match sel a) ps)"
proof -
  have "subnet_prefix q \<le> subnet_prefix p"
    if "ip_match sel a p" "ip_match sel a q" "subnet_compare p q < 0" for p q
  proof -
    have "net_type (net p) = k" "net_type (net q) = k"
      using that(1,2) sel(2) by (auto split: option.splits)
    with that(3) k show ?thesis
      by (cases "net p"; cases "net q")
        (auto simp: subnet_compare_chain then_cmp_def split: if_splits)
  qed
  then show ?thesis
    using ps unfolding ol_sorted_def
    by (induction ps) (auto simp del: ip_match.simps)
qed

lemma best_match:
  assumes sel: "ip_sel sel" "\<And>n. sel n \<noteq> None \<Longrightarrow> net_type n = k" and k: "0 < k"
    and ps: "ol_sorted subnet_compare ps" "set ps \<subseteq> subnets_ok B"
  shows "case lookup_ip_loop sel reach a None ps of
      None \<Rightarrow> \<forall>q\<in>set ps. \<not> ip_match sel a q
    | Some p \<Rightarrow> p \<in> set ps \<and> ip_match sel a p \<and>
        (\<forall>q\<in>set ps. ip_match sel a q \<longrightarrow>
          (subnet_prefix p = 0 \<longrightarrow> subnet_prefix q = 0) \<and>
          (owner_up reach q \<and> 0 < subnet_prefix q \<longrightarrow>
             owner_up reach p \<and> subnet_prefix q \<le> subnet_prefix p \<and>
             (net q = net p \<longrightarrow> weight p \<le> weight q)))"
proof (cases "lookup_ip_loop sel reach a None ps")
  case None
  with lookup_ip_not_None [OF sel(1), of a _ ps reach] show ?thesis
    by (auto simp del: ip_match.simps)
next
  case (Some p)
  let ?ms = "filter (ip_match sel a) ps"
  have p: "p \<in> set ps" "ip_match sel a p"
    using lookup_ip_result [OF sel(1) Some] by simp_all
  have loop: "lookup_ip_loop sel reach a None ?ms = Some p"
    using Some lookup_ip_filter [of sel reach a None ps] by simp
  have sorted: "sorted_wrt (\<lambda>p q. subnet_prefix q \<le> subnet_prefix p) ?ms"
    by (rule matches_sorted [OF sel k ps(1)])
  have zero: "subnet_prefix q = 0" if q: "q \<in> set ps" "ip_match sel a q" "subnet_prefix p = 0" for q
  proof -
    obtain m ms where ms: "?ms = m # ms" using p by (cases ?ms) (auto simp: filter_empty_conv)
    then have m: "ip_match sel a m" "subnet_prefix q \<le> subnet_prefix m"
      using q sorted by (auto simp: filter_eq_Cons_iff)
    have "\<not> 0 < subnet_prefix m"
    proof
      assume "0 < subnet_prefix m"
      moreover from loop m(1) have "m = p \<or> lookup_ip_loop sel reach a (Some m) ms = Some p"
        unfolding ms lookup_ip_Cons [OF sel(1)] by (auto split: if_splits)
      ultimately show False using lookup_ip_specific [OF sel(1), of m reach a ms p] q(3) by auto
    qed
    with m show ?thesis by simp
  qed
  have up: "owner_up reach p \<and> subnet_prefix q \<le> subnet_prefix p \<and> (net q = net p \<longrightarrow> weight p \<le> weight q)"
    if q: "q \<in> set ps" "ip_match sel a q" "owner_up reach q" "0 < subnet_prefix q" for q
  proof -
    have first: "p = hd (filter (owner_up reach) ?ms)"
      using lookup_ip_up [OF sel(1) _ sorted, of a q reach None] q loop by auto
    have "q \<in> set (filter (owner_up reach) ?ms)" using q by simp
    then have "filter (owner_up reach) ?ms = p # tl (filter (owner_up reach) ?ms)"
      unfolding first by (metis list.collapse empty_iff empty_set)
    then obtain xs where hd: "filter (owner_up reach) ?ms = p # xs" ..
    then have "owner_up reach p" by (auto simp: filter_eq_Cons_iff)
    moreover have "p = q \<or> (subnet_prefix q \<le> subnet_prefix p \<and> subnet_compare p q < 0)"
    proof -
      have "sorted_wrt (\<lambda>p q. subnet_prefix q \<le> subnet_prefix p) (p # xs)"
        using sorted_wrt_filter [OF sorted, of "owner_up reach"] by (simp only: hd)
      moreover have "ol_sorted subnet_compare (p # xs)"
        using sorted_wrt_filter [OF sorted_wrt_filter [OF ps(1) [unfolded ol_sorted_def]]]
        unfolding ol_sorted_def hd [symmetric] .
      moreover have "q \<in> set (p # xs)" unfolding hd [symmetric] using q by simp
      ultimately show ?thesis by auto
    qed
    moreover have "weight p \<le> weight q" if "subnet_compare p q < 0" "net q = net p"
    proof -
      have "p \<in> subnets_ok B" "q \<in> subnets_ok B" using p(1) q(1) ps(2) by auto
      with that compare_owner_same_net [of p B q] show ?thesis
        by (simp add: subnet_compare_chain then_cmp_def split: if_splits)
    qed
    ultimately show ?thesis by auto
  qed
  show ?thesis
    unfolding Some option.case by (intro conjI ballI impI) (use p zero up in blast)+
qed

section \<open>Properties\<close>


abbreviation sample_subnet :: "name option \<Rightarrow> nat \<Rightarrow> bytes \<Rightarrow> subnet" where
  "sample_subnet n p a \<equiv> \<lparr>owner = n, weight = 10, net = Ipv4 p a\<rparr>"

abbreviation sample_ops :: "db_op list" where
  "sample_ops \<equiv>
     [Db_add (Some ''a'') (sample_subnet None 8 [10, 0, 0, 0]),
      Db_add (Some ''b'') (sample_subnet None 24 [10, 1, 2, 0]),
      Db_ipv4 [10, 1, 2, 3],
      Db_graph (\<lambda>n. n = ''a''),
      Db_ipv4 [10, 1, 2, 3],
      Db_del (Some ''a'') (sample_subnet (Some ''a'') 8 [10, 0, 0, 0]),
      Db_ipv4 [10, 1, 2, 3]]"


text \<open>C4: The IPv4 lookup of a database in a consistent state, cached or not, is a longest prefix match:
  it fails exactly when no subnet matches; what it returns matches; when a reachable (or
  ownerless) subnet other than a default route matches, the result is reachable, has the longest
  prefix among the reachable matches and the smallest weight for its network; and a default route
  is returned only when nothing more specific matches, reachable or not.\<close>

theorem longest_prefix_match_ipv4:
  assumes "db_ok B db" "length a = 4"
  shows "case fst (lookup_subnet_ipv4 a db) of
      None \<Rightarrow> \<forall>q\<in>set (thread (subnet_tree db)). \<not> ip_match as_ipv4 a q
    | Some p \<Rightarrow> p \<in> set (thread (subnet_tree db)) \<and> ip_match as_ipv4 a p \<and>
        (\<forall>q\<in>set (thread (subnet_tree db)). ip_match as_ipv4 a q \<longrightarrow>
          (subnet_prefix p = 0 \<longrightarrow> subnet_prefix q = 0) \<and>
          (owner_up (node_reachable db) q \<and> 0 < subnet_prefix q \<longrightarrow>
             owner_up (node_reachable db) p \<and> subnet_prefix q \<le> subnet_prefix p \<and>
             (net q = net p \<longrightarrow> weight p \<le> weight q)))"
proof -
  have type: "as_ipv4 n \<noteq> None \<Longrightarrow> net_type n = 1" for n by (cases n) simp_all
  show ?thesis
    unfolding conjunct2 [OF conjunct2 [OF lookup_ipv4_ok [OF assms]]] search_ipv4_def
    by (rule best_match [OF ip_sel_4 type zero_less_one db_wf(5,4) [OF assms(1)]])
qed

lemma sample_db_ok:
  "db_ok {} (reachability_changed (\<lambda>n. n = ''a'')
     (subnet_add (Some ''a'') s (init_subnets 7 empty_db))) \<and>
   db_abs (reachability_changed (\<lambda>n. n = ''a'')
     (subnet_add (Some ''a'') s (init_subnets 7 empty_db))) = ([s\<lparr>owner := Some ''a''\<rparr>], \<lambda>n. n = ''a'')"
  if "s\<lparr>owner := Some ''a''\<rparr> \<in> subnets_ok {}"
proof -
  have db: "db_ok {} (init_subnets 7 empty_db)" "fst (db_abs (init_subnets 7 empty_db)) = []"
    using init_subnets_ok [of "{}" 7] by simp_all
  have "db_ok {} (subnet_add (Some ''a'') s (init_subnets 7 empty_db))"
    "fst (db_abs (subnet_add (Some ''a'') s (init_subnets 7 empty_db))) = [s\<lparr>owner := Some ''a''\<rparr>]"
    using subnet_add_ok [OF db(1) that] by (simp_all add: db(2))
  then show ?thesis
    using reachability_changed_ok [of "{}"] by simp
qed

theorem longest_prefix_match_ipv4_witness:
  "fst (lookup_subnet_ipv4 [10, 1, 2, 3] (reachability_changed (\<lambda>n. n = ''a'')
     (subnet_add (Some ''a'') (sample_subnet None 8 [10, 0, 0, 0]) (init_subnets 7 empty_db)))) =
   Some (sample_subnet (Some ''a'') 8 [10, 0, 0, 0])"
proof -
  let ?s = "sample_subnet None 8 [10, 0, 0, 0]"
  let ?db = "reachability_changed (\<lambda>n. n = ''a'') (subnet_add (Some ''a'') ?s (init_subnets 7 empty_db))"
  have s: "?s\<lparr>owner := Some ''a''\<rparr> \<in> subnets_ok {}" by (simp add: subnets_ok_def small_int_def)
  then have "thread (subnet_tree ?db) = [?s\<lparr>owner := Some ''a''\<rparr>]"
    using sample_db_ok [OF s] by (simp add: db_abs_def)
  with longest_prefix_match_ipv4 [of "{}" ?db "[10, 1, 2, 3]"] sample_db_ok [OF s]
  show ?thesis by (auto simp: top_bits_def split: option.splits)
qed

text \<open>The IPv6 lookup is the same longest prefix match on the IPv6 subnets.\<close>

lemma longest_prefix_match_ipv6:
  assumes "db_ok B db" "length a = 16"
  shows "case fst (lookup_subnet_ipv6 a db) of
      None \<Rightarrow> \<forall>q\<in>set (thread (subnet_tree db)). \<not> ip_match as_ipv6 a q
    | Some p \<Rightarrow> p \<in> set (thread (subnet_tree db)) \<and> ip_match as_ipv6 a p \<and>
        (\<forall>q\<in>set (thread (subnet_tree db)). ip_match as_ipv6 a q \<longrightarrow>
          (subnet_prefix p = 0 \<longrightarrow> subnet_prefix q = 0) \<and>
          (owner_up (node_reachable db) q \<and> 0 < subnet_prefix q \<longrightarrow>
             owner_up (node_reachable db) p \<and> subnet_prefix q \<le> subnet_prefix p \<and>
             (net q = net p \<longrightarrow> weight p \<le> weight q)))"
proof -
  have type: "as_ipv6 n \<noteq> None \<Longrightarrow> net_type n = 2" for n by (cases n) simp_all
  show ?thesis
    unfolding conjunct2 [OF conjunct2 [OF lookup_ipv6_ok [OF assms]]] search_ipv6_def
    by (rule best_match [OF ip_sel_6 type zero_less_numeral db_wf(5,4) [OF assms(1)]])
qed

text \<open>C25: The MAC lookup takes an owner to search, but shares one cache between all owners: once an
  unrestricted lookup has found a subnet, the lookup restricted to any node returns that subnet,
  whoever owns it.\<close>

theorem lookup_mac_ignores_owner:
  assumes "db_ok B db" "length a = 6" "fst (lookup_subnet_mac None a db) = Some p"
  shows "fst (lookup_subnet_mac (Some n) a (snd (lookup_subnet_mac None a db))) = Some p"
proof (cases "hash_search SUBNET_HASH_SIZE (mac_hash db) (mac_cache db) a")
  case (Some q)
  with assms(3) show ?thesis by (simp add: lookup_subnet_mac_def)
next
  case None
  with assms(3) have s: "search_mac db None a = Some p"
    by (auto simp: lookup_subnet_mac_def split: option.splits)
  have "hash_ok SUBNET_HASH_SIZE (mac_hash db) (mac_cache db)"
    using assms(1) by (simp add: db_ok_def caches_ok_def macc.cache.coherent_def)
  with None s show ?thesis
    by (simp add: lookup_subnet_mac_def macc.hash_insert_props(2))
qed

theorem lookup_mac_ignores_owner_witness:
  "\<exists>db. fst (lookup_subnet_mac (Some ''me'') [2, 0, 0, 0, 0, 1] db) =
      Some \<lparr>owner = Some ''a'', weight = 10, net = Mac [2, 0, 0, 0, 0, 1]\<rparr>"
proof -
  let ?s = "\<lparr>owner = None, weight = 10, net = Mac [2, 0, 0, 0, 0, 1]\<rparr>"
  let ?db = "reachability_changed (\<lambda>n. n = ''a'') (subnet_add (Some ''a'') ?s (init_subnets 7 empty_db))"
  have s: "?s\<lparr>owner := Some ''a''\<rparr> \<in> subnets_ok {}" by (simp add: subnets_ok_def small_int_def)
  have "thread (subnet_tree ?db) = [?s\<lparr>owner := Some ''a''\<rparr>]"
    using sample_db_ok [OF s] by (simp add: db_abs_def)
  then have "fst (lookup_subnet_mac None [2, 0, 0, 0, 0, 1] ?db) = Some (?s\<lparr>owner := Some ''a''\<rparr>)"
    using lookup_mac_ok [of "{}" ?db "[2, 0, 0, 0, 0, 1]"] sample_db_ok [OF s]
    by (simp add: search_mac_def)
  with lookup_mac_ignores_owner [of "{}" ?db "[2, 0, 0, 0, 0, 1]" _ "''me''"] sample_db_ok [OF s]
  show ?thesis by auto
qed

end
