(* ===== verification/ReplayWindow.thy ===== *)
theory ReplayWindow
  imports TincPrelude
begin

text \<open>
  The anti-replay window of \<open>sptps.c\<close>: \<open>sptps_check_seqno\<close> and the part of \<open>sptps_t\<close> it works on.
  \<open>late\<close> is a circular bitmap of \<open>replaywin\<close> bytes; a set bit is a sequence number that was skipped
  and may still arrive.  The specification is a set of accepted sequence numbers; the window
  implements it as long as the 32-bit counter does not come near its end, and stops doing so there.
\<close>

unbundle bit_operations_syntax

record replay_window =
  inseqno :: u32
  received :: u32
  replaywin :: u32
  farfuture :: u32
  late :: bytes

text \<open>\<open>late[(seqno / 8) % replaywin]\<close> and its bit \<open>1 << seqno % 8\<close>.\<close>

definition late_index :: "u32 \<Rightarrow> u32 \<Rightarrow> nat" where
  "late_index win seqno = unat ((seqno div 8) mod win)"

definition late_bit :: "u32 \<Rightarrow> u8" where
  "late_bit seqno = push_bit (unat (seqno mod 8)) 1"

definition is_late :: "bytes \<Rightarrow> u32 \<Rightarrow> u32 \<Rightarrow> bool" where
  "is_late bits win seqno \<longleftrightarrow> bits ! late_index win seqno AND late_bit seqno \<noteq> 0"

definition set_late :: "u32 \<Rightarrow> u32 \<Rightarrow> bytes \<Rightarrow> bytes" where
  "set_late win seqno bits =
     bits[late_index win seqno := bits ! late_index win seqno OR late_bit seqno]"

definition clear_late :: "u32 \<Rightarrow> u32 \<Rightarrow> bytes \<Rightarrow> bytes" where
  "clear_late win seqno bits =
     bits[late_index win seqno := bits ! late_index win seqno AND NOT (late_bit seqno)]"

text \<open>\<open>for(i = inseqno; i < seqno; i++)\<close> mark \<open>i\<close> as late.\<close>

definition mark_late :: "u32 \<Rightarrow> u32 \<Rightarrow> u32 \<Rightarrow> bytes \<Rightarrow> bytes" where
  "mark_late win from to bits = fold (\<lambda>i. set_late win (of_nat i)) [unat from..<unat to] bits"

text \<open>
  Whether the number is acceptable, and the bitmap after the packets before it have been marked.
  All arithmetic is that of \<open>uint32_t\<close>, wrap-around included.
\<close>

definition window_step :: "'a replay_window_scheme \<Rightarrow> u32 \<Rightarrow> bytes option" where
  "window_step s seqno =
     (let span = replaywin s * 8 in
      if seqno = inseqno s then Some (late s)
      else if inseqno s + span \<le> seqno then Some (replicate (unat (replaywin s)) 255)
      else if seqno < inseqno s then
        if span \<le> inseqno s \<and> seqno < inseqno s - span \<or> \<not> is_late (late s) (replaywin s) seqno
        then None else Some (late s)
      else Some (mark_late (replaywin s) (inseqno s) seqno (late s)))"

definition count_seqno :: "u32 \<Rightarrow> 'a replay_window_scheme \<Rightarrow> 'a replay_window_scheme" where
  "count_seqno seqno s =
     (let s = (if inseqno s \<le> seqno then s\<lparr>inseqno := seqno + 1\<rparr> else s) in
      if inseqno s = 0 then s\<lparr>received := 0\<rparr> else s\<lparr>received := received s + 1\<rparr>)"

definition sptps_check_seqno ::
  "'a replay_window_scheme \<Rightarrow> u32 \<Rightarrow> bool \<Rightarrow> bool \<times> 'a replay_window_scheme" where
  "sptps_check_seqno s seqno update_state =
     (if replaywin s \<noteq> 0 then
        case window_step s seqno of
          None \<Rightarrow> (False, s)
        | Some bits \<Rightarrow>
            (True, if update_state
                   then count_seqno seqno
                     (s\<lparr>late := clear_late (replaywin s) seqno bits, farfuture := 0\<rparr>)
                   else s)
      else (True, if update_state then count_seqno seqno s else s))"

section \<open>The bitmap\<close>

text \<open>The bitmap of a window of \<open>win\<close> bytes, as a predicate on sequence numbers modulo \<open>8 * win\<close>.\<close>

definition late_at :: "bytes \<Rightarrow> nat \<Rightarrow> nat \<Rightarrow> bool" where
  "late_at bits win q \<longleftrightarrow> bit (bits ! ((q div 8) mod win)) (q mod 8)"

lemma late_index_nat: "0 < win \<Longrightarrow> late_index win q = (unat q div 8) mod unat win"
  by (simp add: late_index_def unat_mod unat_div)

lemma late_bit_nat: "late_bit q = push_bit (unat q mod 8) 1"
  by (simp add: late_bit_def unat_mod)

lemma bit_late_bit: "k < 8 \<Longrightarrow> bit (late_bit q) k \<longleftrightarrow> k = unat q mod 8"
  by (auto simp: late_bit_nat bit_exp_iff possible_bit_word)

lemma and_late_bit: "(x AND late_bit q \<noteq> 0) \<longleftrightarrow> bit x (unat q mod 8)"
proof -
  have "x AND late_bit q = 0 \<longleftrightarrow> \<not> bit x (unat q mod 8)"
  proof
    assume "x AND late_bit q = 0"
    then have "\<not> bit (x AND late_bit q) (unat q mod 8)" by simp
    then show "\<not> bit x (unat q mod 8)" by (simp add: bit_and_iff bit_late_bit)
  next
    assume "\<not> bit x (unat q mod 8)"
    then show "x AND late_bit q = 0"
      by (intro bit_word_eqI) (auto simp: bit_and_iff bit_late_bit)
  qed
  then show ?thesis by simp
qed

lemma is_late_at: "win \<noteq> 0 \<Longrightarrow> is_late bits win q \<longleftrightarrow> late_at bits (unat win) (unat q)"
  by (simp add: is_late_def late_at_def and_late_bit late_index_nat word_greater_zero_iff)

text \<open>Two numbers share a bit exactly when they are equal modulo the number of bits.\<close>

lemma same_bit:
  assumes "0 < (win::nat)"
  shows "(q div 8) mod win = (p div 8) mod win \<and> q mod 8 = p mod 8 \<longleftrightarrow> q mod (8 * win) = p mod (8 * win)"
proof
  assume "(q div 8) mod win = (p div 8) mod win \<and> q mod 8 = p mod 8"
  then show "q mod (8 * win) = p mod (8 * win)" by (simp add: mod_mult2_eq)
next
  assume eq: "q mod (8 * win) = p mod (8 * win)"
  have "q mod 8 = p mod 8" using arg_cong [OF eq, of "\<lambda>x. x mod 8"] by (simp add: mod_mod_cancel)
  moreover have "(x mod (8 * win)) div 8 = (x div 8) mod win" for x
    by (simp add: mod_mult2_eq)
  then have "(q div 8) mod win = (p div 8) mod win" using arg_cong [OF eq, of "\<lambda>x. x div 8"] by metis
  ultimately show "(q div 8) mod win = (p div 8) mod win \<and> q mod 8 = p mod 8" by simp
qed

lemma length_set_late [simp]: "length (set_late win q bits) = length bits"
  by (simp add: set_late_def)

lemma length_clear_late [simp]: "length (clear_late win q bits) = length bits"
  by (simp add: clear_late_def)

lemma length_mark_late [simp]: "length (mark_late win a b bits) = length bits"
proof -
  have "length (fold (\<lambda>i. set_late win (of_nat i)) is bits) = length bits" for "is"
    by (induction "is" arbitrary: bits) simp_all
  then show ?thesis by (simp add: mark_late_def)
qed

lemma late_at_set:
  assumes "win \<noteq> 0" "length bits = unat win"
  shows "late_at (set_late win q bits) (unat win) p \<longleftrightarrow>
    late_at bits (unat win) p \<or> p mod (8 * unat win) = unat q mod (8 * unat win)"
proof -
  have w: "0 < unat win" using assms(1) by (simp add: unat_gt_0)
  then have "(p div 8) mod unat win < length bits" by (simp add: assms(2))
  with same_bit [OF w, of p "unat q"] show ?thesis
    by (cases "(unat q div 8) mod unat win = (p div 8) mod unat win")
      (auto simp: set_late_def late_at_def late_index_nat assms(1) word_greater_zero_iff
        nth_list_update bit_or_iff bit_late_bit)
qed

lemma late_at_clear:
  assumes "win \<noteq> 0" "length bits = unat win"
  shows "late_at (clear_late win q bits) (unat win) p \<longleftrightarrow>
    late_at bits (unat win) p \<and> p mod (8 * unat win) \<noteq> unat q mod (8 * unat win)"
proof -
  have w: "0 < unat win" using assms(1) by (simp add: unat_gt_0)
  then have "(p div 8) mod unat win < length bits" by (simp add: assms(2))
  with same_bit [OF w, of p "unat q"] show ?thesis
    by (cases "(unat q div 8) mod unat win = (p div 8) mod unat win")
      (auto simp: clear_late_def late_at_def late_index_nat assms(1) word_greater_zero_iff
        nth_list_update bit_and_iff bit_not_iff bit_late_bit)
qed

lemma late_at_mark:
  assumes win: "win \<noteq> 0" and len: "length bits = unat win" and ab: "a \<le> b" "b < 2 ^ 32"
  shows "late_at (mark_late win (of_nat a) (of_nat b) bits) (unat win) p \<longleftrightarrow>
    late_at bits (unat win) p \<or> (\<exists>i. a \<le> i \<and> i < b \<and> p mod (8 * unat win) = i mod (8 * unat win))"
proof -
  have "late_at (fold (\<lambda>i. set_late win (of_nat i)) is bits) (unat win) p \<longleftrightarrow>
      late_at bits (unat win) p \<or> (\<exists>i\<in>set is. p mod (8 * unat win) = i mod (8 * unat win))"
    if "\<forall>i\<in>set is. i < 2 ^ 32" for "is"
    using that len
  proof (induction "is" arbitrary: bits)
    case (Cons i "is")
    then have "unat (of_nat i :: u32) = i" by (subst unat_of_nat) simp
    with Cons show ?case by (auto simp: late_at_set [OF win])
  qed simp
  moreover have "unat (of_nat a :: u32) = a" "unat (of_nat b :: u32) = b"
    by (subst unat_of_nat; use ab in simp)+
  moreover have "\<forall>i\<in>set [a..<b]. i < 2 ^ 32" using ab by auto
  ultimately show ?thesis by (auto simp: mark_late_def)
qed

section \<open>What the window promises\<close>

text \<open>
  The specification: the set \<open>A\<close> of sequence numbers accepted so far, and the first number \<open>k\<close>
  after all of them.  A number is accepted when it is new or, being at most \<open>w\<close> behind, has not
  been accepted yet.
\<close>

definition spec_accepts :: "nat \<Rightarrow> nat set \<times> nat \<Rightarrow> nat \<Rightarrow> bool" where
  "spec_accepts w a q \<longleftrightarrow> snd a \<le> q \<or> snd a \<le> q + w \<and> q \<notin> fst a"

definition spec_seqno :: "nat \<Rightarrow> nat \<Rightarrow> nat set \<times> nat \<Rightarrow> bool \<times> (nat set \<times> nat)" where
  "spec_seqno w q a =
     (if spec_accepts w a q then (True, insert q (fst a), max (snd a) (q + 1)) else (False, a))"

definition win_bits :: "'a replay_window_scheme \<Rightarrow> nat" where
  "win_bits s = 8 * unat (replaywin s)"

definition win_ok :: "'a replay_window_scheme \<Rightarrow> nat set \<times> nat \<Rightarrow> bool" where
  "win_ok s a \<longleftrightarrow>
     replaywin s \<noteq> 0 \<and> length (late s) = unat (replaywin s) \<and>
     unat (inseqno s) = snd a \<and> unat (inseqno s) + win_bits s < 2 ^ 32 \<and>
     (\<forall>q\<in>fst a. q < snd a) \<and>
     (\<forall>q. q < snd a \<and> snd a \<le> q + win_bits s \<longrightarrow>
        (late_at (late s) (unat (replaywin s)) q \<longleftrightarrow> q \<notin> fst a))"

text \<open>Different numbers less than a window apart have different bits.\<close>

lemma near_mod: "q < p \<Longrightarrow> p < q + w \<Longrightarrow> q mod w \<noteq> p mod (w :: nat)"
proof
  assume lt: "q < p" "p < q + w" and eq: "q mod w = p mod w"
  have "w dvd p - q" using mod_eq_dvd_iff_nat [of q p w] eq lt(1) by simp
  with lt show False by (auto dest: dvd_imp_le)
qed

lemma near_mod_eq: "p < q + w \<Longrightarrow> q < p + w \<Longrightarrow> q mod w = p mod w \<longleftrightarrow> q = (p :: nat)"
  using near_mod [of q p w] near_mod [of p q w] by (cases p q rule: linorder_cases) auto

text \<open>The word comparisons of \<open>window_step\<close>, away from the end of the counter.\<close>

lemma window_words:
  assumes "win_ok s a"
  shows "unat (replaywin s * 8) = win_bits s"
    and "unat (inseqno s + replaywin s * 8) = snd a + win_bits s"
    and "win_bits s \<le> snd a \<Longrightarrow> unat (inseqno s - replaywin s * 8) = snd a - win_bits s"
proof -
  have lt: "unat (inseqno s) + win_bits s < 2 ^ 32" and a: "unat (inseqno s) = snd a"
    using assms by (simp_all add: win_ok_def)
  have "unat (replaywin s) * unat (8 :: u32) < 2 ^ LENGTH(32)"
    using lt by (simp add: win_bits_def)
  then have span: "unat (replaywin s * 8) = win_bits s"
    by (simp add: unat_mult_lem [THEN iffD1] win_bits_def)
  then show "unat (replaywin s * 8) = win_bits s" .
  show "unat (inseqno s + replaywin s * 8) = snd a + win_bits s"
    using lt span a by (simp add: unat_add_lem [THEN iffD1])
  show "win_bits s \<le> snd a \<Longrightarrow> unat (inseqno s - replaywin s * 8) = snd a - win_bits s"
    using span a by (simp add: unat_sub word_le_nat_alt)
qed

lemma window_step_bits:
  assumes ok: "win_ok s a"
  shows "window_step s seqno = None \<longleftrightarrow> \<not> spec_accepts (win_bits s) a (unat seqno)"
    and "window_step s seqno = Some bits \<Longrightarrow> length bits = unat (replaywin s)"
    and "window_step s seqno = Some bits \<Longrightarrow> q \<noteq> unat seqno \<Longrightarrow>
      q < max (snd a) (unat seqno + 1) \<Longrightarrow> max (snd a) (unat seqno + 1) \<le> q + win_bits s \<Longrightarrow>
      late_at bits (unat (replaywin s)) q \<longleftrightarrow> q \<notin> fst a"
proof -
  let ?w = "win_bits s" and ?p = "unat seqno"
  note words = window_words [OF ok]
  have win: "replaywin s \<noteq> 0" and len: "length (late s) = unat (replaywin s)"
    and a: "unat (inseqno s) = snd a" "\<forall>q\<in>fst a. q < snd a"
    and late: "\<And>q. q < snd a \<Longrightarrow> snd a \<le> q + ?w \<Longrightarrow>
      late_at (late s) (unat (replaywin s)) q \<longleftrightarrow> q \<notin> fst a"
    using ok by (simp_all add: win_ok_def)
  have eqs: "seqno = inseqno s \<longleftrightarrow> ?p = snd a"
    "inseqno s + replaywin s * 8 \<le> seqno \<longleftrightarrow> snd a + ?w \<le> ?p"
    "seqno < inseqno s \<longleftrightarrow> ?p < snd a"
    unfolding word_unat_eq_iff word_le_nat_alt word_less_nat_alt words a(1) by (rule refl)+
  have old: "replaywin s * 8 \<le> inseqno s \<and> seqno < inseqno s - replaywin s * 8 \<longleftrightarrow> ?p + ?w < snd a"
    unfolding word_le_nat_alt word_less_nat_alt words(1) a(1)
    using words(3) by (cases "?w \<le> snd a") auto
  have step: "window_step s seqno =
     (if ?p = snd a then Some (late s)
      else if snd a + ?w \<le> ?p then Some (replicate (unat (replaywin s)) 255)
      else if ?p < snd a then
        if ?p + ?w < snd a \<or> \<not> late_at (late s) (unat (replaywin s)) ?p then None else Some (late s)
      else Some (mark_late (replaywin s) (inseqno s) seqno (late s)))"
    unfolding window_step_def Let_def eqs old is_late_at [OF win] ..
  show "window_step s seqno = None \<longleftrightarrow> \<not> spec_accepts ?w a ?p"
    unfolding step spec_accepts_def using late [of ?p] by auto
  show "window_step s seqno = Some bits \<Longrightarrow> length bits = unat (replaywin s)"
    unfolding step using len by (auto split: if_splits)
  show "late_at bits (unat (replaywin s)) q \<longleftrightarrow> q \<notin> fst a"
    if bits: "window_step s seqno = Some bits" and q: "q \<noteq> ?p"
      "q < max (snd a) (?p + 1)" "max (snd a) (?p + 1) \<le> q + ?w"
  proof -
    consider "?p = snd a \<or> ?p < snd a" "bits = late s" | "snd a + ?w \<le> ?p" "bits = replicate (unat (replaywin s)) 255"
      | "snd a < ?p" "?p < snd a + ?w" "bits = mark_late (replaywin s) (inseqno s) seqno (late s)"
      using bits unfolding step by (auto split: if_splits)
    then show ?thesis
    proof cases
      case 1
      with q late [of q] show ?thesis by auto
    next
      case 2
      have "(q div 8) mod unat (replaywin s) < unat (replaywin s)" "q mod 8 < 8"
        using win by (simp_all add: unat_gt_0)
      moreover have "bit (255 :: u8) (q mod 8)"
        using mask_eq_exp_minus_1 [of 8, where 'a = u8] bit_mask_iff [of 8 "q mod 8", where 'a = u8]
        by simp
      ultimately have "late_at bits (unat (replaywin s)) q" by (simp add: late_at_def 2)
      moreover have "q \<notin> fst a" using q a 2 by auto
      ultimately show ?thesis by simp
    next
      case 3
      have "late_at bits (unat (replaywin s)) q \<longleftrightarrow> late_at (late s) (unat (replaywin s)) q \<or>
          (\<exists>i. snd a \<le> i \<and> i < ?p \<and> q mod ?w = i mod ?w)"
      proof -
        have "of_nat (snd a) = inseqno s" unfolding a(1) [symmetric] by simp
        moreover have "snd a \<le> ?p" "?p < 2 ^ 32"
          using 3 unsigned_less [of seqno, where 'a = nat] by simp_all
        ultimately show ?thesis
          using late_at_mark [OF win len, of "snd a" ?p q] unfolding 3(3) win_bits_def by simp
      qed
      moreover have "(\<exists>i. snd a \<le> i \<and> i < ?p \<and> q mod ?w = i mod ?w) \<longleftrightarrow> snd a \<le> q"
      proof
        assume "\<exists>i. snd a \<le> i \<and> i < ?p \<and> q mod ?w = i mod ?w"
        then obtain i where i: "snd a \<le> i" "i < ?p" "q mod ?w = i mod ?w" by auto
        have "q = i" using i q 3 near_mod_eq [of i q ?w] by auto
        with i show "snd a \<le> q" by simp
      next
        assume "snd a \<le> q"
        moreover have "q < ?p" using q 3 by auto
        ultimately show "\<exists>i. snd a \<le> i \<and> i < ?p \<and> q mod ?w = i mod ?w" by auto
      qed
      ultimately show ?thesis using q 3 a late [of q] by auto
    qed
  qed
qed

lemma sptps_check_seqno_refines:
  assumes ok: "win_ok s a" and q: "unat seqno + win_bits s + 1 < 2 ^ 32"
  shows "fst (sptps_check_seqno s seqno True) = fst (spec_seqno (win_bits s) (unat seqno) a) \<and>
    win_ok (snd (sptps_check_seqno s seqno True)) (snd (spec_seqno (win_bits s) (unat seqno) a)) \<and>
    win_bits (snd (sptps_check_seqno s seqno True)) = win_bits s"
proof -
  have win: "replaywin s \<noteq> 0" using ok by (simp add: win_ok_def)
  show ?thesis
  proof (cases "window_step s seqno")
    case None
    with window_step_bits(1) [OF ok, of seqno] show ?thesis
      using ok win by (simp add: sptps_check_seqno_def spec_seqno_def)
  next
    case (Some bits)
    let ?s = "count_seqno seqno (s\<lparr>late := clear_late (replaywin s) seqno bits, farfuture := 0\<rparr>)"
    let ?a = "(insert (unat seqno) (fst a), max (snd a) (unat seqno + 1))"
    have len: "length bits = unat (replaywin s)" by (rule window_step_bits(2) [OF ok Some])
    have flds: "replaywin ?s = replaywin s" "late ?s = clear_late (replaywin s) seqno bits"
      "win_bits ?s = win_bits s"
      "inseqno ?s = (if inseqno s \<le> seqno then seqno + 1 else inseqno s)"
      by (auto simp: count_seqno_def win_bits_def Let_def)
    have in_s: "unat (inseqno s) = snd a" "snd a + win_bits s < 2 ^ 32" "\<forall>q\<in>fst a. q < snd a"
      using ok by (simp_all add: win_ok_def)
    have "unat (seqno + 1) = unat seqno + 1"
      using q unat_add_lem [of seqno 1] by simp
    then have next_s: "unat (inseqno ?s) = snd ?a"
      using in_s(1) by (auto simp: flds word_le_nat_alt)
    have acc: "spec_accepts (win_bits s) a (unat seqno)"
      using window_step_bits(1) [OF ok, of seqno] Some by simp
    have bits: "late_at (late ?s) (unat (replaywin s)) p \<longleftrightarrow> p \<notin> fst ?a"
      if p: "p < snd ?a" "snd ?a \<le> p + win_bits s" for p
    proof (cases "p = unat seqno")
      case True
      then show ?thesis by (simp add: flds late_at_clear [OF win len])
    next
      case False
      have "0 < win_bits s" using win by (simp add: win_bits_def unat_gt_0)
      then have "unat seqno < p + win_bits s" "p < unat seqno + win_bits s"
        using p acc by (auto simp: spec_accepts_def)
      with near_mod_eq [of "unat seqno" p "win_bits s"] False
      have "p mod win_bits s \<noteq> unat seqno mod win_bits s" by simp
      with False p show ?thesis
        using window_step_bits(3) [OF ok Some False]
        by (simp add: flds late_at_clear [OF win len] win_bits_def)
    qed
    have "win_ok ?s ?a"
      unfolding win_ok_def flds(1,3) next_s
      using win len in_s q bits by (auto simp: flds(2))
    with Some win acc flds show ?thesis
      by (simp add: sptps_check_seqno_def spec_seqno_def)
  qed
qed

section \<open>Properties\<close>

text \<open>The window of a fresh session: \<open>k\<close> handshake datagrams have been received in order.\<close>

definition start_window :: "u32 \<Rightarrow> u32 \<Rightarrow> replay_window" where
  "start_window win k =
     \<lparr>inseqno = k, received = 0, replaywin = win, farfuture = 0, late = replicate (unat win) 0\<rparr>"

lemma start_window_ok:
  assumes "win \<noteq> 0" "unat k + 8 * unat win < 2 ^ 32"
  shows "win_ok (start_window win k) ({0..<unat k}, unat k)"
proof -
  have "\<not> late_at (replicate (unat win) 0) (unat win) q" for q
    using assms(1) by (simp add: late_at_def unat_gt_0)
  with assms show ?thesis by (simp add: win_ok_def start_window_def win_bits_def)
qed

abbreviation receive_seqno :: "u32 \<Rightarrow> 'a replay_window_scheme \<Rightarrow> bool \<times> 'a replay_window_scheme" where
  "receive_seqno q s \<equiv> sptps_check_seqno s q True"

lemma receive_seqnos_refine:
  fixes s :: "'a replay_window_scheme"
  assumes "win_ok s a" "\<forall>q\<in>set qs. unat q + win_bits s + 1 < 2 ^ 32"
  shows "fst (run_ops receive_seqno qs s) = fst (run_ops (\<lambda>q. spec_seqno (win_bits s) (unat q)) qs a)"
proof (rule conjunct1 [OF run_ops_simulation [where valid = "\<lambda>q. unat q + win_bits s + 1 < 2 ^ 32"
        and R = "\<lambda>t a. win_ok t a \<and> win_bits t = win_bits s"]])
  fix q :: u32 and t :: "'a replay_window_scheme" and b
  assume "win_ok t b \<and> win_bits t = win_bits s" "unat q + win_bits s + 1 < 2 ^ 32"
  then show "fst (receive_seqno q t) = fst (spec_seqno (win_bits s) (unat q) b) \<and>
      win_ok (snd (receive_seqno q t)) (snd (spec_seqno (win_bits s) (unat q) b)) \<and>
      win_bits (snd (receive_seqno q t)) = win_bits s"
    using sptps_check_seqno_refines [of t b q] by simp
qed (use assms in auto)

text \<open>C11: As long as no sequence number comes within a window of the end of the 32-bit counter, the
  bitmap answers every sequence of arrivals, in any order and with any losses, as the set of the
  numbers accepted so far would: a number is accepted exactly when it is at most a window behind
  the newest and has not been accepted before.  In particular none is accepted twice.\<close>

theorem replay_window_refines_set:
  assumes "win \<noteq> 0" "unat k + 8 * unat win < 2 ^ 32"
    and "\<forall>q\<in>set qs. unat q + 8 * unat win + 1 < 2 ^ 32"
  shows "fst (run_ops receive_seqno qs (start_window win k)) =
    fst (run_ops (\<lambda>q. spec_seqno (8 * unat win) (unat q)) qs ({0..<unat k}, unat k))"
proof -
  have "win_bits (start_window win k) = 8 * unat win" by (simp add: win_bits_def start_window_def)
  with receive_seqnos_refine [OF start_window_ok [OF assms(1,2)], of qs] assms(3) show ?thesis
    by simp
qed

theorem replay_window_refines_set_witness:
  "fst (run_ops receive_seqno [3, 5, 4, 5, 21, 3, 20] (start_window 2 3)) =
     [True, True, True, False, True, False, True]"
  by (subst replay_window_refines_set)
    (simp_all add: spec_seqno_def spec_accepts_def)

lemma spec_never_twice:
  "fst (run_ops (\<lambda>q. spec_seqno w (unat q)) qs a) ! i \<Longrightarrow> i < length qs \<Longrightarrow>
   \<forall>p\<in>fst a. p < snd a \<Longrightarrow> unat (qs ! i) \<notin> fst a"
proof (induction qs arbitrary: a i)
  case (Cons q qs)
  show ?case
  proof (cases i)
    case 0
    with Cons.prems show ?thesis
      by (auto simp: spec_seqno_def spec_accepts_def split: if_splits)
  next
    case (Suc j)
    have "unat (qs ! j) \<notin> fst (snd (spec_seqno w (unat q) a))"
      by (rule Cons.IH) (use Cons.prems Suc in \<open>auto simp: spec_seqno_def split: if_splits\<close>)
    with Suc show ?thesis by (auto simp: spec_seqno_def split: if_splits)
  qed
qed simp

lemma spec_accepted_once:
  assumes "\<forall>p\<in>fst a. p < snd a" "i < j" "j < length qs"
    and "fst (run_ops (\<lambda>q. spec_seqno w (unat q)) qs a) ! i"
    and "fst (run_ops (\<lambda>q. spec_seqno w (unat q)) qs a) ! j"
  shows "qs ! i \<noteq> qs ! j"
  using assms
proof (induction qs arbitrary: a i j)
  case (Cons q qs)
  let ?a = "snd (spec_seqno w (unat q) a)"
  have a: "\<forall>p\<in>fst ?a. p < snd ?a"
    using Cons.prems(1) by (auto simp: spec_seqno_def split: if_splits)
  obtain j' where j: "j = Suc j'" using Cons.prems(2) by (cases j) auto
  show ?case
  proof (cases i)
    case 0
    then have "unat q \<in> fst ?a" using Cons.prems(4) by (auto simp: spec_seqno_def split: if_splits)
    moreover have "unat (qs ! j') \<notin> fst ?a"
      by (rule spec_never_twice [OF _ _ a]) (use Cons.prems j in auto)
    ultimately show ?thesis using 0 j by auto
  next
    case (Suc i')
    then have "qs ! i' \<noteq> qs ! j'"
      by (intro Cons.IH [OF a]) (use Cons.prems j in auto)
    with Suc j show ?thesis by simp
  qed
qed simp

text \<open>C2: Anti-replay: under the same bound no two arrivals with the same sequence number are both
  accepted.\<close>

theorem no_seqno_accepted_twice:
  assumes "win \<noteq> 0" "unat k + 8 * unat win < 2 ^ 32"
    and "\<forall>q\<in>set qs. unat q + 8 * unat win + 1 < 2 ^ 32"
    and "i < j" "j < length qs"
    and "fst (run_ops receive_seqno qs (start_window win k)) ! i"
    and "fst (run_ops receive_seqno qs (start_window win k)) ! j"
  shows "qs ! i \<noteq> qs ! j"
proof -
  have "win_bits (start_window win k) = 8 * unat win" by (simp add: win_bits_def start_window_def)
  with receive_seqnos_refine [OF start_window_ok [OF assms(1,2)], of qs] assms(3)
  have eq: "fst (run_ops receive_seqno qs (start_window win k)) =
      fst (run_ops (\<lambda>q. spec_seqno (8 * unat win) (unat q)) qs ({0..<unat k}, unat k))" by simp
  show ?thesis
    by (rule spec_accepted_once [OF _ assms(4,5) assms(6,7) [unfolded eq]]) simp
qed

theorem no_seqno_accepted_twice_witness:
  "fst (run_ops receive_seqno [9, 4, 9, 4] (start_window 4 3)) = [True, True, False, False] \<and>
   (9 :: u32) \<noteq> 4"
proof
  show eval: "fst (run_ops receive_seqno [9, 4, 9, 4] (start_window 4 3)) = [True, True, False, False]"
    by (simp add: sptps_check_seqno_def window_step_def start_window_def count_seqno_def mark_late_def
        set_late_def clear_late_def is_late_def late_index_def late_bit_def upt_rec Let_def)
  show "(9 :: u32) \<noteq> 4"
    using no_seqno_accepted_twice [of 4 3 "[9, 4, 9, 4]" 0 1] eval by simp
qed

lemma far_ahead_accepted:
  "inseqno s + replaywin s * 8 \<le> q \<Longrightarrow> fst (sptps_check_seqno s q u)"
  by (simp add: sptps_check_seqno_def window_step_def Let_def)

text \<open>C21: Near the end of the counter the window does not protect: once \<open>inseqno\<close> is within a window
  of \<open>2 ^ 32\<close>, the sum \<open>inseqno + replaywin * 8\<close> wraps, and every number from the wrapped sum up is
  taken for a jump ahead and accepted, however often it comes, also those already received.\<close>

theorem replay_accepted_before_wrap:
  assumes "replaywin s \<noteq> 0" "inseqno s + replaywin s * 8 \<le> q" "q < inseqno s"
  shows "fst (sptps_check_seqno s q True) \<and>
    fst (sptps_check_seqno (snd (sptps_check_seqno s q True)) q True)"
proof -
  have "inseqno (snd (sptps_check_seqno s q True)) = inseqno s"
    "replaywin (snd (sptps_check_seqno s q True)) = replaywin s"
    using assms by (auto simp: sptps_check_seqno_def window_step_def count_seqno_def Let_def)
  with assms far_ahead_accepted [of s q] far_ahead_accepted [of "snd (sptps_check_seqno s q True)" q]
  show ?thesis by simp
qed

theorem replay_accepted_before_wrap_witness:
  "fst (run_ops receive_seqno [4294967290, 4294967290, 4294967290] (start_window 1024 4294967290)) =
     [True, True, True]"
proof -
  let ?s = "snd (sptps_check_seqno (start_window 1024 4294967290) 4294967290 True)"
  have s: "replaywin ?s = 1024" "inseqno ?s = 4294967291"
    by (simp_all add: sptps_check_seqno_def window_step_def start_window_def count_seqno_def Let_def)
  then have "fst (sptps_check_seqno ?s 4294967290 True) \<and>
      fst (sptps_check_seqno (snd (sptps_check_seqno ?s 4294967290 True)) 4294967290 True)"
    by (intro replay_accepted_before_wrap) (simp_all add: s)
  moreover have "fst (sptps_check_seqno (start_window 1024 4294967290) 4294967290 True)"
    by (simp add: sptps_check_seqno_def window_step_def start_window_def Let_def)
  ultimately show ?thesis by simp
qed

end
