(* ===== verification/Sptps.thy ===== *)
theory Sptps
  imports ReplayWindow
begin

text \<open>
  The SPTPS session of \<open>sptps.c\<close>: key exchange, records, and the stream and datagram receivers.

  The state \<open>sptps_t\<close> extends the replay window.  A nullable pointer is an option; what the two
  callbacks are given is appended to \<open>sent\<close> and \<open>delivered\<close>.  Cryptography (the vendored Ed25519 and
  ChaCha20-Poly1305 code), the random numbers and the answers of the callbacks are the fields of a
  record \<open>sptps_env\<close>, a parameter of every operation.

  An operation is a function \<open>sptps \<Rightarrow> (bool \<times> sptps) option\<close>: the C return value and the new state,
  or \<open>None\<close> where the code would follow a null pointer.  \<open>xzalloc\<close> and \<open>realloc\<close> do not fail.
\<close>

datatype sptps_state = SPTPS_KEX | SPTPS_SECONDARY_KEX | SPTPS_SIG | SPTPS_ACK

abbreviation SPTPS_VERSION :: u8 where "SPTPS_VERSION \<equiv> 0"
abbreviation SPTPS_HANDSHAKE :: u8 where "SPTPS_HANDSHAKE \<equiv> 128"

record sptps_env =
  env_encrypt :: "bytes \<Rightarrow> u32 \<Rightarrow> bytes \<Rightarrow> bytes"
  env_decrypt :: "bytes \<Rightarrow> u32 \<Rightarrow> bytes \<Rightarrow> bytes option"
  env_sign :: "bytes \<Rightarrow> bytes option"
  env_verify :: "bytes \<Rightarrow> bytes \<Rightarrow> bool"
  env_siglen :: nat
  env_keypair :: "nat \<Rightarrow> bytes \<times> bytes"
  env_nonce :: "nat \<Rightarrow> bytes"
  env_shared :: "bytes \<Rightarrow> bytes \<Rightarrow> bytes option"
  env_prf :: "bytes \<Rightarrow> bytes \<Rightarrow> bytes option"
  env_send_data :: "u8 \<Rightarrow> bytes \<Rightarrow> bool"
  env_receive_record :: "u8 \<Rightarrow> bytes \<Rightarrow> bool"

record sptps = replay_window +
  initiator :: bool
  datagram :: bool
  state :: sptps_state
  inbuf :: bytes
  reclen :: u16
  instate :: bool
  incipher :: "bytes option"
  outstate :: bool
  outcipher :: "bytes option"
  outseqno :: u32
  ecdh :: "bytes option"
  mykex :: "bytes option"
  hiskex :: "bytes option"
  skey :: "bytes option"
  label :: bytes
  random_draws :: nat
  sent :: "(u8 \<times> bytes) list"
  delivered :: "(u8 \<times> bytes) list"

type_synonym sptps_op = "sptps \<Rightarrow> (bool \<times> sptps) option"

text \<open>\<open>if(!m) return false; k\<close>\<close>

definition and_then :: "sptps_op \<Rightarrow> sptps_op \<Rightarrow> sptps_op" where
  "and_then m k s =
     (case m s of
        None \<Rightarrow> None
      | Some (ok, s') \<Rightarrow> if ok then k s' else Some (False, s'))"

definition fail :: sptps_op where "fail s = Some (False, s)"
definition succeed :: sptps_op where "succeed s = Some (True, s)"

definition send_data :: "sptps_env \<Rightarrow> u8 \<Rightarrow> bytes \<Rightarrow> sptps_op" where
  "send_data E type buffer s =
     Some (env_send_data E type buffer, s\<lparr>sent := sent s @ [(type, buffer)]\<rparr>)"

definition receive_record :: "sptps_env \<Rightarrow> u8 \<Rightarrow> bytes \<Rightarrow> sptps_op" where
  "receive_record E type buffer s =
     Some (env_receive_record E type buffer, s\<lparr>delivered := delivered s @ [(type, buffer)]\<rparr>)"

section \<open>Sending\<close>

text \<open>The length parameter is a \<open>uint16_t\<close>; the callers pass at most that many bytes.\<close>

definition send_record_priv_datagram :: "sptps_env \<Rightarrow> u8 \<Rightarrow> bytes \<Rightarrow> sptps_op" where
  "send_record_priv_datagram E type data s =
     (let seqno = outseqno s; s = s\<lparr>outseqno := outseqno s + 1\<rparr> in
      if outstate s then
        case outcipher s of
          None \<Rightarrow> None
        | Some k \<Rightarrow> send_data E type (be32 seqno @ env_encrypt E k seqno (type # data)) s
      else send_data E type (be32 seqno @ type # data) s)"

definition send_record_priv :: "sptps_env \<Rightarrow> u8 \<Rightarrow> bytes \<Rightarrow> sptps_op" where
  "send_record_priv E type data s =
     (if datagram s then send_record_priv_datagram E type data s else
      let seqno = outseqno s; s = s\<lparr>outseqno := outseqno s + 1\<rparr>;
          netlen = be16 (of_nat (length data)) in
      if outstate s then
        case outcipher s of
          None \<Rightarrow> None
        | Some k \<Rightarrow> send_data E type (netlen @ env_encrypt E k seqno (type # data)) s
      else send_data E type (netlen @ type # data) s)"

definition sptps_send_record :: "sptps_env \<Rightarrow> u8 \<Rightarrow> bytes \<Rightarrow> sptps_op" where
  "sptps_send_record E type data s =
     (if \<not> outstate s then fail s
      else if SPTPS_HANDSHAKE \<le> type then fail s
      else send_record_priv E type data s)"

section \<open>Key exchange\<close>

text \<open>A KEX record: version, 32 bytes of nonce, 32 bytes of public key.\<close>

abbreviation ECDH_SIZE :: nat where "ECDH_SIZE \<equiv> 32"
abbreviation KEX_SIZE :: nat where "KEX_SIZE \<equiv> 65"

definition kex_nonce :: "bytes \<Rightarrow> bytes" where "kex_nonce kex = take ECDH_SIZE (drop 1 kex)"
definition kex_pubkey :: "bytes \<Rightarrow> bytes" where "kex_pubkey kex = drop (1 + ECDH_SIZE) kex"

definition key0 :: "bytes \<Rightarrow> bytes" where "key0 k = take 64 k"
definition key1 :: "bytes \<Rightarrow> bytes" where "key1 k = drop 64 k"

definition send_kex :: "sptps_env \<Rightarrow> sptps_op" where
  "send_kex E s =
     (if mykex s \<noteq> None then fail s
      else let (private, pubkey) = env_keypair E (random_draws s);
               kex = SPTPS_VERSION # env_nonce E (random_draws s) @ pubkey;
               s = s\<lparr>mykex := Some kex, ecdh := Some private, random_draws := random_draws s + 1\<rparr>
           in send_record_priv E SPTPS_HANDSHAKE kex s)"

definition fill_msg :: "bool \<Rightarrow> bytes \<Rightarrow> bytes \<Rightarrow> sptps \<Rightarrow> bytes" where
  "fill_msg ini kex0 kex1 s = (if ini then 1 else 0) # kex0 @ kex1 @ label s"

definition send_sig :: "sptps_env \<Rightarrow> sptps_op" where
  "send_sig E s =
     (case (mykex s, hiskex s) of
        (Some my, Some his) \<Rightarrow>
          (case env_sign E (fill_msg (initiator s) my his s) of
             None \<Rightarrow> fail s
           | Some sig \<Rightarrow> send_record_priv E SPTPS_HANDSHAKE sig s)
      | _ \<Rightarrow> None)"

text \<open>\<open>"key expansion"\<close>\<close>

definition key_expansion :: bytes where
  "key_expansion = map of_char ''key expansion''"

definition generate_key_material :: "sptps_env \<Rightarrow> bytes \<Rightarrow> sptps_op" where
  "generate_key_material E shared s =
     (let s = (if outstate s then s else s\<lparr>incipher := None, outcipher := None\<rparr>) in
      case (mykex s, hiskex s) of
        (Some my, Some his) \<Rightarrow>
          (let seed = key_expansion @ kex_nonce (if initiator s then my else his) @
                 kex_nonce (if initiator s then his else my) @ label s
           in case env_prf E shared seed of
                None \<Rightarrow> fail (s\<lparr>skey := Some (replicate 128 0)\<rparr>)
              | Some both \<Rightarrow> succeed (s\<lparr>skey := Some both\<rparr>))
      | _ \<Rightarrow> None)"

definition send_ack :: "sptps_env \<Rightarrow> sptps_op" where
  "send_ack E s = send_record_priv E SPTPS_HANDSHAKE [] s"

definition receive_ack :: "bytes \<Rightarrow> sptps_op" where
  "receive_ack data s =
     (if data \<noteq> [] then fail s
      else case skey s of
             None \<Rightarrow> None
           | Some k \<Rightarrow>
               succeed (s\<lparr>incipher := Some (if initiator s then key0 k else key1 k),
                 skey := None, instate := True\<rparr>))"

definition receive_kex :: "sptps_env \<Rightarrow> bytes \<Rightarrow> sptps_op" where
  "receive_kex E data s =
     (if length data \<noteq> KEX_SIZE then fail s
      else if hd data \<noteq> SPTPS_VERSION then fail s
      else if hiskex s \<noteq> None then fail s
      else let s = s\<lparr>hiskex := Some data\<rparr> in
           if initiator s then send_sig E s else succeed s)"

text \<open>
  \<open>receive_sig\<close>, in the order of the code: verify, shared secret (which frees the ECDH key), key
  material, the responder's own signature, and, in a rekey, the acknowledgement under the old key.
\<close>

definition set_outcipher :: sptps_op where
  "set_outcipher s =
     (case skey s of
        None \<Rightarrow> None
      | Some k \<Rightarrow> succeed (s\<lparr>outcipher := Some (if initiator s then key1 k else key0 k)\<rparr>))"

definition finish_sig :: "sptps_env \<Rightarrow> sptps_op" where
  "finish_sig E s =
     (let s = s\<lparr>mykex := None, hiskex := None\<rparr> in
      and_then (if outstate s then send_ack E else succeed) set_outcipher s)"

definition receive_sig :: "sptps_env \<Rightarrow> bytes \<Rightarrow> sptps_op" where
  "receive_sig E data s =
     (if length data \<noteq> env_siglen E then fail s
      else case (hiskex s, mykex s) of
        (Some his, Some my) \<Rightarrow>
          if \<not> env_verify E (fill_msg (\<not> initiator s) his my s) data then fail s
          else (case ecdh s of
             None \<Rightarrow> None
           | Some private \<Rightarrow>
               (case env_shared E private (kex_pubkey his) of
                  None \<Rightarrow> fail s
                | Some shared \<Rightarrow>
                    and_then (generate_key_material E shared)
                      (and_then (if initiator s then succeed else send_sig E) (finish_sig E))
                      (s\<lparr>ecdh := None\<rparr>)))
      | _ \<Rightarrow> None)"

definition sptps_force_kex :: "sptps_env \<Rightarrow> sptps_op" where
  "sptps_force_kex E s =
     (if \<not> outstate s \<or> state s \<noteq> SPTPS_SECONDARY_KEX then fail s
      else send_kex E (s\<lparr>state := SPTPS_KEX\<rparr>))"

definition goto :: "sptps_state \<Rightarrow> sptps_op" where
  "goto st s = succeed (s\<lparr>state := st\<rparr>)"

text \<open>\<open>receive_record(handle, SPTPS_HANDSHAKE, NULL, 0)\<close>, whose result is ignored.\<close>

definition handshake_done :: "sptps_env \<Rightarrow> sptps_op" where
  "handshake_done E s =
     (case receive_record E SPTPS_HANDSHAKE [] s of
        None \<Rightarrow> None
      | Some (_, s) \<Rightarrow> goto SPTPS_SECONDARY_KEX s)"

definition receive_handshake :: "sptps_env \<Rightarrow> bytes \<Rightarrow> sptps_op" where
  "receive_handshake E data s =
     (case state s of
        SPTPS_SECONDARY_KEX \<Rightarrow>
          if data = [] then succeed s
          else and_then (send_kex E) (and_then (receive_kex E data) (goto SPTPS_SIG)) s
      | SPTPS_KEX \<Rightarrow> and_then (receive_kex E data) (goto SPTPS_SIG) s
      | SPTPS_SIG \<Rightarrow>
          and_then (receive_sig E data)
            (\<lambda>s. if outstate s then goto SPTPS_ACK s
                 else and_then (receive_ack []) (handshake_done E) (s\<lparr>outstate := True\<rparr>)) s
      | SPTPS_ACK \<Rightarrow> and_then (receive_ack data) (handshake_done E) s)"

section \<open>Receiving\<close>

text \<open>A length handed on as a \<open>uint16_t\<close>.\<close>

definition cut16 :: "bytes \<Rightarrow> bytes" where
  "cut16 data = take (length data mod 65536) data"

text \<open>The tail both receivers share: application records and handshake records.\<close>

definition sptps_dispatch :: "sptps_env \<Rightarrow> u8 \<Rightarrow> bytes \<Rightarrow> sptps_op" where
  "sptps_dispatch E type data s =
     (if type < SPTPS_HANDSHAKE then
        if \<not> instate s then fail s else receive_record E type (cut16 data) s
      else if type = SPTPS_HANDSHAKE then receive_handshake E (cut16 data) s
      else fail s)"

definition net_seqno :: "bytes \<Rightarrow> u32" where
  "net_seqno data = of_nat (be_val (take 4 data))"

definition sptps_verify_datagram :: "sptps_env \<Rightarrow> bytes \<Rightarrow> sptps_op" where
  "sptps_verify_datagram E data s =
     (if \<not> instate s \<or> length data < 21 then fail s
      else if \<not> fst (sptps_check_seqno s (net_seqno data) False) then fail s
      else case incipher s of
             None \<Rightarrow> None
           | Some k \<Rightarrow> Some (env_decrypt E k (net_seqno data) (drop 4 data) \<noteq> None, s))"

text \<open>
  A decrypted datagram: a late or repeated one is ignored with success.  The plaintext of a datagram
  of at least 21 bytes is not empty.
\<close>

definition datagram_record :: "sptps_env \<Rightarrow> u32 \<Rightarrow> bytes \<Rightarrow> sptps_op" where
  "datagram_record E seqno buffer s =
     (case sptps_check_seqno s seqno True of
        (ok, s) \<Rightarrow>
          if \<not> ok then succeed s
          else case buffer of
                 [] \<Rightarrow> None
               | type # data \<Rightarrow> sptps_dispatch E type data s)"

text \<open>
  The first arrival under the new key stands for a lost acknowledgement: in state \<open>SPTPS_ACK\<close> a
  datagram that the old key does not open is tried with the new one.
\<close>

definition sptps_receive_data_datagram :: "sptps_env \<Rightarrow> bytes \<Rightarrow> sptps_op" where
  "sptps_receive_data_datagram E data s =
     (if length data < (if instate s then 21 else 5) then fail s
      else let seqno = net_seqno data; data = drop 4 data in
      if \<not> instate s then
        if seqno \<noteq> inseqno s then fail s
        else let s = s\<lparr>inseqno := seqno + 1\<rparr> in
             if hd data \<noteq> SPTPS_HANDSHAKE then fail s
             else receive_handshake E (cut16 (tl data)) s
      else case incipher s of
        None \<Rightarrow> None
      | Some k \<Rightarrow>
          (case env_decrypt E k seqno data of
             Some buffer \<Rightarrow> datagram_record E seqno buffer s
           | None \<Rightarrow>
               (case (state s, skey s) of
                  (SPTPS_ACK, Some nk) \<Rightarrow>
                    (case env_decrypt E (if initiator s then key0 nk else key1 nk) seqno data of
                       None \<Rightarrow> fail s
                     | Some buffer \<Rightarrow>
                         and_then (receive_ack [])
                           (and_then (handshake_done E) (datagram_record E seqno buffer)) s)
                | _ \<Rightarrow> fail s)))"

text \<open>
  The stream receiver.  \<open>inbuf\<close> holds the first \<open>buflen\<close> bytes of the record being received.  The
  result is the number of bytes consumed, 0 for an error.
\<close>

definition stream_need :: "sptps \<Rightarrow> nat" where
  "stream_need s = unat (reclen s) + (if instate s then 19 else 3)"

definition stream_record :: "sptps_env \<Rightarrow> sptps_op" where
  "stream_record E s =
     (let seqno = inseqno s; n = unat (reclen s); s = s\<lparr>inseqno := inseqno s + 1\<rparr> in
      and_then
        (\<lambda>s. if instate s then
               (case incipher s of
                  None \<Rightarrow> None
                | Some k \<Rightarrow>
                    (case env_decrypt E k seqno (take (n + 17) (drop 2 (inbuf s))) of
                       None \<Rightarrow> fail s
                     | Some plain \<Rightarrow>
                         succeed (s\<lparr>inbuf := take 2 (inbuf s) @ plain @ drop (n + 3) (inbuf s)\<rparr>)))
             else succeed s)
        (\<lambda>s. let s = s\<lparr>inbuf := (inbuf s)[n + 3 := 0]\<rparr> in
             sptps_dispatch E (inbuf s ! 2) (take n (drop 3 (inbuf s))) s) s)"

definition end_of_record :: "sptps_env \<Rightarrow> nat \<Rightarrow> sptps \<Rightarrow> (nat \<times> sptps) option" where
  "end_of_record E total_read s =
     (case stream_record E s of
        None \<Rightarrow> None
      | Some (ok, s) \<Rightarrow> if ok then Some (total_read, s\<lparr>inbuf := []\<rparr>) else Some (0, s))"

definition receive_body :: "sptps_env \<Rightarrow> nat \<Rightarrow> bytes \<Rightarrow> sptps \<Rightarrow> (nat \<times> sptps) option" where
  "receive_body E total_read data s =
     (let need = stream_need s;
          toread = (if need < length (inbuf s) then length data
                    else min (need - length (inbuf s)) (length data));
          s = s\<lparr>inbuf := inbuf s @ take toread data\<rparr>
      in if length (inbuf s) < need then Some (total_read + toread, s)
         else end_of_record E (total_read + toread) s)"

definition sptps_receive_data :: "sptps_env \<Rightarrow> bytes \<Rightarrow> sptps \<Rightarrow> (nat \<times> sptps) option" where
  "sptps_receive_data E data s =
     (if datagram s then
        case sptps_receive_data_datagram E data s of
          None \<Rightarrow> None
        | Some (ok, s) \<Rightarrow> Some (if ok then length data else 0, s)
      else if length (inbuf s) < 2 then
        let toread = min (2 - length (inbuf s)) (length data);
            s = s\<lparr>inbuf := inbuf s @ take toread data\<rparr>; data = drop toread data
        in if length (inbuf s) < 2 then Some (toread, s)
           else let s = s\<lparr>reclen := of_nat (be_val (inbuf s))\<rparr> in
                if data = [] then Some (toread, s) else receive_body E toread data s
      else receive_body E 0 data s)"

text \<open>The loop of \<open>receive_meta_bytes\<close> over the bytes of a stream.\<close>

function sptps_feed :: "sptps_env \<Rightarrow> bytes \<Rightarrow> sptps \<Rightarrow> (bool \<times> sptps) option" where
  "sptps_feed E data s =
     (if data = [] then Some (True, s)
      else case sptps_receive_data E data s of
             None \<Rightarrow> None
           | Some (n, s') \<Rightarrow> if n = 0 then Some (False, s') else sptps_feed E (drop n data) s')"
  by auto
termination by (relation "measure (\<lambda>(E, data, s). length data)") auto

declare sptps_feed.simps [simp del]

definition sptps_start :: "sptps_env \<Rightarrow> bool \<Rightarrow> bool \<Rightarrow> u32 \<Rightarrow> bytes \<Rightarrow> (bool \<times> sptps) option" where
  "sptps_start E ini dgram win lab =
     send_kex E
       \<lparr>inseqno = 0, received = 0, replaywin = win, farfuture = 0, late = replicate (unat win) 0,
        initiator = ini, datagram = dgram, state = SPTPS_KEX, inbuf = [], reclen = 0,
        instate = False, incipher = None, outstate = False, outcipher = None, outseqno = 0,
        ecdh = None, mykex = None, hiskex = None, skey = None, label = lab, random_draws = 0,
        sent = [], delivered = []\<rparr>"

end
