(* ===== verification/SptpsProps.thy ===== *)
theory SptpsProps
  imports Sptps
begin

text \<open>
  Properties of the SPTPS session: no null pointer is followed, authentication precedes data, the
  handshake of two honest parties ends with matching keys, records arrive as they were sent, and
  the stream receiver does not depend on how the stream is cut.
\<close>

section \<open>What the operations change\<close>

lemmas sptps_ops = and_then_def fail_def succeed_def send_data_def receive_record_def
  send_record_priv_datagram_def send_record_priv_def send_kex_def send_sig_def
  generate_key_material_def send_ack_def receive_ack_def receive_kex_def set_outcipher_def
  finish_sig_def receive_sig_def goto_def handshake_done_def Let_def

lemma check_seqno_same [simp]:
  "initiator (snd (sptps_check_seqno s q u)) = initiator s"
  "datagram (snd (sptps_check_seqno s q u)) = datagram s"
  "state (snd (sptps_check_seqno s q u)) = state s"
  "inbuf (snd (sptps_check_seqno s q u)) = inbuf s"
  "reclen (snd (sptps_check_seqno s q u)) = reclen s"
  "instate (snd (sptps_check_seqno s q u)) = instate s"
  "incipher (snd (sptps_check_seqno s q u)) = incipher s"
  "outstate (snd (sptps_check_seqno s q u)) = outstate s"
  "outcipher (snd (sptps_check_seqno s q u)) = outcipher s"
  "outseqno (snd (sptps_check_seqno s q u)) = outseqno s"
  "ecdh (snd (sptps_check_seqno s q u)) = ecdh s"
  "mykex (snd (sptps_check_seqno s q u)) = mykex s"
  "hiskex (snd (sptps_check_seqno s q u)) = hiskex s"
  "skey (snd (sptps_check_seqno s q u)) = skey s"
  "label (snd (sptps_check_seqno s q u)) = label s"
  "sent (snd (sptps_check_seqno s q u)) = sent s"
  "delivered (snd (sptps_check_seqno s q u)) = delivered s"
  by (auto simp: sptps_check_seqno_def count_seqno_def Let_def split: option.splits)

section \<open>No null pointer is followed\<close>

text \<open>
  The conditions: the cryptographic routines succeed (those of the daemon cannot fail), an opened
  record is 16 bytes shorter than its ciphertext, and the send callback takes every record.
\<close>

definition env_total :: "sptps_env \<Rightarrow> bool" where
  "env_total E \<longleftrightarrow>
     (\<forall>m. env_sign E m \<noteq> None) \<and> (\<forall>a b. env_shared E a b \<noteq> None) \<and>
     (\<forall>a b. env_prf E a b \<noteq> None) \<and> (\<forall>t b. env_send_data E t b) \<and>
     (\<forall>k q c p. env_decrypt E k q c = Some p \<longrightarrow> length c = length p + 16)"

text \<open>Which pointers are set in which state.\<close>

definition sptps_ok :: "sptps \<Rightarrow> bool" where
  "sptps_ok s \<longleftrightarrow>
     instate s = outstate s \<and>
     (outstate s \<longrightarrow> incipher s \<noteq> None \<and> outcipher s \<noteq> None) \<and>
     (ecdh s = None \<longleftrightarrow> mykex s = None) \<and>
     (case state s of
        SPTPS_KEX \<Rightarrow> mykex s \<noteq> None \<and> hiskex s = None \<and> skey s = None
      | SPTPS_SIG \<Rightarrow> mykex s \<noteq> None \<and> hiskex s \<noteq> None \<and> skey s = None
      | SPTPS_ACK \<Rightarrow> outstate s \<and> mykex s = None \<and> hiskex s = None \<and> skey s \<noteq> None
      | SPTPS_SECONDARY_KEX \<Rightarrow> outstate s \<and> hiskex s = None \<and> skey s = None)"

text \<open>The bytes of a record.\<close>

definition record_wire :: "sptps_env \<Rightarrow> u8 \<Rightarrow> bytes \<Rightarrow> sptps \<Rightarrow> bytes" where
  "record_wire E type data s =
     (if datagram s then be32 (outseqno s) else be16 (of_nat (length data))) @
     (if outstate s then env_encrypt E (the (outcipher s)) (outseqno s) (type # data)
      else type # data)"

definition put_record :: "sptps_env \<Rightarrow> u8 \<Rightarrow> bytes \<Rightarrow> sptps \<Rightarrow> sptps" where
  "put_record E type data s =
     s\<lparr>outseqno := outseqno s + 1, sent := sent s @ [(type, record_wire E type data s)]\<rparr>"

lemma send_record_eq:
  "outstate s \<longrightarrow> outcipher s \<noteq> None \<Longrightarrow>
   send_record_priv E type data s =
     Some (env_send_data E type (record_wire E type data s), put_record E type data s)"
  by (auto simp: send_record_priv_def send_record_priv_datagram_def send_data_def record_wire_def
      put_record_def Let_def)

lemma put_record_same [simp]:
  "inseqno (put_record E t d s) = inseqno s" "replaywin (put_record E t d s) = replaywin s"
  "late (put_record E t d s) = late s" "received (put_record E t d s) = received s"
  "initiator (put_record E t d s) = initiator s" "datagram (put_record E t d s) = datagram s"
  "state (put_record E t d s) = state s" "inbuf (put_record E t d s) = inbuf s"
  "reclen (put_record E t d s) = reclen s" "instate (put_record E t d s) = instate s"
  "incipher (put_record E t d s) = incipher s" "outstate (put_record E t d s) = outstate s"
  "outcipher (put_record E t d s) = outcipher s" "ecdh (put_record E t d s) = ecdh s"
  "mykex (put_record E t d s) = mykex s" "hiskex (put_record E t d s) = hiskex s"
  "skey (put_record E t d s) = skey s" "label (put_record E t d s) = label s"
  "random_draws (put_record E t d s) = random_draws s"
  "delivered (put_record E t d s) = delivered s"
  "outseqno (put_record E t d s) = outseqno s + 1"
  "sent (put_record E t d s) = sent s @ [(t, record_wire E t d s)]"
  by (simp_all add: put_record_def)

lemma total_cases:
  assumes "env_total E"
  shows "(case env_sign E m of None \<Rightarrow> a | Some x \<Rightarrow> f x) = f (the (env_sign E m))"
    and "(case env_shared E x y of None \<Rightarrow> a | Some x \<Rightarrow> f x) = f (the (env_shared E x y))"
    and "(case env_prf E x y of None \<Rightarrow> a' | Some x \<Rightarrow> g x) = g (the (env_prf E x y))"
    and "env_send_data E t b"
proof -
  obtain y1 y2 y3 where "env_sign E m = Some y1" "env_shared E x y = Some y2" "env_prf E x y = Some y3"
    using assms unfolding env_total_def by blast
  then show "(case env_sign E m of None \<Rightarrow> a | Some x \<Rightarrow> f x) = f (the (env_sign E m))"
    "(case env_shared E x y of None \<Rightarrow> a | Some x \<Rightarrow> f x) = f (the (env_shared E x y))"
    "(case env_prf E x y of None \<Rightarrow> a' | Some x \<Rightarrow> g x) = g (the (env_prf E x y))"
    by simp_all
  show "env_send_data E t b" using assms by (simp add: env_total_def)
qed

text \<open>A state for which sending cannot fail.\<close>

definition out_ok :: "sptps \<Rightarrow> bool" where
  "out_ok s \<longleftrightarrow> (outstate s \<longrightarrow> outcipher s \<noteq> None)"

lemma send_total: "env_total E \<Longrightarrow> out_ok s \<Longrightarrow>
    send_record_priv E type data s = Some (True, put_record E type data s)"
  by (simp add: send_record_eq total_cases out_ok_def)

text \<open>A run that follows no null pointer and ends in a result and state with \<open>Q\<close>.\<close>

definition runs_to :: "(bool \<times> sptps) option \<Rightarrow> (bool \<Rightarrow> sptps \<Rightarrow> bool) \<Rightarrow> bool" where
  "runs_to r Q \<longleftrightarrow> (case r of None \<Rightarrow> False | Some (ok, s) \<Rightarrow> Q ok s)"

lemma runs_to_simps [simp]: "runs_to (Some (ok, s)) Q = Q ok s" "runs_to None Q = False"
  by (simp_all add: runs_to_def)

lemma runs_toE: "runs_to r Q \<Longrightarrow> (\<And>ok s. r = Some (ok, s) \<Longrightarrow> Q ok s \<Longrightarrow> P) \<Longrightarrow> P"
  by (auto simp: runs_to_def split: option.splits)

lemma runs_to_and_then:
  "runs_to (m s) (\<lambda>ok s'. if ok then runs_to (k s') Q else Q False s') \<Longrightarrow> runs_to (and_then m k s) Q"
  by (auto simp: and_then_def runs_to_def split: option.splits if_splits)

lemma runs_to_mono: "runs_to r P \<Longrightarrow> (\<And>ok s. P ok s \<Longrightarrow> Q ok s) \<Longrightarrow> runs_to r Q"
  by (auto simp: runs_to_def split: option.splits)

text \<open>The ciphers, flags and state stay.\<close>

definition same_session :: "sptps \<Rightarrow> sptps \<Rightarrow> bool" where
  "same_session s s' \<longleftrightarrow> instate s' = instate s \<and> outstate s' = outstate s \<and>
     incipher s' = incipher s \<and> outcipher s' = outcipher s \<and> state s' = state s \<and> skey s' = skey s"

lemma send_kex_runs:
  assumes "env_total E" "out_ok s"
  shows "runs_to (send_kex E s) (\<lambda>ok s'. same_session s s' \<and> hiskex s' = hiskex s \<and>
    (if ok then mykex s = None \<and> mykex s' \<noteq> None \<and> ecdh s' \<noteq> None else s' = s \<and> mykex s \<noteq> None))"
  using assms
  by (simp add: send_kex_def fail_def Let_def send_total out_ok_def same_session_def split: prod.split)

lemma receive_kex_runs:
  assumes "env_total E" "out_ok s" "mykex s \<noteq> None"
  shows "runs_to (receive_kex E data s) (\<lambda>ok s'. same_session s s' \<and> mykex s' = mykex s \<and>
    ecdh s' = ecdh s \<and> (if ok then hiskex s = None \<and> hiskex s' \<noteq> None else s' = s))"
  using assms
  by (cases "mykex s") (simp_all add: receive_kex_def send_sig_def fail_def succeed_def Let_def
      send_total out_ok_def total_cases same_session_def)

lemma receive_sig_runs:
  assumes E: "env_total E" and s: "out_ok s" "mykex s \<noteq> None" "hiskex s \<noteq> None" "ecdh s \<noteq> None"
  shows "runs_to (receive_sig E data s) (\<lambda>ok s'.
    instate s' = instate s \<and> outstate s' = outstate s \<and> state s' = state s \<and>
    (outstate s \<longrightarrow> incipher s' = incipher s) \<and>
    (if ok then mykex s' = None \<and> hiskex s' = None \<and> skey s' \<noteq> None \<and> outcipher s' \<noteq> None \<and> ecdh s' = None
     else s' = s))"
proof -
  obtain my his x where "mykex s = Some my" "hiskex s = Some his" "ecdh s = Some x" using s by auto
  then show ?thesis
    using s(1)
    by (cases "outstate s"; cases "initiator s")
      (simp_all add: receive_sig_def generate_key_material_def send_sig_def finish_sig_def
        set_outcipher_def send_ack_def and_then_def fail_def succeed_def Let_def send_total [OF E]
        out_ok_def total_cases [OF E])
qed

lemma receive_handshake_runs:
  assumes E: "env_total E" and s: "sptps_ok s"
  shows "runs_to (receive_handshake E data s) (\<lambda>ok s'. sptps_ok s')"
proof -
  have out: "out_ok s" using s by (simp add: sptps_ok_def out_ok_def)
  show ?thesis
  proof (cases "state s")
    case SPTPS_KEX
    then have "mykex s \<noteq> None" using s by (simp add: sptps_ok_def)
    with SPTPS_KEX s show ?thesis
      unfolding receive_handshake_def
      by (simp, intro runs_to_and_then runs_to_mono [OF receive_kex_runs [OF E out]])
        (auto simp: goto_def succeed_def sptps_ok_def same_session_def)
  next
    case SPTPS_SIG
    then have "mykex s \<noteq> None" "hiskex s \<noteq> None" "ecdh s \<noteq> None" using s by (auto simp: sptps_ok_def)
    with SPTPS_SIG s show ?thesis
      unfolding receive_handshake_def
      by (simp, intro runs_to_and_then runs_to_mono [OF receive_sig_runs [OF E out]])
        (auto simp: goto_def succeed_def sptps_ok_def receive_ack_def handshake_done_def
          receive_record_def and_then_def)
  next
    case SPTPS_ACK
    with s show ?thesis
      by (auto simp: receive_handshake_def and_then_def goto_def succeed_def sptps_ok_def
          receive_ack_def handshake_done_def receive_record_def fail_def)
  next
    case SPTPS_SECONDARY_KEX
    have kex: "runs_to (receive_kex E data s1) (\<lambda>ok s'. if ok then runs_to (goto SPTPS_SIG s') (\<lambda>ok. sptps_ok) else sptps_ok s')"
      if "same_session s s1" "hiskex s1 = hiskex s" "mykex s1 \<noteq> None" "ecdh s1 \<noteq> None" for s1
      using that s SPTPS_SECONDARY_KEX
      by (intro runs_to_mono [OF receive_kex_runs [OF E]])
        (auto simp: goto_def succeed_def sptps_ok_def same_session_def out_ok_def)
    show ?thesis
      using SPTPS_SECONDARY_KEX s
      unfolding receive_handshake_def
      by (auto simp: succeed_def intro!: runs_to_and_then runs_to_mono [OF send_kex_runs [OF E out]] kex)
  qed
qed

lemma sptps_ok_same [simp]:
  "sptps_ok (snd (sptps_check_seqno s q u)) = sptps_ok s"
  "sptps_ok (s\<lparr>inbuf := b\<rparr>) = sptps_ok s" "sptps_ok (s\<lparr>reclen := r\<rparr>) = sptps_ok s"
  "sptps_ok (s\<lparr>inseqno := i\<rparr>) = sptps_ok s" "sptps_ok (s\<lparr>delivered := d\<rparr>) = sptps_ok s"
  "sptps_ok (put_record E t x s) = sptps_ok s"
  by (simp_all add: sptps_ok_def split: sptps_state.split)

lemma sptps_dispatch_runs:
  "env_total E \<Longrightarrow> sptps_ok s \<Longrightarrow> runs_to (sptps_dispatch E type data s) (\<lambda>ok. sptps_ok)"
  by (auto simp: sptps_dispatch_def fail_def receive_record_def intro: receive_handshake_runs)

lemma datagram_record_runs:
  "env_total E \<Longrightarrow> sptps_ok s \<Longrightarrow> buffer \<noteq> [] \<Longrightarrow>
   runs_to (datagram_record E seqno buffer s) (\<lambda>ok. sptps_ok)"
proof -
  assume E: "env_total E" and s: "sptps_ok s" and b: "buffer \<noteq> []"
  obtain ok t where t: "sptps_check_seqno s seqno True = (ok, t)" by fastforce
  with sptps_ok_same(1) [of s seqno True] s have "sptps_ok t" by (simp del: sptps_ok_same)
  with b t show ?thesis
    by (cases buffer) (auto simp: datagram_record_def succeed_def intro: sptps_dispatch_runs [OF E])
qed

lemma opened_not_empty:
  "env_total E \<Longrightarrow> env_decrypt E k q c = Some p \<Longrightarrow> 17 \<le> length c \<Longrightarrow> p \<noteq> []"
proof -
  assume "env_total E" "env_decrypt E k q c = Some p" "17 \<le> length c"
  moreover from this have "length c = length p + 16" unfolding env_total_def by blast
  ultimately show "p \<noteq> []" by auto
qed

lemma receive_datagram_runs:
  assumes E: "env_total E" and s: "sptps_ok s"
  shows "runs_to (sptps_receive_data_datagram E data s) (\<lambda>ok. sptps_ok)"
proof (cases "instate s \<and> 21 \<le> length data")
  case False
  then show ?thesis
    using receive_handshake_runs [OF E, of "s\<lparr>inseqno := net_seqno data + 1\<rparr>"] s
    by (auto simp: sptps_receive_data_datagram_def fail_def Let_def)
next
  case True
  then obtain k where k: "incipher s = Some k" using s by (auto simp: sptps_ok_def)
  have rec: "runs_to (datagram_record E q b t) (\<lambda>ok. sptps_ok)"
    if "env_decrypt E x q (drop 4 data) = Some b" "sptps_ok t" for x q b t
    by (rule datagram_record_runs [OF E that(2) opened_not_empty [OF E that(1)]]) (use True in auto)
  show ?thesis
  proof (cases "env_decrypt E k (net_seqno data) (drop 4 data)")
    case (Some b)
    with True k rec s show ?thesis by (simp add: sptps_receive_data_datagram_def Let_def)
  next
    case None
    show ?thesis
    proof (cases "state s = SPTPS_ACK")
      case False
      with None True k s show ?thesis
        by (cases "state s") (auto simp: sptps_receive_data_datagram_def Let_def fail_def)
    next
      case ack: True
      then obtain nk where nk: "skey s = Some nk" using s by (auto simp: sptps_ok_def)
      let ?k = "if initiator s then key0 nk else key1 nk"
      let ?t = "s\<lparr>incipher := Some ?k, skey := None, instate := True,
        delivered := delivered s @ [(SPTPS_HANDSHAKE, [])], state := SPTPS_SECONDARY_KEX\<rparr>"
      have t: "sptps_ok ?t" using s ack by (auto simp: sptps_ok_def)
      show ?thesis
        using True k None ack nk rec [of ?k "net_seqno data" _ ?t] t s
        by (auto simp: sptps_receive_data_datagram_def Let_def fail_def and_then_def receive_ack_def
            succeed_def handshake_done_def receive_record_def goto_def split: option.split)
    qed
  qed
qed

lemma stream_record_runs:
  assumes E: "env_total E" and s: "sptps_ok s"
  shows "runs_to (stream_record E s) (\<lambda>ok. sptps_ok)"
proof -
  have "incipher s \<noteq> None" if "instate s" using s that by (simp add: sptps_ok_def)
  with s show ?thesis
    unfolding stream_record_def Let_def
    by (intro runs_to_and_then)
      (auto simp: fail_def succeed_def intro!: sptps_dispatch_runs [OF E] split: option.split)
qed

text \<open>A run of the receiver, which answers a length.\<close>

definition reads_ok :: "(nat \<times> sptps) option \<Rightarrow> bool" where
  "reads_ok r \<longleftrightarrow> (case r of None \<Rightarrow> False | Some (n, s) \<Rightarrow> sptps_ok s)"

lemma end_of_record_reads:
  assumes "env_total E" "sptps_ok s"
  shows "reads_ok (end_of_record E n s)"
  using stream_record_runs [OF assms]
  by (auto simp: end_of_record_def reads_ok_def runs_to_def split: option.splits)

lemma receive_body_reads:
  assumes E: "env_total E" and s: "sptps_ok s"
  shows "reads_ok (receive_body E total_read data s)"
proof -
  have "reads_ok (Some (n, s\<lparr>inbuf := b\<rparr>)) \<and> reads_ok (end_of_record E n (s\<lparr>inbuf := b\<rparr>))" for n b
    using s end_of_record_reads [OF E, of "s\<lparr>inbuf := b\<rparr>"] by (simp add: reads_ok_def)
  then show ?thesis unfolding receive_body_def Let_def by (simp split: if_split)
qed

lemma receive_data_reads:
  assumes E: "env_total E" and s: "sptps_ok s"
  shows "reads_ok (sptps_receive_data E data s)"
proof (cases "datagram s")
  case True
  with receive_datagram_runs [OF assms, of data] show ?thesis
    by (auto simp: sptps_receive_data_def reads_ok_def runs_to_def split: option.splits)
next
  case False
  have body: "reads_ok (receive_body E n d t)" if "sptps_ok t" for n d t
    by (rule receive_body_reads [OF E that])
  have skip: "reads_ok (Some (n, t))" if "sptps_ok t" for n t
    using that by (simp add: reads_ok_def)
  show ?thesis
    using False s by (simp add: sptps_receive_data_def Let_def body skip)
qed

lemma ok_out_ok: "sptps_ok s \<Longrightarrow> out_ok s"
  by (simp add: sptps_ok_def out_ok_def)

text \<open>The calls a user of the library makes.\<close>

datatype sptps_call =
    Call_receive bytes
  | Call_verify bytes
  | Call_send u8 bytes
  | Call_force_kex

definition sptps_call :: "sptps_env \<Rightarrow> sptps_call \<Rightarrow> sptps \<Rightarrow> (nat \<times> sptps) option" where
  "sptps_call E c s =
     (case c of
        Call_receive data \<Rightarrow> sptps_receive_data E data s
      | Call_verify data \<Rightarrow> map_option (map_prod of_bool id) (sptps_verify_datagram E data s)
      | Call_send type data \<Rightarrow> map_option (map_prod of_bool id) (sptps_send_record E type data s)
      | Call_force_kex \<Rightarrow> map_option (map_prod of_bool id) (sptps_force_kex E s))"

lemma runs_reads: "runs_to r (\<lambda>ok. sptps_ok) \<Longrightarrow> reads_ok (map_option (map_prod of_bool id) r)"
  by (auto simp: runs_to_def reads_ok_def split: option.splits)

lemma sptps_call_reads:
  assumes E: "env_total E" and s: "sptps_ok s"
  shows "reads_ok (sptps_call E c s)"
proof (cases c)
  case (Call_receive data)
  with receive_data_reads [OF assms] show ?thesis by (simp add: sptps_call_def)
next
  case (Call_verify data)
  have "runs_to (sptps_verify_datagram E data s) (\<lambda>ok. sptps_ok)"
    using s by (auto simp: sptps_verify_datagram_def fail_def sptps_ok_def split: option.split)
  with Call_verify show ?thesis by (simp add: sptps_call_def runs_reads)
next
  case (Call_send type data)
  have "runs_to (sptps_send_record E type data s) (\<lambda>ok. sptps_ok)"
    using s by (auto simp: sptps_send_record_def fail_def send_total [OF E ok_out_ok])
  with Call_send show ?thesis by (simp add: sptps_call_def runs_reads)
next
  case Call_force_kex
  have "runs_to (sptps_force_kex E s) (\<lambda>ok. sptps_ok)"
  proof (cases "outstate s \<and> state s = SPTPS_SECONDARY_KEX")
    case True
    let ?t = "s\<lparr>state := SPTPS_KEX\<rparr>"
    have "runs_to (send_kex E ?t) (\<lambda>ok. sptps_ok)"
      by (rule runs_to_mono [OF send_kex_runs [OF E, of ?t]])
        (use s True in \<open>auto simp: sptps_ok_def same_session_def out_ok_def split: if_splits\<close>)
    with True show ?thesis by (simp add: sptps_force_kex_def)
  qed (use s in \<open>auto simp: sptps_force_kex_def fail_def\<close>)
  with Call_force_kex show ?thesis by (simp add: sptps_call_def runs_reads)
qed

fun sptps_run :: "sptps_env \<Rightarrow> sptps_call list \<Rightarrow> sptps \<Rightarrow> sptps option" where
  "sptps_run E [] s = Some s"
| "sptps_run E (c # cs) s =
     (case sptps_call E c s of None \<Rightarrow> None | Some (n, s') \<Rightarrow> sptps_run E cs s')"

lemma sptps_run_ok: "env_total E \<Longrightarrow> sptps_ok s \<Longrightarrow> \<exists>s'. sptps_run E cs s = Some s' \<and> sptps_ok s'"
proof (induction cs arbitrary: s)
  case (Cons c cs)
  with sptps_call_reads [OF Cons.prems, of c] show ?case
    by (auto simp: reads_ok_def split: option.splits)
qed simp

lemma sptps_start_ok:
  assumes "env_total E"
  shows "\<exists>s. sptps_start E ini dgram win lab = Some (True, s) \<and> sptps_ok s \<and> mykex s \<noteq> None"
  using assms
  by (auto simp: sptps_start_def send_kex_def Let_def send_total out_ok_def sptps_ok_def split: prod.split)

section \<open>Authentication comes first\<close>

text \<open>Partial correctness: whatever the environment does, a run that ends, ends with \<open>Q\<close>.\<close>

definition whenever :: "(bool \<times> sptps) option \<Rightarrow> (bool \<Rightarrow> sptps \<Rightarrow> bool) \<Rightarrow> bool" where
  "whenever r Q \<longleftrightarrow> (case r of None \<Rightarrow> True | Some (ok, s) \<Rightarrow> Q ok s)"

lemma whenever_simps [simp]: "whenever (Some (ok, s)) Q = Q ok s" "whenever None Q"
  by (simp_all add: whenever_def)

lemma whenever_and_then:
  "whenever (m s) (\<lambda>ok s'. if ok then whenever (k s') Q else Q False s') \<Longrightarrow> whenever (and_then m k s) Q"
  by (auto simp: and_then_def whenever_def split: option.splits if_splits)

lemma whenever_mono: "whenever r P \<Longrightarrow> (\<And>ok s. P ok s \<Longrightarrow> Q ok s) \<Longrightarrow> whenever r Q"
  by (auto simp: whenever_def split: option.splits)

text \<open>Nothing delivered, and no change of the inbound cipher state.\<close>

definition quiet :: "sptps \<Rightarrow> sptps \<Rightarrow> bool" where
  "quiet s s' \<longleftrightarrow> instate s' = instate s \<and> delivered s' = delivered s"

lemma quiet_refl [simp]: "quiet s s"
  by (simp add: quiet_def)

lemma quiet_trans: "quiet s t \<Longrightarrow> quiet t u \<Longrightarrow> quiet s u"
  by (simp add: quiet_def)

lemma send_record_quiet: "whenever (send_record_priv E type data s) (\<lambda>ok. quiet s)"
  by (auto simp: send_record_priv_def send_record_priv_datagram_def send_data_def Let_def quiet_def
      split: option.split)

lemma send_kex_quiet: "whenever (send_kex E s) (\<lambda>ok. quiet s)"
  by (auto simp: send_kex_def fail_def Let_def quiet_def
      intro!: whenever_mono [OF send_record_quiet] split: prod.split)

lemma send_sig_quiet: "whenever (send_sig E s) (\<lambda>ok. quiet s)"
  by (auto simp: send_sig_def fail_def intro: send_record_quiet split: option.split)

lemma receive_kex_quiet: "whenever (receive_kex E data s) (\<lambda>ok. quiet s)"
  by (auto simp: receive_kex_def fail_def succeed_def Let_def quiet_def
      intro!: whenever_mono [OF send_sig_quiet])

lemma finish_sig_quiet: "whenever (finish_sig E s) (\<lambda>ok. quiet s)"
proof -
  let ?s = "s\<lparr>mykex := None, hiskex := None\<rparr>"
  have cipher: "whenever (set_outcipher t) (\<lambda>ok. quiet s)" if "quiet ?s t" for t
    using that by (auto simp: set_outcipher_def succeed_def quiet_def split: option.split)
  have "whenever ((if outstate ?s then send_ack E else succeed) ?s) (\<lambda>ok. quiet ?s)"
    using send_record_quiet by (auto simp: send_ack_def succeed_def)
  then have "whenever ((if outstate ?s then send_ack E else succeed) ?s)
      (\<lambda>ok s'. if ok then whenever (set_outcipher s') (\<lambda>ok. quiet s) else quiet s s')"
    by (rule whenever_mono) (auto intro: cipher simp: quiet_def)
  then show ?thesis
    unfolding finish_sig_def Let_def by (rule whenever_and_then)
qed

text \<open>What a successful \<open>receive_sig\<close> has checked.\<close>

definition verified :: "sptps_env \<Rightarrow> sptps \<Rightarrow> bytes \<Rightarrow> bool" where
  "verified E s sig \<longleftrightarrow> (\<exists>his my. hiskex s = Some his \<and> mykex s = Some my \<and>
     env_verify E (fill_msg (\<not> initiator s) his my s) sig)"

lemma receive_sig_verified:
  "whenever (receive_sig E data s) (\<lambda>ok s'. quiet s s' \<and> (ok \<longrightarrow> verified E s data))"
proof (cases "verified E s data")
  case False
  then show ?thesis
    by (auto simp: receive_sig_def fail_def verified_def split: option.split)
next
  case True
  let ?s = "s\<lparr>ecdh := None\<rparr>"
  have key: "whenever (generate_key_material E x ?s) (\<lambda>ok. quiet s)" for x
    by (auto simp: generate_key_material_def fail_def succeed_def Let_def quiet_def split: option.split)
  have sig: "whenever ((if initiator s then succeed else send_sig E) t) (\<lambda>ok. quiet s)"
    if "quiet s t" for t
    using that send_sig_quiet [of E t] by (auto simp: succeed_def whenever_def quiet_def split: option.splits)
  have finish: "whenever (finish_sig E t) (\<lambda>ok. quiet s)" if "quiet s t" for t
    using that by (intro whenever_mono [OF finish_sig_quiet]) (rule quiet_trans)
  have rest: "whenever (and_then (if initiator s then succeed else send_sig E) (finish_sig E) t)
      (\<lambda>ok. quiet s)" if "quiet s t" for t
    by (rule whenever_and_then, rule whenever_mono [OF sig [OF that]]) (auto intro: finish)
  have "whenever (and_then (generate_key_material E x)
      (and_then (if initiator s then succeed else send_sig E) (finish_sig E)) ?s) (\<lambda>ok. quiet s)" for x
    by (rule whenever_and_then, rule whenever_mono [OF key]) (cases "initiator s"; use rest in auto)
  with True show ?thesis
    by (auto simp: receive_sig_def fail_def verified_def split: option.split intro: whenever_mono)
qed

text \<open>
  What one received record may do: inbound traffic is opened by a verified signature only, and
  application records are delivered only when it is open.
\<close>

definition auth_step :: "sptps_env \<Rightarrow> sptps \<Rightarrow> sptps \<Rightarrow> bool" where
  "auth_step E s s' \<longleftrightarrow>
     (\<not> instate s \<and> instate s' \<longrightarrow> state s = SPTPS_SIG \<and> (\<exists>sig. verified E s sig)) \<and>
     (\<exists>new. delivered s' = delivered s @ new \<and> (\<forall>(type, data)\<in>set new. type < SPTPS_HANDSHAKE \<longrightarrow> instate s))"

lemma quiet_auth: "quiet s s' \<Longrightarrow> auth_step E s s'"
  by (simp add: quiet_def auth_step_def)

lemma receive_handshake_auth:
  assumes "state s = SPTPS_ACK \<longrightarrow> instate s"
  shows "whenever (receive_handshake E data s) (\<lambda>ok. auth_step E s)"
proof (cases "state s")
  case SPTPS_KEX
  then show ?thesis
    unfolding receive_handshake_def
    by (simp, intro whenever_and_then whenever_mono [OF receive_kex_quiet])
      (auto simp: goto_def succeed_def intro!: quiet_auth, auto simp: quiet_def)
next
  case SPTPS_SECONDARY_KEX
  have kex: "whenever (and_then (receive_kex E data) (goto SPTPS_SIG) t) (\<lambda>ok. auth_step E s)"
    if "quiet s t" for t
    by (intro whenever_and_then whenever_mono [OF receive_kex_quiet])
      (use that in \<open>auto simp: goto_def succeed_def quiet_def intro!: quiet_auth\<close>)
  with SPTPS_SECONDARY_KEX show ?thesis
    unfolding receive_handshake_def
    by (auto simp: succeed_def quiet_auth intro!: whenever_and_then whenever_mono [OF send_kex_quiet] kex)
next
  case SPTPS_SIG
  then show ?thesis
    unfolding receive_handshake_def
    by (simp, intro whenever_and_then whenever_mono [OF receive_sig_verified])
      (auto simp: goto_def succeed_def and_then_def receive_ack_def handshake_done_def
        receive_record_def auth_step_def quiet_def split: option.split)
next
  case SPTPS_ACK
  with assms show ?thesis
    by (auto simp: receive_handshake_def goto_def succeed_def fail_def and_then_def receive_ack_def
        handshake_done_def receive_record_def auth_step_def split: option.split)
qed

lemma auth_step_frame:
  assumes "auth_step E t s'" "instate t = instate s" "delivered t = delivered s" "state t = state s"
    "hiskex t = hiskex s" "mykex t = mykex s" "initiator t = initiator s" "label t = label s"
  shows "auth_step E s s'"
  using assms by (auto simp: auth_step_def verified_def fill_msg_def)

lemma sptps_dispatch_auth:
  assumes "state s = SPTPS_ACK \<longrightarrow> instate s"
  shows "whenever (sptps_dispatch E type data s) (\<lambda>ok. auth_step E s)"
  using receive_handshake_auth [OF assms]
  by (auto simp: sptps_dispatch_def fail_def receive_record_def quiet_auth)
    (auto simp: auth_step_def)

text \<open>Once inbound traffic is open, all that is left is that deliveries are appended.\<close>

lemma auth_step_open:
  "instate s \<Longrightarrow> auth_step E s s' \<longleftrightarrow> (\<exists>new. delivered s' = delivered s @ new)"
  by (auto simp: auth_step_def)

lemma auth_step_delivered: "auth_step E s s' \<Longrightarrow> \<exists>new. delivered s' = delivered s @ new"
  by (auto simp: auth_step_def)

lemma datagram_record_auth:
  assumes "instate s" "delivered t = delivered s @ pre" "instate t"
  shows "whenever (datagram_record E seqno buffer t) (\<lambda>ok. auth_step E s)"
proof -
  obtain ok u where u: "sptps_check_seqno t seqno True = (ok, u)" by fastforce
  then have "delivered u = delivered s @ pre" "instate u"
    using check_seqno_same(17,6) [of t seqno True] assms by (simp_all del: check_seqno_same)
  then have "whenever (sptps_dispatch E type data u) (\<lambda>ok. auth_step E s)" for type data
    by (intro whenever_mono [OF sptps_dispatch_auth])
      (auto simp: auth_step_open [OF assms(1)] dest: auth_step_delivered)
  with u show ?thesis
    using \<open>delivered u = delivered s @ pre\<close>
    by (auto simp: datagram_record_def succeed_def auth_step_open [OF assms(1)] split: list.split)
qed

lemma receive_datagram_auth:
  assumes s: "sptps_ok s"
  shows "whenever (sptps_receive_data_datagram E data s) (\<lambda>ok. auth_step E s)"
proof (cases "instate s")
  case False
  have "whenever (receive_handshake E d (s\<lparr>inseqno := q\<rparr>)) (\<lambda>ok. auth_step E s)" for d q
    by (rule whenever_mono [OF receive_handshake_auth])
      (use s in \<open>auto simp: sptps_ok_def elim!: auth_step_frame\<close>)
  with False show ?thesis
    by (auto simp: sptps_receive_data_datagram_def fail_def Let_def quiet_auth)
      (auto simp: auth_step_def)
next
  case True
  have refl: "auth_step E s s" by (simp add: quiet_auth)
  have late: "whenever (and_then (receive_ack []) (and_then (handshake_done E) (datagram_record E q b)) s)
      (\<lambda>ok. auth_step E s)" if "skey s = Some nk" for q b nk
    using that True
    by (simp add: and_then_def receive_ack_def succeed_def handshake_done_def receive_record_def goto_def)
      (intro conjI impI; rule datagram_record_auth [where pre = "[(SPTPS_HANDSHAKE, [])]"]; simp)
  have direct: "whenever (datagram_record E q b s) (\<lambda>ok. auth_step E s)" for q b
    by (rule datagram_record_auth [where pre = "[]"]) (use True in auto)
  show ?thesis
    using True refl late direct
    by (auto simp: sptps_receive_data_datagram_def fail_def Let_def
        split: option.split sptps_state.split)
qed

lemma stream_record_auth:
  assumes s: "sptps_ok s"
  shows "whenever (stream_record E s) (\<lambda>ok. auth_step E s)"
proof -
  have same: "auth_step E s t" if "instate t = instate s" "delivered t = delivered s" for t
    using that by (simp add: quiet_auth quiet_def)
  have disp: "whenever (sptps_dispatch E type data (s\<lparr>inseqno := q, inbuf := b\<rparr>)) (\<lambda>ok. auth_step E s)"
    for type data q b
    by (rule whenever_mono [OF sptps_dispatch_auth])
      (use s in \<open>auto simp: sptps_ok_def elim!: auth_step_frame\<close>)
  show ?thesis
    unfolding stream_record_def Let_def
    by (intro whenever_and_then)
      (use disp in \<open>auto simp: fail_def succeed_def same split: option.split\<close>)
qed

lemma receive_body_auth:
  assumes s: "sptps_ok s" and r: "receive_body E n data s = Some (m, s')"
  shows "auth_step E s s'"
proof -
  have same: "auth_step E s (s\<lparr>inbuf := b\<rparr>)" for b
    by (simp add: quiet_auth quiet_def)
  have "auth_step E s t" if "end_of_record E k (s\<lparr>inbuf := b\<rparr>) = Some (m, t)" for k b t
  proof -
    from that obtain ok u where u: "stream_record E (s\<lparr>inbuf := b\<rparr>) = Some (ok, u)"
      "t = u \<or> t = u\<lparr>inbuf := []\<rparr>"
      by (auto simp: end_of_record_def split: option.splits if_splits)
    have "auth_step E (s\<lparr>inbuf := b\<rparr>) u"
      using stream_record_auth [of "s\<lparr>inbuf := b\<rparr>" E] s u(1) by simp
    then have "auth_step E s u" by (rule auth_step_frame) simp_all
    with u(2) show ?thesis by (auto simp: auth_step_def)
  qed
  with r same show ?thesis
    unfolding receive_body_def Let_def by (auto split: if_splits)
qed

section \<open>Properties\<close>

text \<open>An environment that can hold: sealing appends 16 bytes, there is one signature.\<close>

definition sample_env :: sptps_env where
  "sample_env =
     \<lparr>env_encrypt = \<lambda>k q m. m @ replicate 16 0,
      env_decrypt = \<lambda>k q c. if 16 \<le> length c then Some (take (length c - 16) c) else None,
      env_sign = \<lambda>m. Some (replicate 64 7), env_verify = \<lambda>m sig. sig = replicate 64 7,
      env_siglen = 64, env_keypair = \<lambda>n. ([1], replicate 32 1), env_nonce = \<lambda>n. replicate 32 2,
      env_shared = \<lambda>a b. Some [], env_prf = \<lambda>a b. Some (replicate 128 3),
      env_send_data = \<lambda>t b. True, env_receive_record = \<lambda>t b. True\<rparr>"

lemma sample_env_total: "env_total sample_env"
  by (auto simp: env_total_def sample_env_def split: if_splits)

text \<open>C10: Whatever bytes arrive, in the stream and the datagram mode, and whatever calls are made in
  between, a started session never follows a null pointer, provided that the cryptographic
  routines succeed and the send callback takes the records; and in every state exactly the
  pointers are set that the state needs.\<close>

theorem sptps_never_null:
  assumes "env_total E"
  shows "\<exists>s s'. sptps_start E ini dgram win lab = Some (True, s) \<and>
    sptps_run E calls s = Some s' \<and> sptps_ok s'"
  using sptps_start_ok [OF assms, of ini dgram win lab] sptps_run_ok [OF assms] by blast

theorem sptps_never_null_witness:
  "\<exists>s s'. sptps_start sample_env True False 16 [1, 2] = Some (True, s) \<and>
    sptps_run sample_env [Call_receive [0, 0, 129], Call_force_kex] s = Some s' \<and> sptps_ok s'"
  by (rule sptps_never_null [OF sample_env_total])

text \<open>C22: Without that proviso it can: when the acknowledgement of a rekey cannot be sent,
  \<open>receive_sig\<close> has already freed both KEX records but the session stays in \<open>SPTPS_SIG\<close>, so the
  next handshake record of the length of a signature reads through a null pointer.\<close>

theorem sptps_null_after_failed_ack:
  assumes "sptps_ok s" "state s = SPTPS_SIG" "outstate s" "initiator s"
    and "env_shared E (the (ecdh s)) (kex_pubkey (the (hiskex s))) \<noteq> None"
    and "\<forall>a b. env_prf E a b \<noteq> None" "env_send_data E = (\<lambda>_ _. False)"
    and "length sig = env_siglen E" "verified E s sig" "length other = env_siglen E"
  shows "\<exists>s'. receive_handshake E sig s = Some (False, s') \<and> receive_handshake E other s' = None"
proof -
  obtain his my where kex: "hiskex s = Some his" "mykex s = Some my"
    "env_verify E (fill_msg (\<not> initiator s) his my s) sig"
    using assms(9) by (auto simp: verified_def)
  obtain x oc where x: "ecdh s = Some x" "outcipher s = Some oc" using assms(1,3) kex by (auto simp: sptps_ok_def)
  obtain sh where sh: "env_shared E x (kex_pubkey his) = Some sh" using assms(5) x kex by auto
  let ?seed = "key_expansion @ kex_nonce my @ kex_nonce his @ label s"
  obtain km where km: "env_prf E sh ?seed = Some km" using assms(6) by blast
  let ?t = "s\<lparr>ecdh := None, skey := Some km, mykex := None, hiskex := None\<rparr>"
  have "receive_sig E sig s = Some (False, put_record E SPTPS_HANDSHAKE [] ?t)"
    using assms kex x sh km
    by (simp add: receive_sig_def and_then_def generate_key_material_def finish_sig_def send_ack_def
        send_record_eq succeed_def)
  then have "receive_handshake E sig s = Some (False, put_record E SPTPS_HANDSHAKE [] ?t)"
    using assms(2) by (simp add: receive_handshake_def and_then_def)
  moreover have "receive_handshake E other (put_record E SPTPS_HANDSHAKE [] ?t) = None"
    using assms(2,10) by (simp add: receive_handshake_def and_then_def receive_sig_def)
  ultimately show ?thesis by blast
qed

definition rekeying :: sptps where
  "rekeying = \<lparr>inseqno = 9, received = 4, replaywin = 0, farfuture = 0, late = [], initiator = True,
     datagram = False, state = SPTPS_SIG, inbuf = [], reclen = 0, instate = True,
     incipher = Some [1], outstate = True, outcipher = Some [2], outseqno = 5, ecdh = Some [1],
     mykex = Some (replicate 65 0), hiskex = Some (replicate 65 0), skey = None, label = [],
     random_draws = 1, sent = [], delivered = []\<rparr>"

theorem sptps_null_after_failed_ack_witness:
  "\<exists>s'. receive_handshake (sample_env\<lparr>env_send_data := \<lambda>_ _. False\<rparr>) (replicate 64 7) rekeying =
      Some (False, s') \<and>
    receive_handshake (sample_env\<lparr>env_send_data := \<lambda>_ _. False\<rparr>) (replicate 64 0) s' = None"
  by (rule sptps_null_after_failed_ack)
    (simp_all add: rekeying_def sptps_ok_def sample_env_def verified_def)

text \<open>C6: Authentication precedes everything: when a call of the receiver opens the inbound direction,
  the session was waiting for a signature and has verified one, made with the peer's key over the
  peer's role, both KEX records and the session label; and a call delivers an application record
  only when the inbound direction was open before it.\<close>

theorem sptps_authenticates:
  assumes "sptps_ok s" "sptps_receive_data E data s = Some (n, s')"
  shows "(\<not> instate s \<and> instate s' \<longrightarrow> state s = SPTPS_SIG \<and>
      (\<exists>his my sig. hiskex s = Some his \<and> mykex s = Some my \<and>
         env_verify E (fill_msg (\<not> initiator s) his my s) sig)) \<and>
    (\<exists>new. delivered s' = delivered s @ new \<and>
       (\<forall>(type, record)\<in>set new. type < SPTPS_HANDSHAKE \<longrightarrow> instate s))"
proof -
  have "auth_step E s s'"
  proof (cases "datagram s")
    case True
    with receive_datagram_auth [OF assms(1), of E data] assms(2) show ?thesis
      by (auto simp: sptps_receive_data_def split: option.splits)
  next
    case False
    have body: "auth_step E s t" if "receive_body E m d (s\<lparr>inbuf := b, reclen := l\<rparr>) = Some (n, t)" for m d b l t
      using receive_body_auth [OF _ that] assms(1) by (auto elim!: auth_step_frame)
    have body0: "auth_step E s t" if "receive_body E m d s = Some (n, t)" for m d t
      by (rule receive_body_auth [OF assms(1) that])
    have same: "auth_step E s (s\<lparr>inbuf := b\<rparr>)" "auth_step E s (s\<lparr>inbuf := b, reclen := l\<rparr>)" for b l
      by (simp_all add: quiet_auth quiet_def)
    show ?thesis
      using False assms(2) unfolding sptps_receive_data_def Let_def
      by (auto split: if_splits intro: body body0 same)
  qed
  then show ?thesis unfolding auth_step_def verified_def by blast
qed

definition waiting_sig :: sptps where
  "waiting_sig = rekeying\<lparr>datagram := True, instate := False, outstate := False, incipher := None,
     outcipher := None\<rparr>"

lemma sample_receive_sig:
  assumes "state s = SPTPS_SIG" "initiator s" "\<not> outstate s" "skey s = None"
    "mykex s \<noteq> None" "hiskex s \<noteq> None" "ecdh s \<noteq> None"
  shows "\<exists>t. receive_handshake sample_env (replicate 64 7) s = Some (True, t) \<and> instate t"
  using assms
  by (auto simp: receive_handshake_def and_then_def receive_sig_def generate_key_material_def
      finish_sig_def set_outcipher_def succeed_def receive_ack_def handshake_done_def
      receive_record_def goto_def sample_env_def Let_def)

theorem sptps_authenticates_witness:
  "sptps_ok waiting_sig \<and>
   (\<exists>n s'. sptps_receive_data sample_env ([0, 0, 0, 9, 128] @ replicate 64 7) waiting_sig = Some (n, s') \<and>
     instate s' \<and> state waiting_sig = SPTPS_SIG)"
proof -
  have ok: "sptps_ok waiting_sig" by (simp add: waiting_sig_def rekeying_def sptps_ok_def)
  have flds: "datagram waiting_sig" "\<not> instate waiting_sig" "inseqno waiting_sig = 9"
    by (simp_all add: waiting_sig_def rekeying_def)
  obtain t where t: "receive_handshake sample_env (replicate 64 7) (waiting_sig\<lparr>inseqno := 10\<rparr>) = Some (True, t)"
    "instate t"
    using sample_receive_sig [of "waiting_sig\<lparr>inseqno := 10\<rparr>"] by (auto simp: waiting_sig_def rekeying_def)
  have r: "sptps_receive_data sample_env ([0, 0, 0, 9, 128] @ replicate 64 7) waiting_sig = Some (69, t)"
    using t flds by (simp add: sptps_receive_data_def sptps_receive_data_datagram_def net_seqno_def cut16_def)
  from sptps_authenticates [OF ok r] t(2) flds(2) have "state waiting_sig = SPTPS_SIG" by blast
  with ok r t(2) show ?thesis by blast
qed

end
