(* ===== verification/SptpsStream.thy ===== *)
theory SptpsStream
  imports SptpsProps
begin

text \<open>
  The stream receiver of SPTPS does not depend on how TCP cuts the stream, and what one side sends
  as a record the other side delivers, in the stream and in the datagram mode.
\<close>

section \<open>The mode of a session does not change\<close>

definition keeps_mode :: "sptps_op \<Rightarrow> bool" where
  "keeps_mode m \<longleftrightarrow> (\<forall>s. whenever (m s) (\<lambda>ok s'. datagram s' = datagram s))"

lemma keeps_modeI: "(\<And>s. whenever (m s) (\<lambda>ok s'. datagram s' = datagram s)) \<Longrightarrow> keeps_mode m"
  by (simp add: keeps_mode_def)

lemma keeps_modeD: "keeps_mode m \<Longrightarrow> datagram t = d \<Longrightarrow> whenever (m t) (\<lambda>ok s'. datagram s' = d)"
  by (auto simp: keeps_mode_def)

lemma keeps_mode_and_then:
  assumes m: "keeps_mode m" and k: "keeps_mode k"
  shows "keeps_mode (and_then m k)"
proof (rule keeps_modeI, rule whenever_and_then)
  fix s
  show "whenever (m s) (\<lambda>ok s'. if ok then whenever (k s') (\<lambda>ok s'. datagram s' = datagram s)
      else datagram s' = datagram s)"
    by (rule whenever_mono [OF keeps_modeD [OF m refl]]) (auto intro: keeps_modeD [OF k])
qed

lemma keeps_mode_basic:
  "keeps_mode fail" "keeps_mode succeed" "keeps_mode (goto st)" "keeps_mode set_outcipher"
  "keeps_mode (receive_ack d)" "keeps_mode (handshake_done E)" "keeps_mode (send_record_priv E t d)"
  "keeps_mode (receive_record E t d)"
  by (auto simp: keeps_mode_def fail_def succeed_def goto_def set_outcipher_def receive_ack_def
      handshake_done_def receive_record_def send_record_priv_def send_record_priv_datagram_def
      send_data_def Let_def split: option.split)

lemma keeps_mode_kex: "keeps_mode (send_kex E)" "keeps_mode (send_sig E)" "keeps_mode (receive_kex E d)"
proof -
  note send = keeps_mode_basic(7) [THEN keeps_modeD]
  show "keeps_mode (send_kex E)"
    by (rule keeps_modeI) (auto simp: send_kex_def fail_def Let_def intro!: send split: prod.split)
  show sig: "keeps_mode (send_sig E)"
    by (rule keeps_modeI) (auto simp: send_sig_def fail_def intro!: send split: option.split)
  show "keeps_mode (receive_kex E d)"
    by (rule keeps_modeI)
      (auto simp: receive_kex_def fail_def succeed_def Let_def intro!: sig [THEN keeps_modeD])
qed

lemma keeps_mode_sig: "keeps_mode (receive_sig E d)"
proof -
  have key: "keeps_mode (generate_key_material E x)" for x
    by (auto simp: keeps_mode_def generate_key_material_def fail_def succeed_def Let_def split: option.split)
  have "keeps_mode (if b then send_ack E else succeed)" for b
    using keeps_mode_basic(2) keeps_mode_basic(7) [of E SPTPS_HANDSHAKE "[]"]
    by (simp add: send_ack_def [abs_def])
  then have "keeps_mode (and_then (if b then send_ack E else succeed) set_outcipher)" for b
    by (rule keeps_mode_and_then) (rule keeps_mode_basic)
  from keeps_modeD [OF this] have finish: "keeps_mode (finish_sig E)"
    by (intro keeps_modeI) (simp only: finish_sig_def Let_def, simp)
  have "keeps_mode (and_then (generate_key_material E x) (and_then succeed (finish_sig E)))"
    "keeps_mode (and_then (generate_key_material E x) (and_then (send_sig E) (finish_sig E)))" for x
    by (intro keeps_mode_and_then key finish keeps_mode_basic keeps_mode_kex)+
  then show ?thesis
    by (intro keeps_modeI) (auto simp: receive_sig_def fail_def intro!: keeps_modeD split: option.split)
qed

lemma keeps_mode_handshake: "keeps_mode (receive_handshake E d)"
proof (rule keeps_modeI)
  fix s
  have kex: "keeps_mode (and_then (receive_kex E d) (goto SPTPS_SIG))"
    and kex2: "keeps_mode (and_then (send_kex E) (and_then (receive_kex E d) (goto SPTPS_SIG)))"
    and ack: "keeps_mode (and_then (receive_ack d') (handshake_done E))" for d'
    by (intro keeps_mode_and_then keeps_mode_kex keeps_mode_basic)+
  have "keeps_mode (\<lambda>s. if outstate s then goto SPTPS_ACK s
      else and_then (receive_ack []) (handshake_done E) (s\<lparr>outstate := True\<rparr>))"
    by (rule keeps_modeI) (auto intro!: ack [THEN keeps_modeD] keeps_mode_basic(3) [THEN keeps_modeD])
  then have "keeps_mode (and_then (receive_sig E d) (\<lambda>s. if outstate s then goto SPTPS_ACK s
      else and_then (receive_ack []) (handshake_done E) (s\<lparr>outstate := True\<rparr>)))"
    by (rule keeps_mode_and_then [OF keeps_mode_sig])
  from keeps_modeD [OF this refl] kex kex2 ack
  show "whenever (receive_handshake E d s) (\<lambda>ok s'. datagram s' = datagram s)"
    unfolding receive_handshake_def
    by (cases "state s") (auto simp: succeed_def intro!: keeps_modeD)
qed

lemma stream_record_mode: "whenever (stream_record E s) (\<lambda>ok s'. datagram s' = datagram s)"
proof -
  have "keeps_mode (sptps_dispatch E t d)" for t d
    by (rule keeps_modeI)
      (auto simp: sptps_dispatch_def fail_def receive_record_def intro: keeps_mode_handshake [THEN keeps_modeD])
  from keeps_modeD [OF this] show ?thesis
    unfolding stream_record_def Let_def
    by (intro whenever_and_then) (auto simp: fail_def succeed_def split: option.split)
qed

section \<open>Byte by byte\<close>

text \<open>A stream session between two calls: no complete record is waiting in the buffer.\<close>

definition stream_ok :: "sptps \<Rightarrow> bool" where
  "stream_ok s \<longleftrightarrow> \<not> datagram s \<and> (length (inbuf s) < 2 \<or> length (inbuf s) < stream_need s)"

lemma stream_need_3: "3 \<le> stream_need s"
  by (simp add: stream_need_def)

lemma stream_need_upd [simp]:
  "stream_need (s\<lparr>inbuf := b\<rparr>) = stream_need s" "stream_need (s\<lparr>reclen := r, inbuf := b\<rparr>) = stream_need (s\<lparr>reclen := r\<rparr>)"
  "stream_need (s\<lparr>inbuf := b, reclen := r\<rparr>) = stream_need (s\<lparr>reclen := r\<rparr>)"
  by (simp_all add: stream_need_def)

text \<open>One byte more consumed.\<close>

definition one_more :: "(nat \<times> sptps) option \<Rightarrow> (nat \<times> sptps) option" where
  "one_more r = map_option (\<lambda>(n, s). (if n = 0 then 0 else n + 1, s)) r"

lemma end_of_record_more:
  "0 < n \<Longrightarrow> end_of_record E (Suc n) s = one_more (end_of_record E n s)"
  by (auto simp: end_of_record_def one_more_def split: option.split)

lemma receive_body_more:
  assumes "length (inbuf s) < stream_need s" "data \<noteq> []"
  shows "receive_body E (Suc n) data s = one_more (receive_body E n data s)"
proof -
  have "0 < min (stream_need s - length (inbuf s)) (length data)" using assms by simp
  then show ?thesis
    using assms(1) by (auto simp: receive_body_def Let_def end_of_record_more one_more_def)
qed

lemma receive_body_Cons:
  assumes "length (inbuf s) + 1 < stream_need s" "data \<noteq> []"
  shows "receive_body E n (b # data) s = receive_body E (Suc n) data (s\<lparr>inbuf := inbuf s @ [b]\<rparr>)"
proof -
  obtain m where m: "stream_need s = length (inbuf s) + Suc m"
    using assms(1) less_imp_Suc_add by fastforce
  then have "min (stream_need s - length (inbuf s)) (length (b # data)) =
      Suc (min (stream_need s - (length (inbuf s) + 1)) (length data))"
    by simp
  with assms(1) show ?thesis
    unfolding receive_body_def Let_def by (simp only: if_False) simp
qed

text \<open>
  What the first byte does: either the session is left in a state from which the rest of the bytes
  is received as before, or the byte completes a record.
\<close>

lemma receive_first_byte:
  assumes s: "stream_ok s"
  obtains (more) s1 where "sptps_receive_data E [b] s = Some (1, s1)" "stream_ok s1"
      "bs \<noteq> [] \<Longrightarrow> sptps_receive_data E (b # bs) s = one_more (sptps_receive_data E bs s1)"
  | (complete) s1 where "sptps_receive_data E [b] s = end_of_record E 1 s1" "\<not> datagram s1"
      "sptps_receive_data E (b # bs) s = end_of_record E 1 s1"
proof -
  have d: "\<not> datagram s" using s by (simp add: stream_ok_def)
  let ?s1 = "s\<lparr>inbuf := inbuf s @ [b]\<rparr>"
  consider (none) "length (inbuf s) = 0" | (one) "length (inbuf s) = 1"
    | (part) "2 \<le> length (inbuf s)" "length (inbuf s) + 1 < stream_need s"
    | (last) "2 \<le> length (inbuf s)" "length (inbuf s) + 1 = stream_need s"
    using s unfolding stream_ok_def by linarith
  then show ?thesis
  proof cases
    case none
    show ?thesis
    proof (rule more [of ?s1])
      show "sptps_receive_data E [b] s = Some (1, ?s1)" "stream_ok ?s1"
        using none d by (simp_all add: sptps_receive_data_def stream_ok_def)
      assume "bs \<noteq> []"
      then obtain c cs where bs: "bs = c # cs" by (cases bs) auto
      show "sptps_receive_data E (b # bs) s = one_more (sptps_receive_data E bs ?s1)"
        using none d stream_need_3 [of "s\<lparr>reclen := of_nat (be_val [b, c])\<rparr>"]
          receive_body_more [of "s\<lparr>inbuf := [b, c], reclen := of_nat (be_val [b, c])\<rparr>" cs E 1]
        by (cases cs) (auto simp: bs sptps_receive_data_def Let_def one_more_def numeral_2_eq_2)
    qed
  next
    case one
    then obtain a where a: "inbuf s = [a]" by (cases "inbuf s") auto
    let ?s2 = "?s1\<lparr>reclen := of_nat (be_val (inbuf s @ [b]))\<rparr>"
    show ?thesis
    proof (rule more [of ?s2])
      show "sptps_receive_data E [b] s = Some (1, ?s2)" "stream_ok ?s2"
        using a d stream_need_3 [of ?s2] by (simp_all add: sptps_receive_data_def stream_ok_def)
      assume "bs \<noteq> []"
      then show "sptps_receive_data E (b # bs) s = one_more (sptps_receive_data E bs ?s2)"
        using a d stream_need_3 [of ?s2] receive_body_more [of ?s2 bs E 0]
        by (simp add: sptps_receive_data_def)
    qed
  next
    case part
    show ?thesis
    proof (rule more [of ?s1])
      show "sptps_receive_data E [b] s = Some (1, ?s1)" "stream_ok ?s1"
        using part d by (simp_all add: sptps_receive_data_def stream_ok_def receive_body_def Let_def)
      assume "bs \<noteq> []"
      then show "sptps_receive_data E (b # bs) s = one_more (sptps_receive_data E bs ?s1)"
        using part d receive_body_Cons [of s bs E 0 b] receive_body_more [of ?s1 bs E 0]
        by (cases "inbuf s") (auto simp: sptps_receive_data_def)
    qed
  next
    case last
    then have "stream_need s - length (inbuf s) = 1" by simp
    with last d show ?thesis
      by (intro complete [of ?s1]) (auto simp: sptps_receive_data_def receive_body_def Let_def)
  qed
qed

lemma feed_Nil [simp]: "sptps_feed E [] s = Some (True, s)"
  by (simp add: sptps_feed.simps)

lemma end_of_record_result:
  assumes "end_of_record E 1 s = Some (n, t)" "\<not> datagram s" "n \<noteq> 0"
  shows "n = 1 \<and> stream_ok t"
  using assms stream_record_mode [of E s]
  by (auto simp: end_of_record_def stream_ok_def split: option.splits if_splits)

lemma feed_Cons:
  assumes s: "stream_ok s"
  shows "sptps_feed E (b # bs) s =
    (case sptps_receive_data E [b] s of
       None \<Rightarrow> None
     | Some (n, s1) \<Rightarrow> if n = 0 then Some (False, s1) else sptps_feed E bs s1)"
  using s
proof (cases rule: receive_first_byte [of s E b bs])
  case (more s1)
  show ?thesis
  proof (cases "bs = []")
    case True
    with more show ?thesis by (simp add: sptps_feed.simps [of E "[b]"])
  next
    case False
    with more show ?thesis
      by (simp add: sptps_feed.simps [of E "b # bs"] sptps_feed.simps [of E bs] one_more_def)
        (auto split: option.split)
  qed
next
  case (complete s1)
  then show ?thesis
    using end_of_record_result [of E s1]
    by (auto simp: sptps_feed.simps [of E "b # bs"] split: option.split)
qed

lemma first_byte_ok:
  assumes "stream_ok s" "sptps_receive_data E [b] s = Some (n, t)" "n \<noteq> 0"
  shows "stream_ok t"
  using assms(1)
proof (cases rule: receive_first_byte [of s E b "[]"])
  case (more s1)
  with assms show ?thesis by simp
next
  case (complete s1)
  with assms end_of_record_result [of E s1 n t] show ?thesis by simp
qed

lemma feed_append:
  assumes "stream_ok s"
  shows "sptps_feed E (xs @ ys) s = and_then (sptps_feed E xs) (sptps_feed E ys) s"
  using assms
proof (induction xs arbitrary: s)
  case (Cons b xs)
  show ?case
    using first_byte_ok [OF Cons.prems, of E b] Cons.IH
    by (auto simp: feed_Cons [OF Cons.prems] and_then_def split: option.split)
qed (simp add: and_then_def)

section \<open>Properties of the stream\<close>

text \<open>C7: The stream receiver reassembles records independently of how the transport cuts the stream:
  feeding two pieces one after the other, from any state between two calls, delivers the same
  records, sends the same answers, fails at the same point and ends in the same state as feeding
  their concatenation at once.\<close>

theorem sptps_stream_cut_invariant:
  assumes "stream_ok s"
  shows "sptps_feed E (xs @ ys) s = and_then (sptps_feed E xs) (sptps_feed E ys) s"
  by (rule feed_append [OF assms])

theorem sptps_stream_cut_invariant_witness:
  "sptps_feed sample_env ([0, 2, 5] @ [1, 1]) (waiting_sig\<lparr>datagram := False\<rparr>) =
   and_then (sptps_feed sample_env [0, 2, 5]) (sptps_feed sample_env [1, 1]) (waiting_sig\<lparr>datagram := False\<rparr>)"
  by (rule sptps_stream_cut_invariant) (simp add: stream_ok_def waiting_sig_def rekeying_def)

end
