(* ===== verification/SptpsHandshake.thy ===== *)
theory SptpsHandshake
  imports SptpsStream
begin

text \<open>
  Two parties.  The key exchange of an honest initiator and an honest responder, in the stream and
  in the datagram mode, ends with both directions open and each side's outbound key the other's
  inbound key; records sent on such a link arrive as they were sent.
\<close>

section \<open>Receiving one record\<close>

text \<open>A handshake record in the clear, and the session that has taken it off the wire.\<close>

definition plain_wire :: "bool \<Rightarrow> u32 \<Rightarrow> bytes \<Rightarrow> bytes" where
  "plain_wire dg q data =
     (if dg then be32 q else be16 (of_nat (length data))) @ SPTPS_HANDSHAKE # data"

definition took :: "bytes \<Rightarrow> nat \<Rightarrow> sptps \<Rightarrow> sptps" where
  "took w n s =
     (if datagram s then s\<lparr>inseqno := inseqno s + 1\<rparr>
      else s\<lparr>reclen := of_nat n, inseqno := inseqno s + 1, inbuf := w\<rparr>)"

definition record_done :: "nat \<Rightarrow> bool \<Rightarrow> (bool \<times> sptps) option \<Rightarrow> (nat \<times> sptps) option" where
  "record_done n dg r =
     map_option (\<lambda>(ok, t). (if ok then n else 0, if dg \<or> \<not> ok then t else t\<lparr>inbuf := []\<rparr>)) r"

lemma took_same [simp]:
  "initiator (took w n s) = initiator s" "datagram (took w n s) = datagram s"
  "state (took w n s) = state s" "instate (took w n s) = instate s"
  "incipher (took w n s) = incipher s" "outstate (took w n s) = outstate s"
  "outcipher (took w n s) = outcipher s" "outseqno (took w n s) = outseqno s"
  "ecdh (took w n s) = ecdh s" "mykex (took w n s) = mykex s" "hiskex (took w n s) = hiskex s"
  "skey (took w n s) = skey s" "label (took w n s) = label s" "sent (took w n s) = sent s"
  "delivered (took w n s) = delivered s" "inseqno (took w n s) = inseqno s + 1"
  "random_draws (took w n s) = random_draws s" "replaywin (took w n s) = replaywin s"
  "late (took w n s) = late s"
  by (simp_all add: took_def)

lemma net_seqno_be32 [simp]: "net_seqno (be32 q @ w) = q"
  by (simp add: net_seqno_def)

lemma unat_length16: "n < 65536 \<Longrightarrow> unat (of_nat n :: u16) = n"
  by (subst unat_of_nat) simp

lemma of_nat_be_val16: "(of_nat (be_val (be16 q)) :: u16) = q"
  by simp

lemma be16_cases: obtains x y where "be16 q = [x, y]"
  by (simp add: be16_def)

lemma cut16_short: "length d < 65536 \<Longrightarrow> cut16 d = d"
  by (simp add: cut16_def)

text \<open>A whole record in the empty buffer.\<close>

lemma receive_whole_record:
  assumes s: "\<not> datagram s" "inbuf s = []"
    and w: "w = be16 q @ body" "body \<noteq> []" "length w = unat q + (if instate s then 19 else 3)"
  shows "sptps_receive_data E w s = end_of_record E (length w) (s\<lparr>reclen := q, inbuf := w\<rparr>)"
proof -
  obtain x y where xy: "be16 q = [x, y]" by (rule be16_cases)
  have q: "(of_nat (unat x * 256 + unat y) :: u16) = q" using of_nat_be_val16 [of q] by (simp add: xy)
  let ?t = "s\<lparr>reclen := q, inbuf := [x, y]\<rparr>"
  have need: "stream_need ?t = length w" using w by (simp add: stream_need_def)
  have upd: "s\<lparr>inbuf := b, reclen := q\<rparr> = s\<lparr>reclen := q, inbuf := b\<rparr>" for b by (cases s) simp
  have "sptps_receive_data E w s = receive_body E 2 body ?t"
    using s w q by (simp add: sptps_receive_data_def xy upd)
  also have "\<dots> = end_of_record E (length w) (s\<lparr>reclen := q, inbuf := w\<rparr>)"
    using need w(1,2) unfolding receive_body_def Let_def by (simp add: xy)
  finally show ?thesis .
qed

lemma receive_plain:
  assumes s: "\<not> instate s" "inbuf s = []" and d: "length data < 65536" and q: "inseqno s = q"
    and E: "w = plain_wire (datagram s) q data"
  shows "sptps_receive_data E w s =
    record_done (length w) (datagram s) (receive_handshake E data (took w (length data) s))"
proof (cases "datagram s")
  case True
  then have "took w (length data) s = s\<lparr>inseqno := q + 1\<rparr>" using q by (simp add: took_def)
  with True s d q E show ?thesis
    by (auto simp: sptps_receive_data_def sptps_receive_data_datagram_def plain_wire_def cut16_short
        record_done_def Let_def split: option.split)
next
  case False
  let ?n = "of_nat (length data) :: u16"
  obtain x y where xy: "be16 ?n = [x, y]" by (rule be16_cases)
  have w: "w = be16 ?n @ SPTPS_HANDSHAKE # data" using E False by (simp add: plain_wire_def)
  have whole: "sptps_receive_data E w s = end_of_record E (length w) (s\<lparr>reclen := ?n, inbuf := w\<rparr>)"
    by (rule receive_whole_record [OF False s(2) w]) (use s d w in \<open>auto simp: unat_length16\<close>)
  have "w[length data + 3 := 0] = w" by (rule list_update_beyond) (simp add: w)
  moreover have "w ! 2 = SPTPS_HANDSHAKE" "take (length data) (drop 3 w) = data"
    by (simp_all add: w xy)
  ultimately have "stream_record E (s\<lparr>reclen := ?n, inbuf := w\<rparr>) =
      receive_handshake E data (took w (length data) s)"
    using s d False
    by (simp add: stream_record_def and_then_def succeed_def unat_length16 sptps_dispatch_def took_def
        cut16_short)
  with whole show ?thesis
    using False by (auto simp: end_of_record_def record_done_def split: option.split)
qed

text \<open>A sealed application record of the stream.\<close>

definition seals :: "sptps_env \<Rightarrow> sptps_env \<Rightarrow> bool" where
  "seals E E' \<longleftrightarrow> (\<forall>k q m. env_decrypt E' k q (env_encrypt E k q m) = Some m \<and>
     length (env_encrypt E k q m) = length m + 16)"

lemma receive_sealed:
  assumes s: "\<not> datagram s" "inbuf s = []" "instate s" "incipher s = Some k" "inseqno s = q"
    and d: "length data < 65536" "type < SPTPS_HANDSHAKE" and E: "seals E E'"
    and w: "w = be16 (of_nat (length data)) @ env_encrypt E k q (type # data)"
  shows "\<exists>t. sptps_receive_data E' w s =
      Some (if env_receive_record E' type data then length w else 0, t) \<and>
    (env_receive_record E' type data \<longrightarrow> t = s\<lparr>reclen := of_nat (length data), inseqno := q + 1, inbuf := [],
       delivered := delivered s @ [(type, data)]\<rparr>)"
proof -
  let ?n = "of_nat (length data) :: u16" and ?c = "env_encrypt E k q (type # data)"
  obtain x y where xy: "be16 ?n = [x, y]" by (rule be16_cases)
  have c: "length ?c = length data + 17" "env_decrypt E' k q ?c = Some (type # data)"
    using E by (auto simp: seals_def)
  have "sptps_receive_data E' w s = end_of_record E' (length w) (s\<lparr>reclen := ?n, inbuf := w\<rparr>)"
    by (rule receive_whole_record [OF s(1,2) w]) (use s d w c in \<open>auto simp: unat_length16\<close>)
  moreover have "stream_record E' (s\<lparr>reclen := ?n, inbuf := w\<rparr>) = receive_record E' type data
      (s\<lparr>reclen := ?n, inseqno := q + 1, inbuf := x # y # type # data @ (drop (length data + 1) ?c)[0 := 0]\<rparr>)"
  proof -
    have "length w = length data + 19" using c by (simp add: w)
    then have "take (length data + 17) (drop 2 w) = ?c" "take 2 w = [x, y]"
      "drop (length data + 3) w = drop (length data + 1) ?c"
      using c by (simp_all add: w xy numeral_3_eq_3)
    moreover from this have "(take 2 w @ (type # data) @ drop (length data + 3) w)[length data + 3 := 0] =
        x # y # type # data @ (drop (length data + 1) ?c)[0 := 0]"
      by (simp add: numeral_3_eq_3 list_update_append)
    ultimately show ?thesis
      using s d c(2)
      by (simp add: stream_record_def and_then_def succeed_def unat_length16 sptps_dispatch_def
          cut16_short Let_def)
  qed
  ultimately show ?thesis
    by (auto simp: end_of_record_def receive_record_def)
qed

section \<open>The steps of the key exchange\<close>

lemma send_plain:
  "env_send_data E SPTPS_HANDSHAKE = (\<lambda>b. True) \<Longrightarrow> \<not> outstate s \<Longrightarrow>
   send_record_priv E SPTPS_HANDSHAKE data s = Some (True,
     s\<lparr>outseqno := outseqno s + 1,
       sent := sent s @ [(SPTPS_HANDSHAKE, plain_wire (datagram s) (outseqno s) data)]\<rparr>)"
  by (simp add: send_record_eq put_record_def record_wire_def plain_wire_def)

text \<open>Both sides have received the other's KEX record; the initiator answers with its signature.\<close>

lemma initiator_kex:
  assumes "state s = SPTPS_KEX" "initiator s" "\<not> outstate s" "mykex s = Some my" "hiskex s = None"
    and "length his = KEX_SIZE" "hd his = SPTPS_VERSION"
    and "env_sign E (1 # my @ his @ label s) = Some sig" "env_send_data E SPTPS_HANDSHAKE = (\<lambda>b. True)"
  shows "receive_handshake E his s = Some (True, s\<lparr>hiskex := Some his, outseqno := outseqno s + 1,
     sent := sent s @ [(SPTPS_HANDSHAKE, plain_wire (datagram s) (outseqno s) sig)], state := SPTPS_SIG\<rparr>)"
  using assms
  by (simp add: receive_handshake_def and_then_def receive_kex_def send_sig_def fill_msg_def
      send_plain goto_def succeed_def)

lemma responder_kex:
  assumes "state s = SPTPS_KEX" "\<not> initiator s" "hiskex s = None"
    and "length his = KEX_SIZE" "hd his = SPTPS_VERSION"
  shows "receive_handshake E his s = Some (True, s\<lparr>hiskex := Some his, state := SPTPS_SIG\<rparr>)"
  using assms
  by (simp add: receive_handshake_def and_then_def receive_kex_def goto_def succeed_def)

text \<open>The signature of the peer completes the exchange; the responder signs in turn.\<close>

definition exchange_seed :: "bytes \<Rightarrow> bytes \<Rightarrow> bytes \<Rightarrow> bytes" where
  "exchange_seed ini resp lab = key_expansion @ kex_nonce ini @ kex_nonce resp @ lab"

lemma responder_sig:
  assumes "state s = SPTPS_SIG" "\<not> initiator s" "\<not> outstate s"
    and "mykex s = Some my" "hiskex s = Some his" "ecdh s = Some x"
    and "length sig = env_siglen E" "env_verify E (1 # his @ my @ label s) sig"
    and "env_shared E x (kex_pubkey his) = Some sh" "env_prf E sh (exchange_seed his my (label s)) = Some k"
    and "env_sign E (0 # my @ his @ label s) = Some mysig" "env_send_data E SPTPS_HANDSHAKE = (\<lambda>b. True)"
  shows "\<exists>t. receive_handshake E sig s = Some (True, t) \<and>
    state t = SPTPS_SECONDARY_KEX \<and> instate t \<and> outstate t \<and>
    incipher t = Some (key1 k) \<and> outcipher t = Some (key0 k) \<and>
    outseqno t = outseqno s + 1 \<and> inseqno t = inseqno s \<and> datagram t = datagram s \<and> inbuf t = inbuf s \<and>
    sent t = sent s @ [(SPTPS_HANDSHAKE, plain_wire (datagram s) (outseqno s) mysig)]"
  using assms
  by (simp add: receive_handshake_def and_then_def receive_sig_def fill_msg_def
      generate_key_material_def exchange_seed_def send_sig_def send_plain finish_sig_def
      set_outcipher_def receive_ack_def handshake_done_def receive_record_def goto_def succeed_def)

lemma initiator_sig:
  assumes "state s = SPTPS_SIG" "initiator s" "\<not> outstate s"
    and "mykex s = Some my" "hiskex s = Some his" "ecdh s = Some x"
    and "length sig = env_siglen E" "env_verify E (0 # his @ my @ label s) sig"
    and "env_shared E x (kex_pubkey his) = Some sh" "env_prf E sh (exchange_seed my his (label s)) = Some k"
  shows "\<exists>t. receive_handshake E sig s = Some (True, t) \<and>
    state t = SPTPS_SECONDARY_KEX \<and> instate t \<and> outstate t \<and>
    incipher t = Some (key0 k) \<and> outcipher t = Some (key1 k) \<and>
    outseqno t = outseqno s \<and> inseqno t = inseqno s \<and> datagram t = datagram s \<and> inbuf t = inbuf s"
  using assms
  by (simp add: receive_handshake_def and_then_def receive_sig_def fill_msg_def
      generate_key_material_def exchange_seed_def finish_sig_def
      set_outcipher_def receive_ack_def handshake_done_def receive_record_def goto_def succeed_def)

section \<open>Two honest parties\<close>

text \<open>
  Documented behaviour of the cryptography, for the initiator's environment \<open>A\<close> and the responder's
  environment \<open>B\<close>: each verifies what the other signs, both compute the same shared secret and the
  same key material, and keys, nonces and signatures have their sizes.
\<close>

definition parties :: "sptps_env \<Rightarrow> sptps_env \<Rightarrow> bool" where
  "parties A B \<longleftrightarrow>
     (\<forall>m. \<exists>sig. env_sign A m = Some sig \<and> env_verify B m sig \<and> length sig = env_siglen B) \<and>
     (\<forall>m. \<exists>sig. env_sign B m = Some sig \<and> env_verify A m sig \<and> length sig = env_siglen A) \<and>
     env_siglen A < 65536 \<and> env_siglen B < 65536 \<and>
     (\<forall>i j. \<exists>sh. env_shared A (fst (env_keypair A i)) (snd (env_keypair B j)) = Some sh \<and>
        env_shared B (fst (env_keypair B j)) (snd (env_keypair A i)) = Some sh) \<and>
     (\<forall>sh seed. \<exists>k. env_prf A sh seed = Some k \<and> env_prf B sh seed = Some k) \<and>
     (\<forall>i. length (env_nonce A i) = 32 \<and> length (env_nonce B i) = 32 \<and>
        length (snd (env_keypair A i)) = 32 \<and> length (snd (env_keypair B i)) = 32) \<and>
     env_send_data A = (\<lambda>t b. True) \<and> env_send_data B = (\<lambda>t b. True)"

definition first_kex :: "sptps_env \<Rightarrow> bytes" where
  "first_kex E = SPTPS_VERSION # env_nonce E 0 @ snd (env_keypair E 0)"

lemma first_kex_facts:
  assumes "length (env_nonce E 0) = 32" "length (snd (env_keypair E 0)) = 32"
  shows "length (first_kex E) = KEX_SIZE" "hd (first_kex E) = SPTPS_VERSION"
    "kex_pubkey (first_kex E) = snd (env_keypair E 0)"
  using assms by (simp_all add: first_kex_def kex_pubkey_def)

lemma sptps_start_eq:
  assumes "env_send_data E = (\<lambda>t b. True)"
  obtains s where "sptps_start E ini dg win lab = Some (True, s)"
    and "state s = SPTPS_KEX" "initiator s = ini" "datagram s = dg" "label s = lab"
    "\<not> instate s" "\<not> outstate s" "inbuf s = []" "inseqno s = 0" "outseqno s = 1"
    "mykex s = Some (first_kex E)" "ecdh s = Some (fst (env_keypair E 0))" "hiskex s = None"
    "sent s = [(SPTPS_HANDSHAKE, plain_wire dg 0 (first_kex E))]"
  using assms
  by (simp add: sptps_start_def send_kex_def send_plain first_kex_def split_beta Let_def)

text \<open>The wire of the last record a session sent.\<close>

definition last_sent :: "sptps \<Rightarrow> bytes" where
  "last_sent s = snd (last (sent s))"

text \<open>The direction from \<open>a\<close> to \<open>b\<close> is open and in step.\<close>

definition link_ok :: "sptps \<Rightarrow> sptps \<Rightarrow> bool" where
  "link_ok a b \<longleftrightarrow> outstate a \<and> instate b \<and> datagram a = datagram b \<and>
     outcipher a \<noteq> None \<and> incipher b = outcipher a \<and> outseqno a = inseqno b \<and> inbuf b = []"

lemma receive_plain_ok:
  assumes s: "\<not> instate s" "inbuf s = []" and d: "length data < 65536"
    and w: "w = plain_wire (datagram s) (inseqno s) data"
    and h: "receive_handshake E data (took w (length data) s) = Some (True, t)"
    and t: "inbuf t = inbuf (took w (length data) s)" "datagram t = datagram s"
  obtains u where "sptps_receive_data E w s = Some (length w, u)" "u = t\<lparr>inbuf := []\<rparr>"
proof -
  have "t = t\<lparr>inbuf := []\<rparr>" if "datagram s"
    using t s(2) that by (cases t) (simp add: took_def)
  then show ?thesis
    using receive_plain [OF s d refl w, of E] h
    by (intro that [of "t\<lparr>inbuf := []\<rparr>"]) (auto simp: record_done_def)
qed

lemma handshake_agrees:
  assumes P: "parties A B"
  obtains a0 b0 a1 b1 b2 a2 where
    "sptps_start A True dg win lab = Some (True, a0)" "sptps_start B False dg win' lab = Some (True, b0)"
    "sptps_receive_data A (last_sent b0) a0 = Some (length (last_sent b0), a1)"
    "sptps_receive_data B (last_sent a0) b0 = Some (length (last_sent a0), b1)"
    "sptps_receive_data B (last_sent a1) b1 = Some (length (last_sent a1), b2)"
    "sptps_receive_data A (last_sent b2) a1 = Some (length (last_sent b2), a2)"
    "state a2 = SPTPS_SECONDARY_KEX" "state b2 = SPTPS_SECONDARY_KEX"
    "link_ok a2 b2" "link_ok b2 a2"
proof -
  have send: "env_send_data A = (\<lambda>t b. True)" "env_send_data B = (\<lambda>t b. True)"
    and siglen: "env_siglen A < 65536" "env_siglen B < 65536"
    using P by (simp_all add: parties_def)
  let ?ka = "first_kex A" and ?kb = "first_kex B"
  have ka: "length ?ka = 65" "hd ?ka = 0" "kex_pubkey ?ka = snd (env_keypair A 0)"
    and kb: "length ?kb = 65" "hd ?kb = 0" "kex_pubkey ?kb = snd (env_keypair B 0)"
    using first_kex_facts [of A] first_kex_facts [of B] P by (simp_all add: parties_def)
  obtain sigA where sigA: "env_sign A (1 # ?ka @ ?kb @ lab) = Some sigA"
    "env_verify B (1 # ?ka @ ?kb @ lab) sigA" "length sigA = env_siglen B"
    using P unfolding parties_def by blast
  obtain sigB where sigB: "env_sign B (0 # ?kb @ ?ka @ lab) = Some sigB"
    "env_verify A (0 # ?kb @ ?ka @ lab) sigB" "length sigB = env_siglen A"
    using P unfolding parties_def by blast
  obtain sh where sh: "env_shared A (fst (env_keypair A 0)) (snd (env_keypair B 0)) = Some sh"
    "env_shared B (fst (env_keypair B 0)) (snd (env_keypair A 0)) = Some sh"
    using P unfolding parties_def by blast
  obtain k where k: "env_prf A sh (exchange_seed ?ka ?kb lab) = Some k"
    "env_prf B sh (exchange_seed ?ka ?kb lab) = Some k"
    using P unfolding parties_def by blast
  obtain a0 where a0: "sptps_start A True dg win lab = Some (True, a0)"
    "state a0 = SPTPS_KEX" "initiator a0" "datagram a0 = dg" "label a0 = lab"
    "\<not> instate a0" "\<not> outstate a0" "inbuf a0 = []" "inseqno a0 = 0" "outseqno a0 = 1"
    "mykex a0 = Some ?ka" "ecdh a0 = Some (fst (env_keypair A 0))" "hiskex a0 = None"
    "sent a0 = [(SPTPS_HANDSHAKE, plain_wire dg 0 ?ka)]"
    by (rule sptps_start_eq [OF send(1), of True dg win lab]) simp
  obtain b0 where b0: "sptps_start B False dg win' lab = Some (True, b0)"
    "state b0 = SPTPS_KEX" "\<not> initiator b0" "datagram b0 = dg" "label b0 = lab"
    "\<not> instate b0" "\<not> outstate b0" "inbuf b0 = []" "inseqno b0 = 0" "outseqno b0 = 1"
    "mykex b0 = Some ?kb" "ecdh b0 = Some (fst (env_keypair B 0))" "hiskex b0 = None"
    "sent b0 = [(SPTPS_HANDSHAKE, plain_wire dg 0 ?kb)]"
    by (rule sptps_start_eq [OF send(2), of False dg win' lab]) simp
  let ?ta = "took (plain_wire dg 0 ?kb) 65 a0"
  define ua where "ua = ?ta\<lparr>hiskex := Some ?kb, outseqno := outseqno ?ta + 1,
      sent := sent ?ta @ [(SPTPS_HANDSHAKE, plain_wire (datagram ?ta) (outseqno ?ta) sigA)], state := SPTPS_SIG\<rparr>"
  have ha: "receive_handshake A ?kb ?ta = Some (True, ua)"
    unfolding ua_def by (rule initiator_kex) (use a0 kb sigA send in simp_all)
  obtain a1 where a1: "sptps_receive_data A (last_sent b0) a0 = Some (length (last_sent b0), a1)"
    "state a1 = SPTPS_SIG" "initiator a1" "datagram a1 = dg" "label a1 = lab" "\<not> instate a1" "\<not> outstate a1"
    "inbuf a1 = []" "inseqno a1 = 1" "outseqno a1 = 2" "mykex a1 = Some ?ka"
    "ecdh a1 = Some (fst (env_keypair A 0))" "hiskex a1 = Some ?kb"
    "last_sent a1 = plain_wire dg 1 sigA"
    by (rule receive_plain_ok [of a0 ?kb "last_sent b0" A ua])
      (use a0 b0 kb ha in \<open>simp_all add: last_sent_def ua_def\<close>)
  let ?tb = "took (plain_wire dg 0 ?ka) 65 b0"
  define ub where "ub = ?tb\<lparr>hiskex := Some ?ka, state := SPTPS_SIG\<rparr>"
  have hb: "receive_handshake B ?ka ?tb = Some (True, ub)"
    unfolding ub_def by (rule responder_kex) (use b0 ka in simp_all)
  obtain b1 where b1: "sptps_receive_data B (last_sent a0) b0 = Some (length (last_sent a0), b1)"
    "state b1 = SPTPS_SIG" "\<not> initiator b1" "datagram b1 = dg" "label b1 = lab" "\<not> instate b1" "\<not> outstate b1"
    "inbuf b1 = []" "inseqno b1 = 1" "outseqno b1 = 1" "mykex b1 = Some ?kb"
    "ecdh b1 = Some (fst (env_keypair B 0))" "hiskex b1 = Some ?ka"
    by (rule receive_plain_ok [of b0 ?ka "last_sent a0" B ub])
      (use a0 b0 ka hb in \<open>simp_all add: last_sent_def ub_def\<close>)
  let ?w = "plain_wire dg 1 sigA"
  obtain tb where tb: "receive_handshake B sigA (took ?w (length sigA) b1) = Some (True, tb)"
    "state tb = SPTPS_SECONDARY_KEX" "instate tb" "outstate tb"
    "incipher tb = Some (key1 k)" "outcipher tb = Some (key0 k)" "outseqno tb = 2" "inseqno tb = 2"
    "datagram tb = dg" "inbuf tb = inbuf (took ?w (length sigA) b1)" "last_sent tb = plain_wire dg 1 sigB"
    using responder_sig [of "took ?w (length sigA) b1" ?kb ?ka "fst (env_keypair B 0)" sigA B sh k sigB]
      b1 sigA sigB sh k ka send by (auto simp: last_sent_def)
  obtain b2 where b2: "sptps_receive_data B (last_sent a1) b1 = Some (length (last_sent a1), b2)"
    "b2 = tb\<lparr>inbuf := []\<rparr>"
    by (rule receive_plain_ok [of b1 sigA "last_sent a1" B tb])
      (use a1 b1 tb sigA siglen in simp_all)
  let ?v = "plain_wire dg 1 sigB"
  obtain ta where ta: "receive_handshake A sigB (took ?v (length sigB) a1) = Some (True, ta)"
    "state ta = SPTPS_SECONDARY_KEX" "instate ta" "outstate ta"
    "incipher ta = Some (key0 k)" "outcipher ta = Some (key1 k)" "outseqno ta = 2" "inseqno ta = 2"
    "datagram ta = dg" "inbuf ta = inbuf (took ?v (length sigB) a1)"
    using initiator_sig [of "took ?v (length sigB) a1" ?ka ?kb "fst (env_keypair A 0)" sigB A sh k]
      a1 sigA sigB sh k kb send by auto
  have last: "last_sent b2 = plain_wire dg 1 sigB" using tb b2 by (simp add: last_sent_def)
  obtain a2 where a2: "sptps_receive_data A (last_sent b2) a1 = Some (length (last_sent b2), a2)"
    "a2 = ta\<lparr>inbuf := []\<rparr>"
    by (rule receive_plain_ok [of a1 sigB "last_sent b2" A ta])
      (use a1 last ta sigB siglen in simp_all)
  show ?thesis
    by (rule that [OF a0(1) b0(1) a1(1) b1(1) b2(1) a2(1)])
      (use ta tb in \<open>simp_all add: a2(2) b2(2) link_ok_def\<close>)
qed

section \<open>Sending and receiving records\<close>

fun send_records :: "sptps_env \<Rightarrow> (u8 \<times> bytes) list \<Rightarrow> sptps_op" where
  "send_records E [] = succeed"
| "send_records E ((t, d) # rs) = and_then (sptps_send_record E t d) (send_records E rs)"

fun sealed_wire :: "sptps_env \<Rightarrow> bytes \<Rightarrow> bool \<Rightarrow> u32 \<Rightarrow> u8 \<times> bytes \<Rightarrow> bytes" where
  "sealed_wire E k dg q (t, d) =
     (if dg then be32 q else be16 (of_nat (length d))) @ env_encrypt E k q (t # d)"

fun sealed_wires :: "sptps_env \<Rightarrow> bytes \<Rightarrow> bool \<Rightarrow> u32 \<Rightarrow> (u8 \<times> bytes) list \<Rightarrow> bytes list" where
  "sealed_wires E k dg q [] = []"
| "sealed_wires E k dg q (r # rs) = sealed_wire E k dg q r # sealed_wires E k dg (q + 1) rs"

definition record_ok :: "u8 \<times> bytes \<Rightarrow> bool" where
  "record_ok r \<longleftrightarrow> fst r < SPTPS_HANDSHAKE \<and> length (snd r) < 65536"

lemma length_sealed_wires [simp]: "length (sealed_wires E k dg q rs) = length rs"
  by (induction rs arbitrary: q) auto

lemma nth_sealed_wires:
  "i < length rs \<Longrightarrow> sealed_wires E k dg q rs ! i = sealed_wire E k dg (q + of_nat i) (rs ! i)"
proof (induction rs arbitrary: q i)
  case (Cons r rs)
  then show ?case by (cases i) (simp_all add: ac_simps)
qed simp

lemma send_records_eq:
  assumes "env_send_data E = (\<lambda>t b. True)" "outstate s" "outcipher s = Some k" "\<forall>r\<in>set rs. record_ok r"
  shows "\<exists>s'. send_records E rs s = Some (True, s') \<and>
    map snd (drop (length (sent s)) (sent s')) = sealed_wires E k (datagram s) (outseqno s) rs \<and>
    take (length (sent s)) (sent s') = sent s \<and>
    outseqno s' = outseqno s + of_nat (length rs) \<and> outstate s' = outstate s \<and>
    outcipher s' = outcipher s \<and> datagram s' = datagram s"
  using assms(2-)
proof (induction rs arbitrary: s)
  case (Cons r rs)
  obtain t d where r: "r = (t, d)" by (cases r)
  let ?s = "put_record E t d s"
  have t: "\<not> SPTPS_HANDSHAKE \<le> t" using Cons.prems(3) r by (auto simp: record_ok_def not_le)
  have "sptps_send_record E t d s = Some (True, ?s)"
    using Cons.prems t assms(1) by (simp add: sptps_send_record_def send_record_eq)
  then have eq: "send_records E (r # rs) s = send_records E rs ?s" by (simp add: r and_then_def)
  obtain s' where s': "send_records E rs ?s = Some (True, s')"
    "map snd (drop (length (sent ?s)) (sent s')) = sealed_wires E k (datagram s) (outseqno s + 1) rs"
    "take (length (sent ?s)) (sent s') = sent ?s"
    "outseqno s' = outseqno s + 1 + of_nat (length rs)" "outstate s'" "outcipher s' = Some k"
    "datagram s' = datagram s"
    using Cons.IH [of ?s] Cons.prems by auto
  have split: "sent s' = sent ?s @ drop (length (sent ?s)) (sent s')"
    using append_take_drop_id [of "length (sent ?s)" "sent s'"] unfolding s'(3) by (rule sym)
  have "record_wire E t d s = sealed_wire E k (datagram s) (outseqno s) r"
    using Cons.prems by (simp add: record_wire_def r)
  then have "map snd (drop (length (sent s)) (sent s')) = sealed_wires E k (datagram s) (outseqno s) (r # rs)"
    by (subst split) (simp add: s'(2) [simplified])
  moreover have "take (length (sent s)) (sent s') = sent s"
    by (subst split) simp
  ultimately show ?case using eq s'(1,4-7) Cons.prems(1,2) by (simp add: add.assoc)
qed (simp add: succeed_def)

lemma feed_sealed:
  assumes E: "seals A B" "env_receive_record B = (\<lambda>t b. True)"
    and s: "\<not> datagram s" "inbuf s = []" "instate s" "incipher s = Some k"
    and r: "record_ok r"
  shows "\<exists>s'. sptps_feed B (sealed_wire A k False (inseqno s) r) s = Some (True, s') \<and>
    delivered s' = delivered s @ [r] \<and> inseqno s' = inseqno s + 1 \<and> \<not> datagram s' \<and> inbuf s' = [] \<and>
    instate s' \<and> incipher s' = Some k"
proof -
  obtain t d where td: "r = (t, d)" by (cases r)
  let ?w = "sealed_wire A k False (inseqno s) r"
  obtain s' where got: "sptps_receive_data B ?w s = Some (length ?w, s')"
    and s': "s' = s\<lparr>reclen := of_nat (length d), inseqno := inseqno s + 1, inbuf := [],
       delivered := delivered s @ [(t, d)]\<rparr>"
    using receive_sealed [OF s refl _ _ E(1), of d t ?w] r E(2) by (auto simp: td record_ok_def)
  have "?w \<noteq> []" by (simp add: td be16_def)
  then have "sptps_feed B ?w s = Some (True, s')"
    by (subst sptps_feed.simps) (simp add: got del: sealed_wire.simps)
  with s s' td show ?thesis by (intro exI [of _ s']) simp
qed

lemma feed_sealed_wires:
  assumes E: "seals A B" "env_receive_record B = (\<lambda>t b. True)"
    and s: "\<not> datagram s" "inbuf s = []" "instate s" "incipher s = Some k"
    and rs: "\<forall>r\<in>set rs. record_ok r"
  shows "\<exists>s'. sptps_feed B (concat (sealed_wires A k False (inseqno s) rs)) s = Some (True, s') \<and>
    delivered s' = delivered s @ rs \<and> inseqno s' = inseqno s + of_nat (length rs) \<and> \<not> datagram s' \<and>
    inbuf s' = [] \<and> instate s' \<and> incipher s' = Some k"
  using s rs
proof (induction rs arbitrary: s)
  case (Cons r rs)
  have ok: "stream_ok s" using Cons.prems by (simp add: stream_ok_def)
  obtain s1 where s1: "sptps_feed B (sealed_wire A k False (inseqno s) r) s = Some (True, s1)"
    "delivered s1 = delivered s @ [r]" "inseqno s1 = inseqno s + 1" "\<not> datagram s1" "inbuf s1 = []"
    "instate s1" "incipher s1 = Some k"
    using feed_sealed [OF E Cons.prems(1-4), of r] Cons.prems(5) by auto
  with Cons.IH [of s1] Cons.prems show ?case
    by (auto simp: feed_append [OF ok] and_then_def ac_simps)
qed simp

text \<open>The pieces the transport hands over one after the other.\<close>

fun feed_pieces :: "sptps_env \<Rightarrow> bytes list \<Rightarrow> sptps_op" where
  "feed_pieces E [] = succeed"
| "feed_pieces E (p # ps) = and_then (sptps_feed E p) (feed_pieces E ps)"

lemma feed_ok: "stream_ok s \<Longrightarrow> sptps_feed E xs s = Some (True, s') \<Longrightarrow> stream_ok s'"
proof (induction xs arbitrary: s)
  case (Cons b xs)
  then show ?case
    using first_byte_ok [OF Cons.prems(1), of E b]
    by (auto simp: feed_Cons [OF Cons.prems(1)] split: option.splits if_splits)
qed simp

lemma feed_pieces_concat: "stream_ok s \<Longrightarrow> feed_pieces E ps s = sptps_feed E (concat ps) s"
proof (induction ps arbitrary: s)
  case (Cons p ps)
  show ?case
    using feed_ok [OF Cons.prems, of E p] Cons.IH
    by (auto simp: feed_append [OF Cons.prems] and_then_def split: option.split)
qed (simp add: succeed_def)

section \<open>Datagrams\<close>

lemma receive_sealed_datagram:
  assumes E: "seals A B" "env_receive_record B = (\<lambda>t b. True)"
    and s: "datagram s" "instate s" "incipher s = Some k" and r: "record_ok r"
    and w: "w = sealed_wire A k True q r"
    and c: "sptps_check_seqno s q True = (ok, t)"
  shows "sptps_receive_data B w s =
    Some (length w, if ok then t\<lparr>delivered := delivered t @ [r]\<rparr> else t)"
proof -
  obtain ty d where td: "r = (ty, d)" by (cases r)
  let ?c = "env_encrypt A k q (ty # d)"
  have len: "length ?c = length d + 17" "env_decrypt B k q ?c = Some (ty # d)"
    using E(1) by (simp_all add: seals_def)
  have inst: "instate t" using check_seqno_same(6) [of s q True] c s(2) by (simp del: check_seqno_same)
  have "sptps_receive_data_datagram B w s = datagram_record B q (ty # d) s"
    using s len by (simp add: sptps_receive_data_datagram_def w td)
  also have "\<dots> = Some (True, if ok then t\<lparr>delivered := delivered t @ [r]\<rparr> else t)"
    using c r inst E(2) by (simp add: datagram_record_def succeed_def sptps_dispatch_def td
        record_ok_def cut16_short receive_record_def)
  finally show ?thesis using s(1) by (simp add: sptps_receive_data_def)
qed

text \<open>A sequence of arrivals, none of which is answered with an error.\<close>

fun receive_all :: "sptps_env \<Rightarrow> bytes list \<Rightarrow> sptps \<Rightarrow> sptps option" where
  "receive_all E [] s = Some s"
| "receive_all E (w # ws) s =
     (case sptps_receive_data E w s of
        None \<Rightarrow> None
      | Some (n, s') \<Rightarrow> if n = 0 then None else receive_all E ws s')"

definition accepted_records :: "(u8 \<times> bytes) list \<Rightarrow> nat list \<Rightarrow> bool list \<Rightarrow> (u8 \<times> bytes) list" where
  "accepted_records rs idxs answers = map (\<lambda>(i, ok). rs ! i) (filter snd (zip idxs answers))"

lemma receive_all_datagrams:
  assumes E: "seals A B" "env_receive_record B = (\<lambda>t b. True)"
    and s: "datagram s" "instate s" "incipher s = Some k" and rs: "\<forall>r\<in>set rs. record_ok r"
    and bound: "unat q + length rs + win_bits s + 1 < 2 ^ 32"
    and win: "win_ok s acc" and idxs: "\<forall>i\<in>set idxs. i < length rs"
  shows "\<exists>s'. receive_all B (map (\<lambda>i. sealed_wires A k True q rs ! i) idxs) s = Some s' \<and>
    delivered s' = delivered s @ accepted_records rs idxs
      (fst (run_ops (\<lambda>i. spec_seqno (win_bits s) (unat q + i)) idxs acc))"
  using s bound win idxs
proof (induction idxs arbitrary: s acc)
  case (Cons i idxs)
  have i: "i < length rs" using Cons.prems by simp
  let ?q = "q + of_nat i" and ?w = "sealed_wire A k True (q + of_nat i) (rs ! i)"
  have unat_i: "unat (of_nat i :: u32) = i"
    by (subst unat_of_nat) (use i Cons.prems(4) in simp)
  have q: "unat ?q = unat q + i"
    using unat_add_lem [of q "of_nat i"] unat_i i Cons.prems(4) by simp
  obtain ok t where c: "sptps_check_seqno s ?q True = (ok, t)" by fastforce
  have ref: "ok = fst (spec_seqno (win_bits s) (unat q + i) acc)"
    "win_ok t (snd (spec_seqno (win_bits s) (unat q + i) acc))" "win_bits t = win_bits s"
    using sptps_check_seqno_refines [OF Cons.prems(5), of ?q] q i Cons.prems(4) c by simp_all
  have same: "datagram t" "instate t" "incipher t = Some k" "delivered t = delivered s"
    using check_seqno_same(2,6,7,17) [of s ?q True] c Cons.prems(1-3) by (simp_all del: check_seqno_same)
  define u where "u = (if ok then t\<lparr>delivered := delivered t @ [rs ! i]\<rparr> else t)"
  let ?acc = "snd (spec_seqno (win_bits s) (unat q + i) acc)"
  have step: "sptps_receive_data B ?w s = Some (length ?w, u)"
    unfolding u_def by (rule receive_sealed_datagram [OF E Cons.prems(1-3) _ refl c]) (use rs i in simp)
  have w: "length ?w \<noteq> 0" by (cases "rs ! i") (simp add: be32_def)
  have u: "datagram u" "instate u" "incipher u = Some k" "win_bits u = win_bits s" "win_ok u ?acc"
    "delivered u = delivered s @ (if ok then [rs ! i] else [])"
    using same ref(2,3) by (simp_all add: u_def win_ok_def win_bits_def)
  obtain s' where
    "receive_all B (map (\<lambda>i. sealed_wires A k True q rs ! i) idxs) u = Some s'"
    "delivered s' = delivered u @ accepted_records rs idxs (fst (run_ops
       (\<lambda>i. spec_seqno (win_bits s) (unat q + i)) idxs ?acc))"
    using Cons.IH [OF u(1-3) _ u(5)] Cons.prems(4,6) by (auto simp: u(4))
  then show ?case
    using step w u(6) ref(1) by (auto simp: nth_sealed_wires i accepted_records_def)
qed (simp add: accepted_records_def)

section \<open>Properties\<close>

text \<open>C1: Agreement: when an honest initiator and an honest responder exchange their records, in the
  stream or the datagram mode, the four messages take both to \<open>SPTPS_SECONDARY_KEX\<close> with both
  directions open, each outbound key equal to the peer's inbound key, and the counters in step.\<close>

theorem sptps_handshake_agrees:
  assumes "parties A B"
  shows "\<exists>a0 b0 a1 b1 b2 a2.
    sptps_start A True dg win lab = Some (True, a0) \<and> sptps_start B False dg win' lab = Some (True, b0) \<and>
    sptps_receive_data A (last_sent b0) a0 = Some (length (last_sent b0), a1) \<and>
    sptps_receive_data B (last_sent a0) b0 = Some (length (last_sent a0), b1) \<and>
    sptps_receive_data B (last_sent a1) b1 = Some (length (last_sent a1), b2) \<and>
    sptps_receive_data A (last_sent b2) a1 = Some (length (last_sent b2), a2) \<and>
    state a2 = SPTPS_SECONDARY_KEX \<and> state b2 = SPTPS_SECONDARY_KEX \<and>
    link_ok a2 b2 \<and> link_ok b2 a2"
  by (rule handshake_agrees [OF assms, of dg win lab win']) blast

lemma sample_parties: "parties sample_env sample_env"
  by (simp add: parties_def sample_env_def)

lemma sample_seals: "seals sample_env sample_env"
  by (simp add: seals_def sample_env_def)

theorem sptps_handshake_agrees_witness:
  "\<exists>a0 a2 b2. sptps_start sample_env True True 16 [1] = Some (True, a0) \<and> link_ok a2 b2 \<and> link_ok b2 a2"
  using sptps_handshake_agrees [OF sample_parties, of True 16 "[1]" 16] by blast

text \<open>C8: On an open stream link any list of application records of at most 65535 bytes is delivered
  exactly, in order and once, however the transport cuts the bytes, and the link stays in step.\<close>

theorem sptps_stream_delivers:
  assumes "seals A B" "env_send_data A = (\<lambda>t b. True)" "env_receive_record B = (\<lambda>t b. True)"
    and "link_ok a b" "\<not> datagram a" "\<forall>r\<in>set rs. record_ok r"
  shows "\<exists>a'. send_records A rs a = Some (True, a') \<and>
    (\<forall>pieces. concat pieces = concat (map snd (drop (length (sent a)) (sent a'))) \<longrightarrow>
       (\<exists>b'. feed_pieces B pieces b = Some (True, b') \<and> delivered b' = delivered b @ rs \<and> link_ok a' b'))"
proof -
  obtain k where k: "outcipher a = Some k" "incipher b = Some k" "outstate a" "instate b"
    "\<not> datagram b" "inbuf b = []" "outseqno a = inseqno b"
    using assms(4,5) by (auto simp: link_ok_def)
  obtain a' where a': "send_records A rs a = Some (True, a')"
    "map snd (drop (length (sent a)) (sent a')) = sealed_wires A k False (inseqno b) rs"
    "outseqno a' = inseqno b + of_nat (length rs)" "outstate a'" "outcipher a' = Some k" "\<not> datagram a'"
    using send_records_eq [OF assms(2) k(3,1) assms(6)] k assms(5) by auto
  obtain b' where b': "sptps_feed B (concat (sealed_wires A k False (inseqno b) rs)) b = Some (True, b')"
    "delivered b' = delivered b @ rs" "inseqno b' = inseqno b + of_nat (length rs)" "\<not> datagram b'"
    "inbuf b' = []" "instate b'" "incipher b' = Some k"
    using feed_sealed_wires [OF assms(1,3) k(5,6,4,2) assms(6)] by blast
  have "stream_ok b" using k by (simp add: stream_ok_def)
  from feed_pieces_concat [OF this] b'(1) have
    "feed_pieces B pieces b = Some (True, b')" if "concat pieces = concat (sealed_wires A k False (inseqno b) rs)" for pieces
    using that by simp
  moreover have "link_ok a' b'" using a' b' by (simp add: link_ok_def)
  ultimately show ?thesis using a'(1) b'(2) unfolding a'(2) [symmetric] by blast
qed

theorem sptps_stream_delivers_witness:
  "\<exists>a'. send_records sample_env [(0, [1, 2, 3]), (7, [])] (rekeying\<lparr>incipher := Some [2]\<rparr>) = Some (True, a')"
  using sptps_stream_delivers [OF sample_seals, of "rekeying\<lparr>incipher := Some [2]\<rparr>"
      "rekeying\<lparr>inseqno := 5, incipher := Some [2]\<rparr>" "[(0, [1, 2, 3]), (7, [])]"]
  by (auto simp: sample_env_def link_ok_def rekeying_def record_ok_def)

text \<open>C9: On an open datagram link, away from the end of the counter, datagrams may arrive in any
  order, be lost or be repeated: no arrival is answered with an error, and what is delivered are
  the sent records of the arrivals the set specification of the replay window accepts, so each at
  most once and unchanged.\<close>

theorem sptps_datagrams_deliver:
  assumes "seals A B" "env_send_data A = (\<lambda>t b. True)" "env_receive_record B = (\<lambda>t b. True)"
    and "outstate a" "datagram a" "outcipher a = Some k"
    and "instate b" "datagram b" "incipher b = Some k" "win_ok b acc"
    and "unat (outseqno a) + length rs + win_bits b + 1 < 2 ^ 32"
    and "\<forall>r\<in>set rs. record_ok r" "\<forall>i\<in>set arrivals. i < length rs"
  shows "\<exists>a' b'. send_records A rs a = Some (True, a') \<and>
    receive_all B (map (\<lambda>i. snd (sent a' ! (length (sent a) + i))) arrivals) b = Some b' \<and>
    delivered b' = delivered b @ accepted_records rs arrivals
      (fst (run_ops (\<lambda>i. spec_seqno (win_bits b) (unat (outseqno a) + i)) arrivals acc))"
proof -
  let ?ws = "sealed_wires A k True (outseqno a) rs"
  obtain a' where a': "send_records A rs a = Some (True, a')"
    "map snd (drop (length (sent a)) (sent a')) = ?ws"
    using send_records_eq [OF assms(2,4,6,12)] assms(5) by auto
  have "length (drop (length (sent a)) (sent a')) = length rs"
    using arg_cong [OF a'(2), of length] by simp
  then have "snd (sent a' ! (length (sent a) + i)) = ?ws ! i" if "i < length rs" for i
    using that arg_cong [OF a'(2), of "\<lambda>xs. xs ! i"] by (simp add: nth_drop)
  then have eq: "map (\<lambda>i. snd (sent a' ! (length (sent a) + i))) arrivals = map (\<lambda>i. ?ws ! i) arrivals"
    using assms(13) by simp
  show ?thesis
    by (rule exI [of _ a'], unfold eq)
      (use a'(1) receive_all_datagrams [OF assms(1,3) assms(8,7,9) assms(12,11,10,13)] in blast)
qed

theorem sptps_datagrams_deliver_witness:
  "\<exists>a' b'. send_records sample_env [(1, [9]), (2, [8])] (rekeying\<lparr>datagram := True\<rparr>) = Some (True, a') \<and>
     receive_all sample_env (map (\<lambda>i. snd (sent a' ! i)) [1, 1, 0]) (waiting_sig\<lparr>instate := True,
       incipher := Some [2], inseqno := 5, replaywin := 1, late := [0]\<rparr>) = Some b' \<and>
     delivered b' = [(2, [8]), (1, [9])]"
proof -
  let ?a = "rekeying\<lparr>datagram := True\<rparr>"
  let ?b = "waiting_sig\<lparr>instate := True, incipher := Some [2], inseqno := 5, replaywin := 1, late := [0]\<rparr>"
  have w: "win_ok ?b ({0..<5}, 5)"
    by (simp add: win_ok_def win_bits_def late_at_def)
  have "\<exists>a' b'. send_records sample_env [(1, [9]), (2, [8])] ?a = Some (True, a') \<and>
    receive_all sample_env (map (\<lambda>i. snd (sent a' ! (length (sent ?a) + i))) [1, 1, 0]) ?b = Some b' \<and>
    delivered b' = delivered ?b @ accepted_records [(1, [9]), (2, [8])] [1, 1, 0]
      (fst (run_ops (\<lambda>i. spec_seqno (win_bits ?b) (unat (outseqno ?a) + i)) [1, 1, 0] ({0..<5}, 5)))"
    by (rule sptps_datagrams_deliver [OF sample_seals _ _ _ _ _ _ _ _ w, where k = "[2]"])
      (simp_all add: sample_env_def rekeying_def waiting_sig_def win_bits_def record_ok_def)
  then show ?thesis
    by (simp add: rekeying_def waiting_sig_def win_bits_def spec_seqno_def spec_accepts_def
        accepted_records_def)
qed

end
