(* ===== verification/NetAddr.thy ===== *)
theory NetAddr
  imports SubnetAddr
begin

text \<open>
  Socket addresses (\<open>netutl.c\<close>) and the questions the daemon asks about them: is it a unicast
  address, is it on a private LAN, is it on the same LAN as this node (\<open>net_packet.c\<close>), would a
  packet to it enter the VPN again (\<open>address_cache.c\<close>).

  IP addresses are byte lists in network order, ports are numbers.  \<open>addr_env\<close> holds what the
  questions are answered from: the clock, the answers of \<open>lookup_subnet_ipv4\<close> and
  \<open>lookup_subnet_ipv6\<close> in the present state of the subnet table, this node's own subnets, the
  parsed \<open>InterfaceRoute\<close> values, and the source address the kernel selects for a destination
  (\<open>connect\<close> and \<open>getsockname\<close> on a fresh datagram socket; \<open>None\<close> if one of the calls fails).
\<close>

unbundle bit_operations_syntax

datatype sockaddr = Addr_unspec | Addr_inet bytes u16 | Addr_inet6 bytes u16 u32 | Addr_unknown string string

fun sa_family :: "sockaddr \<Rightarrow> int" where
  "sa_family Addr_unspec = 0"
| "sa_family (Addr_inet a p) = 2"
| "sa_family (Addr_inet6 a p s) = 10"
| "sa_family (Addr_unknown a p) = 255"

section \<open>Comparison and conversion\<close>

fun sockaddrcmp_noport :: "sockaddr \<Rightarrow> sockaddr \<Rightarrow> int" where
  "sockaddrcmp_noport (Addr_unknown a p) (Addr_unknown b q) = c_strcmp a b"
| "sockaddrcmp_noport (Addr_inet a p) (Addr_inet b q) = c_memcmp a b"
| "sockaddrcmp_noport (Addr_inet6 a p s) (Addr_inet6 b q t) = c_memcmp a b"
| "sockaddrcmp_noport a b = sa_family a - sa_family b"

fun sockaddrcmp :: "sockaddr \<Rightarrow> sockaddr \<Rightarrow> int" where
  "sockaddrcmp (Addr_unknown a p) (Addr_unknown b q) = then_cmp (c_strcmp a b) (c_strcmp p q)"
| "sockaddrcmp (Addr_inet a p) (Addr_inet b q) = then_cmp (c_memcmp a b) (c_memcmp (be16 p) (be16 q))"
| "sockaddrcmp (Addr_inet6 a p s) (Addr_inet6 b q t) =
     then_cmp (c_memcmp a b) (c_memcmp (be16 p) (be16 q))"
| "sockaddrcmp a b = sa_family a - sa_family b"

definition v4_mapped :: "bytes \<Rightarrow> bool" where
  "v4_mapped a \<longleftrightarrow> take 12 a = replicate 10 0 @ [0xff, 0xff]"

fun sockaddrunmap :: "sockaddr \<Rightarrow> sockaddr" where
  "sockaddrunmap (Addr_inet6 a p s) = (if v4_mapped a then Addr_inet (drop 12 a) p else Addr_inet6 a p s)"
| "sockaddrunmap sa = sa"

text \<open>\<open>atoi\<close>: leading white space, a sign, decimal digits.\<close>

definition is_space :: "char \<Rightarrow> bool" where
  "is_space c \<longleftrightarrow> (let n = of_char c :: nat in n = 32 \<or> 9 \<le> n \<and> n \<le> 13)"

fun digit_value :: "char \<Rightarrow> int option" where
  "digit_value c = (let n = of_char c :: nat in if 48 \<le> n \<and> n \<le> 57 then Some (int n - 48) else None)"

fun read_digits :: "int \<Rightarrow> string \<Rightarrow> int" where
  "read_digits acc [] = acc"
| "read_digits acc (c # cs) =
     (case digit_value c of None \<Rightarrow> acc | Some d \<Rightarrow> read_digits (10 * acc + d) cs)"

definition c_atoi :: "string \<Rightarrow> int" where
  "c_atoi s = (case dropWhile is_space s of
     [] \<Rightarrow> 0
   | c # cs \<Rightarrow> if c = CHR ''-'' then - read_digits 0 cs
               else if c = CHR ''+'' then read_digits 0 cs else read_digits 0 (c # cs))"

definition sockaddr_setport :: "sockaddr \<Rightarrow> string \<Rightarrow> sockaddr" where
  "sockaddr_setport sa port =
     (let portnum = word_of_int (c_atoi port)
      in if portnum = 0 then sa
         else case sa of
                Addr_inet a p \<Rightarrow> Addr_inet a portnum
              | Addr_inet6 a p s \<Rightarrow> Addr_inet6 a portnum s
              | Addr_unknown a p \<Rightarrow> Addr_unknown a port
              | Addr_unspec \<Rightarrow> sa)"

text \<open>\<open>ntohl(sin_addr.s_addr)\<close>\<close>

definition ip32 :: "bytes \<Rightarrow> u32" where
  "ip32 a = word_of_nat (be_val a)"

definition in6_unspecified :: "bytes \<Rightarrow> bool" where
  "in6_unspecified a \<longleftrightarrow> a = replicate 16 0"

definition in6_loopback :: "bytes \<Rightarrow> bool" where
  "in6_loopback a \<longleftrightarrow> a = replicate 15 0 @ [1]"

fun is_local_connection :: "sockaddr \<Rightarrow> bool" where
  "is_local_connection (Addr_inet a p) \<longleftrightarrow> drop_bit 24 (ip32 a) = 127"
| "is_local_connection (Addr_inet6 a p s) \<longleftrightarrow> in6_loopback a"
| "is_local_connection sa \<longleftrightarrow> False"

fun sockaddr_is_unicast_ip :: "sockaddr \<Rightarrow> bool" where
  "sockaddr_is_unicast_ip (Addr_inet a p) \<longleftrightarrow> ip32 a \<noteq> 0 \<and> drop_bit 24 (ip32 a) \<noteq> 127"
| "sockaddr_is_unicast_ip (Addr_inet6 a p s) \<longleftrightarrow> \<not> in6_unspecified a \<and> \<not> in6_loopback a"
| "sockaddr_is_unicast_ip sa \<longleftrightarrow> False"

section \<open>Private networks\<close>

record addr_env =
  ae_now :: int
  ae_lookup4 :: "bytes \<Rightarrow> subnet option"
  ae_lookup6 :: "bytes \<Rightarrow> subnet option"
  ae_own :: "net list"
  ae_interface_routes :: "net option list"
  ae_local :: "sockaddr \<Rightarrow> sockaddr option"

text \<open>The address is a host of the VPN: the longest prefix match is a single address.\<close>

definition vpn_host4 :: "addr_env \<Rightarrow> bytes \<Rightarrow> bool" where
  "vpn_host4 E a = (case ae_lookup4 E a of None \<Rightarrow> False
     | Some s \<Rightarrow> (case net s of Ipv4 plen _ \<Rightarrow> plen = 32 | _ \<Rightarrow> False))"

definition vpn_host6 :: "addr_env \<Rightarrow> bytes \<Rightarrow> bool" where
  "vpn_host6 E a = (case ae_lookup6 E a of None \<Rightarrow> False
     | Some s \<Rightarrow> (case net s of Ipv6 plen _ \<Rightarrow> plen = 128 | _ \<Rightarrow> False))"

definition sockaddr_is_private_lan :: "addr_env \<Rightarrow> sockaddr \<Rightarrow> bool" where
  "sockaddr_is_private_lan E sa =
     (if \<not> sockaddr_is_unicast_ip sa then False
      else case sa of
        Addr_inet a p \<Rightarrow>
          if vpn_host4 E a then False
          else let ip = ip32 a
               in ip AND 0xff000000 = 0x0a000000 \<or> ip AND 0xfff00000 = 0xac100000 \<or>
                  ip AND 0xffff0000 = 0xc0a80000 \<or> ip AND 0xffff0000 = 0xa9fe0000
      | Addr_inet6 a p scope \<Rightarrow>
          if vpn_host6 E a then False
          else a ! 0 = 0xfe \<and> a ! 1 AND 0xc0 = 0x80 \<and> scope \<noteq> 0 \<or> a ! 0 AND 0xfe = 0xfc
      | _ \<Rightarrow> False)"

text \<open>The comparison of two addresses of the same family: one \<open>/24\<close>, or one \<open>/64\<close>.\<close>

fun same_segment :: "sockaddr \<Rightarrow> sockaddr \<Rightarrow> bool" where
  "same_segment (Addr_inet a p) (Addr_inet b q) \<longleftrightarrow> ip32 a AND 0xffffff00 = ip32 b AND 0xffffff00"
| "same_segment (Addr_inet6 a p s) (Addr_inet6 b q t) \<longleftrightarrow> c_memcmp (take 8 a) (take 8 b) = 0"
| "same_segment a b \<longleftrightarrow> False"

text \<open>
  The two addresses an edge offers: the local address of its near end, and the address its reverse
  edge has for that end, if there is a reverse.
\<close>

definition my_lan_address :: "addr_env \<Rightarrow> sockaddr \<times> sockaddr option \<Rightarrow> sockaddr option" where
  "my_lan_address E e =
     (if sockaddr_is_unicast_ip (fst e) then Some (fst e)
      else case snd e of None \<Rightarrow> None
             | Some ra \<Rightarrow> if sockaddr_is_private_lan E ra then Some ra else None)"

definition sockaddr_same_lan_as_myself :: "addr_env \<Rightarrow> (sockaddr \<times> sockaddr option) list \<Rightarrow> sockaddr \<Rightarrow> bool" where
  "sockaddr_same_lan_as_myself E my_edges sa =
     (sockaddr_is_private_lan E sa \<and>
      list_ex (\<lambda>e. case my_lan_address E e of None \<Rightarrow> False | Some my_sa \<Rightarrow> same_segment sa my_sa) my_edges)"

section \<open>Routes into the VPN\<close>

fun with_port :: "sockaddr \<Rightarrow> sockaddr" where
  "with_port (Addr_inet a p) = Addr_inet a (if p = 0 then 655 else p)"
| "with_port (Addr_inet6 a p s) = Addr_inet6 a (if p = 0 then 655 else p) s"
| "with_port sa = sa"

fun own_address :: "sockaddr \<Rightarrow> net \<Rightarrow> bool" where
  "own_address (Addr_inet a p) (Ipv4 plen b) \<longleftrightarrow> c_memcmp a b = 0"
| "own_address (Addr_inet6 a p s) (Ipv6 plen b) \<longleftrightarrow> c_memcmp a b = 0"
| "own_address sa n \<longleftrightarrow> False"

fun route_covers :: "sockaddr \<Rightarrow> net option \<Rightarrow> bool" where
  "route_covers (Addr_inet a p) (Some (Ipv4 plen b)) \<longleftrightarrow> 1 < plen \<and> maskcmp a b plen = 0"
| "route_covers (Addr_inet6 a p s) (Some (Ipv6 plen b)) \<longleftrightarrow> 1 < plen \<and> maskcmp a b plen = 0"
| "route_covers sa r \<longleftrightarrow> False"

definition vpn_host :: "addr_env \<Rightarrow> sockaddr \<Rightarrow> bool" where
  "vpn_host E sa = (case sa of Addr_inet a p \<Rightarrow> vpn_host4 E a | Addr_inet6 a p s \<Rightarrow> vpn_host6 E a | _ \<Rightarrow> False)"

definition address_routes_via_vpn_uncached :: "addr_env \<Rightarrow> sockaddr \<Rightarrow> bool" where
  "address_routes_via_vpn_uncached E sa =
     (case sa of Addr_unspec \<Rightarrow> False | Addr_unknown a p \<Rightarrow> False
      | _ \<Rightarrow>
        if vpn_host E sa then True
        else
          let local = map_option sockaddrunmap (ae_local E (with_port sa));
              rest = list_ex (route_covers sa) (ae_interface_routes E)
          in case local of
               None \<Rightarrow> rest
             | Some l \<Rightarrow> if list_ex (own_address l) (ae_own E) then True
                        else if sockaddr_is_unicast_ip l \<and> same_segment l sa then False
                        else rest)"

record route_cache =
  rc_entries :: "(sockaddr \<times> int \<times> bool) list"
  rc_cursor :: nat

definition empty_route_cache :: route_cache where
  "empty_route_cache = \<lparr>rc_entries = replicate 16 (Addr_unspec, 0, False), rc_cursor = 0\<rparr>"

fun route_cache_find :: "int \<Rightarrow> sockaddr \<Rightarrow> (sockaddr \<times> int \<times> bool) list \<Rightarrow> bool option" where
  "route_cache_find t sa [] = None"
| "route_cache_find t sa ((sa', t', res) # es) =
     (if t' = t \<and> sockaddrcmp_noport sa' sa = 0 then Some res else route_cache_find t sa es)"

definition address_routes_via_vpn :: "addr_env \<Rightarrow> sockaddr \<Rightarrow> route_cache \<Rightarrow> bool \<times> route_cache" where
  "address_routes_via_vpn E sa c =
     (if ae_now E > 0
      then case route_cache_find (ae_now E) sa (rc_entries c) of
             Some res \<Rightarrow> (res, c)
           | None \<Rightarrow>
               let res = address_routes_via_vpn_uncached E sa
               in (res, c\<lparr>rc_entries := (rc_entries c)[rc_cursor c := (sa, ae_now E, res)],
                          rc_cursor := (rc_cursor c + 1) mod 16\<rparr>)
      else (address_routes_via_vpn_uncached E sa, c))"

section \<open>Nodes on the same LAN\<close>

text \<open>\<open>vpn\<close>: the answers of \<open>address_routes_via_vpn\<close>.\<close>

definition edge_usable_local_addr ::
  "addr_env \<Rightarrow> (sockaddr \<Rightarrow> bool) \<Rightarrow> sockaddr \<times> sockaddr option \<Rightarrow> sockaddr option" where
  "edge_usable_local_addr E vpn e =
     (if sockaddr_is_unicast_ip (fst e) \<and> \<not> vpn (fst e) then Some (fst e)
      else case snd e of None \<Rightarrow> None
             | Some ra \<Rightarrow> if sockaddr_is_private_lan E ra \<and> \<not> vpn ra then Some ra else None)"

definition TRANSPORT_BIT :: "nat \<Rightarrow> u32" where "TRANSPORT_BIT i = push_bit i 1"

definition udp_carriers :: u32 where
  "udp_carriers = TRANSPORT_BIT 0 OR TRANSPORT_BIT 2 OR TRANSPORT_BIT 3 OR TRANSPORT_BIT 5"

definition node_shares_local_lan ::
  "addr_env \<Rightarrow> (sockaddr \<Rightarrow> bool) \<Rightarrow> (sockaddr \<times> sockaddr option) list \<Rightarrow> u32 \<Rightarrow>
   (sockaddr \<times> sockaddr option) list \<Rightarrow> bool" where
  "node_shares_local_lan E vpn my_edges ntransports n_edges =
     (if ntransports \<noteq> 0 \<and> ntransports AND udp_carriers = 0 then False
      else list_ex (\<lambda>e. case edge_usable_local_addr E vpn e of None \<Rightarrow> False
                       | Some cand \<Rightarrow> sockaddr_same_lan_as_myself E my_edges cand) n_edges)"

section \<open>The order of addresses\<close>

fun addr_ok :: "sockaddr \<Rightarrow> bool" where
  "addr_ok (Addr_inet a p) \<longleftrightarrow> length a = 4"
| "addr_ok (Addr_inet6 a p s) \<longleftrightarrow> length a = 16"
| "addr_ok sa \<longleftrightarrow> True"

definition host_port_cmp :: "bytes \<times> u16 \<Rightarrow> bytes \<times> u16 \<Rightarrow> int" where
  "host_port_cmp x y = then_cmp (c_memcmp (fst x) (fst y)) (c_memcmp (be16 (snd x)) (be16 (snd y)))"

definition string_pair_cmp :: "string \<times> string \<Rightarrow> string \<times> string \<Rightarrow> int" where
  "string_pair_cmp x y = then_cmp (c_strcmp (fst x) (fst y)) (c_strcmp (snd x) (snd y))"

lemma comparator_host_port: "comparator host_port_cmp {x. length (fst x) = n}"
proof -
  have "comparator (\<lambda>x y. c_memcmp (fst x) (fst y)) {x :: bytes \<times> u16. length (fst x) = n}"
    by (rule comparator_inj [OF memcmp.comparator_axioms [of n]]) simp
  moreover have "comparator (\<lambda>x y. c_memcmp (be16 (snd x)) (be16 (snd y))) {x :: bytes \<times> u16. length (fst x) = n}"
    by (rule comparator_inj [OF memcmp.comparator_axioms [of 2]]) simp
  ultimately show ?thesis unfolding host_port_cmp_def by (rule comparator_then)
qed

lemma comparator_string_pair: "comparator string_pair_cmp UNIV"
  unfolding string_pair_cmp_def
  by (rule comparator_then; rule comparator_inj [OF strcmp.comparator_axioms]) auto

interpretation host4: comparator host_port_cmp "{x. length (fst x) = 4}"
  by (rule comparator_host_port)

interpretation host16: comparator host_port_cmp "{x. length (fst x) = 16}"
  by (rule comparator_host_port)

interpretation string_pair: comparator string_pair_cmp UNIV
  by (rule comparator_string_pair)

lemma sockaddrcmp_cases:
  "sockaddrcmp (Addr_unknown a p) (Addr_unknown b q) = string_pair_cmp (a, p) (b, q)"
  "sockaddrcmp (Addr_inet c v) (Addr_inet d w) = host_port_cmp (c, v) (d, w)"
  "sockaddrcmp (Addr_inet6 c v s) (Addr_inet6 d w t) = host_port_cmp (c, v) (d, w)"
  by (simp_all add: host_port_cmp_def string_pair_cmp_def)

lemma sockaddrcmp_swap: "addr_ok x \<Longrightarrow> addr_ok y \<Longrightarrow> 0 < sockaddrcmp x y \<longleftrightarrow> sockaddrcmp y x < 0"
  using host4.cmp_swap host16.cmp_swap string_pair.cmp_swap
  by (cases x; cases y) (simp_all add: sockaddrcmp_cases del: sockaddrcmp.simps(1-3))

lemma sockaddrcmp_trans:
  assumes "addr_ok x" "addr_ok y" "addr_ok z" "sockaddrcmp x y \<le> 0" "sockaddrcmp y z \<le> 0"
  shows "sockaddrcmp x z \<le> 0"
proof -
  have le: "sa_family x \<le> sa_family y" "sa_family y \<le> sa_family z"
    using assms(4,5) by (cases x; cases y; cases z; simp)+
  show ?thesis
  proof (cases "sa_family x = sa_family z")
    case False
    with le show ?thesis by (cases x; cases z) simp_all
  next
    case True
    with le have "sa_family x = sa_family y" "sa_family z = sa_family y" by auto
    then have fam: "sa_family x = sa_family y" "sa_family z = sa_family y" .
    show ?thesis
    proof (cases y)
      case Addr_unspec
      with fam show ?thesis by (cases x; cases z) simp_all
    next
      case (Addr_inet b q)
      with fam obtain a p c r where "x = Addr_inet a p" "z = Addr_inet c r" by (cases x; cases z) auto
      with Addr_inet assms host4.cmp_trans [of "(a, p)" "(b, q)" "(c, r)"] show ?thesis
        by (simp add: sockaddrcmp_cases del: sockaddrcmp.simps(1-3))
    next
      case (Addr_inet6 b q t)
      with fam obtain a p s c r u where "x = Addr_inet6 a p s" "z = Addr_inet6 c r u"
        by (cases x; cases z) auto
      with Addr_inet6 assms host16.cmp_trans [of "(a, p)" "(b, q)" "(c, r)"] show ?thesis
        by (simp add: sockaddrcmp_cases del: sockaddrcmp.simps(1-3))
    next
      case (Addr_unknown b q)
      with fam obtain a p c r where "x = Addr_unknown a p" "z = Addr_unknown c r" by (cases x; cases z) auto
      with Addr_unknown assms string_pair.cmp_trans [of "(a, p)" "(b, q)" "(c, r)"] show ?thesis
        by (simp add: sockaddrcmp_cases del: sockaddrcmp.simps(1-3))
    qed
  qed
qed

interpretation sockaddr_order: comparator sockaddrcmp "{sa. addr_ok sa}"
  by unfold_locales (auto simp: sockaddrcmp_swap intro: sockaddrcmp_trans)

lemma be16_inject: "be16 p = be16 q \<Longrightarrow> p = q"
  by (metis be_val_be16 word_unat_eq_iff)

fun no_scope :: "sockaddr \<Rightarrow> sockaddr" where
  "no_scope (Addr_inet6 a p s) = Addr_inet6 a p 0"
| "no_scope sa = sa"

text \<open>\<open>sockaddrcmp\<close> is a total preorder on addresses, and two addresses compare equal exactly if
  they agree in family, host and port; the scope of an IPv6 address is not compared.\<close>

lemma sockaddrcmp_order:
  assumes "addr_ok x" "addr_ok y" "addr_ok z"
  shows "(sockaddrcmp x y = 0 \<longleftrightarrow> no_scope x = no_scope y) \<and> (0 < sockaddrcmp x y \<longleftrightarrow> sockaddrcmp y x < 0) \<and>
    (sockaddrcmp x y \<le> 0 \<longrightarrow> sockaddrcmp y z \<le> 0 \<longrightarrow> sockaddrcmp x z \<le> 0)"
proof (intro conjI)
  show "sockaddrcmp x y = 0 \<longleftrightarrow> no_scope x = no_scope y"
    using assms(1,2) by (cases x; cases y) (auto simp: then_cmp_def c_memcmp_eq_iff be16_inject)
qed (use assms sockaddr_order.cmp_swap [of x y] sockaddr_order.cmp_trans [of x y z] in auto)

section \<open>Private IPv4 addresses\<close>

lemma unat_ip32: "unat (ip32 [a, b, c, d]) = ((unat a * 256 + unat b) * 256 + unat c) * 256 + unat d"
proof -
  have "be_val [a, b, c, d] < 2 ^ 32" using be_val_bound [of "[a, b, c, d]"] by simp
  then have "unat (ip32 [a, b, c, d]) = be_val [a, b, c, d]"
    unfolding ip32_def unat_of_nat by (simp del: be_val.simps)
  then show ?thesis by simp
qed

lemma byte_less: "unat w < 256" for w :: u8
  using unsigned_less [of w] by simp

lemma ip32_div:
  "unat (ip32 [a, b, c, d]) div 2 ^ 24 = unat a"
  "unat (ip32 [a, b, c, d]) div 2 ^ 16 = unat a * 256 + unat b"
  "unat (ip32 [a, b, c, d]) div 2 ^ 20 = (unat a * 256 + unat b) div 16"
proof -
  have split: "(x * 256 + unat w) div 256 = x" for x and w :: u8
    using byte_less [of w] by (simp add: div_mult_self3)
  have 16: "unat (ip32 [a, b, c, d]) div 256 div 256 = unat a * 256 + unat b"
    unfolding unat_ip32 split ..
  then show "unat (ip32 [a, b, c, d]) div 2 ^ 16 = unat a * 256 + unat b"
    by (simp add: div_mult2_eq [symmetric])
  show "unat (ip32 [a, b, c, d]) div 2 ^ 24 = unat a"
    using split [of "unat a" b] unfolding 16 [symmetric] by (simp add: div_mult2_eq [symmetric])
  show "unat (ip32 [a, b, c, d]) div 2 ^ 20 = (unat a * 256 + unat b) div 16"
    unfolding 16 [symmetric] by (simp add: div_mult2_eq [symmetric])
qed

lemma prefix_12: "y < 256 \<Longrightarrow> (x * 256 + y) div 16 = 2753 \<longleftrightarrow> x = 172 \<and> 16 \<le> y \<and> y < 32" for x y :: nat
proof -
  assume y: "y < 256"
  have "(x * 256 + y) div 16 = 16 * x + y div 16" by simp
  moreover have "16 * x + y div 16 = 2753 \<longleftrightarrow> x = 172 \<and> y div 16 = 1"
  proof -
    have "16 * x + q = 2753 \<longleftrightarrow> x = 172 \<and> q = 1" if "q < 16" for q :: nat
    proof
      assume *: "16 * x + q = 2753"
      then have "x < 173" "171 < x" using that by linarith+
      then have "x = 172" by linarith
      with * show "x = 172 \<and> q = 1" by simp
    qed simp
    with y show ?thesis by simp
  qed
  moreover have "y div 16 = 1 \<longleftrightarrow> 16 \<le> y \<and> y < 32" by presburger
  ultimately show ?thesis by simp
qed

lemma and_top_mask:
  fixes w k :: u32
  assumes "unat k = y * 2 ^ n"
  shows "w AND NOT (mask n) = k \<longleftrightarrow> unat w div 2 ^ n = y"
proof -
  have "w AND NOT (mask n) = push_bit n (drop_bit n w)"
    by (rule bit_word_eqI) (auto simp: bit_simps)
  moreover have "unat (push_bit n (drop_bit n w)) = unat w div 2 ^ n * 2 ^ n"
  proof -
    have "unat w div 2 ^ n * 2 ^ n \<le> unat w" by simp
    also have "unat w < 2 ^ LENGTH(32)" by (rule unsigned_less)
    finally have id: "take_bit LENGTH(32) (unat w div 2 ^ n * 2 ^ n) = unat w div 2 ^ n * 2 ^ n"
      by (rule take_bit_nat_eq_self)
    have w: "take_bit LENGTH(32) (unat w) = unat w" by (rule take_bit_nat_eq_self) (rule unsigned_less)
    show ?thesis
      unfolding unsigned_push_bit_eq unsigned_drop_bit_eq w
      unfolding push_bit_eq_mult drop_bit_eq_div by (rule id)
  qed
  ultimately show ?thesis using assms by (simp add: word_unat_eq_iff)
qed

lemma top_masks: "NOT (mask 24) = (0xff000000 :: u32)" "NOT (mask 20) = (0xfff00000 :: u32)"
  "NOT (mask 16) = (0xffff0000 :: u32)"
  by (simp_all add: mask_eq_exp_minus_1 not_eq_complement)

text \<open>C23: An IPv4 address counts as a private LAN address exactly if it lies in 10/8, 172.16/12,
  192.168/16 or 169.254/16 and is not itself the address of a VPN host.\<close>

theorem private_lan_ipv4:
  "sockaddr_is_private_lan E (Addr_inet [a, b, c, d] p) \<longleftrightarrow>
     \<not> vpn_host4 E [a, b, c, d] \<and>
     (a = 10 \<or> a = 172 \<and> 16 \<le> b \<and> b < 32 \<or> a = 192 \<and> b = 168 \<or> a = 169 \<and> b = 254)"
proof -
  let ?ip = "ip32 [a, b, c, d]"
  note bnd = byte_less [of a] byte_less [of b]
  have "?ip AND NOT (mask 24) = 0x0a000000 \<longleftrightarrow> unat ?ip div 2 ^ 24 = 10" by (rule and_top_mask) simp
  then have m1: "?ip AND 0xff000000 = 0x0a000000 \<longleftrightarrow> a = 10"
    unfolding ip32_div top_masks word_unat_eq_iff by simp
  have "?ip AND NOT (mask 20) = 0xac100000 \<longleftrightarrow> unat ?ip div 2 ^ 20 = 0xac1" by (rule and_top_mask) simp
  then have m2: "?ip AND 0xfff00000 = 0xac100000 \<longleftrightarrow> a = 172 \<and> 16 \<le> b \<and> b < 32"
    unfolding ip32_div top_masks word_unat_eq_iff word_le_nat_alt word_less_nat_alt
    by (simp add: prefix_12 [OF byte_less] del: mult.commute)
  have "?ip AND NOT (mask 16) = 0xc0a80000 \<longleftrightarrow> unat ?ip div 2 ^ 16 = 0xc0a8" by (rule and_top_mask) simp
  then have m3: "?ip AND 0xffff0000 = 0xc0a80000 \<longleftrightarrow> a = 192 \<and> b = 168"
    using bnd unfolding ip32_div top_masks word_unat_eq_iff by simp presburger
  have "?ip AND NOT (mask 16) = 0xa9fe0000 \<longleftrightarrow> unat ?ip div 2 ^ 16 = 0xa9fe" by (rule and_top_mask) simp
  then have m4: "?ip AND 0xffff0000 = 0xa9fe0000 \<longleftrightarrow> a = 169 \<and> b = 254"
    using bnd unfolding ip32_div top_masks word_unat_eq_iff by simp presburger
  have "unat (drop_bit 24 ?ip) = unat a"
    unfolding unsigned_drop_bit_eq take_bit_nat_eq_self [OF unsigned_less]
    unfolding drop_bit_eq_div by (rule ip32_div)
  then have top: "drop_bit 24 ?ip = 127 \<longleftrightarrow> a = 127" by (simp add: word_unat_eq_iff)
  have zero: "?ip = 0 \<Longrightarrow> a = 0" using unat_ip32 [of a b c d] by (simp add: word_unat_eq_iff)
  let ?R = "a = 10 \<or> a = 172 \<and> 16 \<le> b \<and> b < 32 \<or> a = 192 \<and> b = 168 \<or> a = 169 \<and> b = 254"
  have "?R \<Longrightarrow> a \<noteq> 0 \<and> a \<noteq> 127" by (elim disjE conjE) simp_all
  moreover have "sockaddr_is_private_lan E (Addr_inet [a, b, c, d] p) =
      (if \<not> (?ip \<noteq> 0 \<and> a \<noteq> 127) then False else if vpn_host4 E [a, b, c, d] then False else ?R)"
    unfolding sockaddr_is_private_lan_def Let_def sockaddr.case sockaddr_is_unicast_ip.simps m1 m2 m3 m4 top ..
  ultimately show ?thesis using zero by argo
qed

section \<open>The cache of route questions\<close>

definition route_query :: "addr_env \<times> sockaddr \<Rightarrow> route_cache \<Rightarrow> bool \<times> route_cache" where
  "route_query q = address_routes_via_vpn (fst q) (snd q)"

text \<open>Every live entry is the answer to an earlier question.\<close>

definition same_question :: "addr_env \<times> sockaddr \<Rightarrow> addr_env \<times> sockaddr \<Rightarrow> bool" where
  "same_question q q' \<longleftrightarrow> ae_now (fst q) = ae_now (fst q') \<and> sockaddrcmp_noport (snd q) (snd q') = 0"

definition route_cache_ok :: "(addr_env \<times> sockaddr) set \<Rightarrow> route_cache \<Rightarrow> bool" where
  "route_cache_ok past c \<longleftrightarrow> (\<forall>(sa, t, res)\<in>set (rc_entries c). 0 < t \<longrightarrow>
     (\<exists>E. (E, sa) \<in> past \<and> ae_now E = t \<and> res = address_routes_via_vpn_uncached E sa))"

lemma route_cache_find_SomeD:
  "route_cache_find t sa es = Some res \<Longrightarrow> \<exists>sa'. (sa', t, res) \<in> set es \<and> sockaddrcmp_noport sa' sa = 0"
  by (induction t sa es rule: route_cache_find.induct) (auto split: if_splits)

lemma sockaddrcmp_noport_refl [simp]: "sockaddrcmp_noport sa sa = 0"
  by (cases sa) auto

lemma route_query_ok:
  assumes "route_cache_ok past c"
  shows "route_cache_ok (insert q past) (snd (route_query q c)) \<and>
    (\<exists>q'\<in>insert q past. same_question q' q \<and> fst (route_query q c) = address_routes_via_vpn_uncached (fst q') (snd q'))"
proof (cases "ae_now (fst q) > 0 \<and> route_cache_find (ae_now (fst q)) (snd q) (rc_entries c) \<noteq> None")
  case True
  then obtain res where res: "route_cache_find (ae_now (fst q)) (snd q) (rc_entries c) = Some res" by auto
  obtain sa' where sa': "(sa', ae_now (fst q), res) \<in> set (rc_entries c)" "sockaddrcmp_noport sa' (snd q) = 0"
    using route_cache_find_SomeD [OF res] by blast
  then obtain E where E: "(E, sa') \<in> past" "ae_now E = ae_now (fst q)" "res = address_routes_via_vpn_uncached E sa'"
    using assms True unfolding route_cache_ok_def by blast
  have q: "route_query q c = (res, c)" using True res by (simp add: route_query_def address_routes_via_vpn_def)
  have "same_question (E, sa') q" using E sa' by (simp add: same_question_def)
  moreover have "route_cache_ok (insert q past) c" using assms unfolding route_cache_ok_def by blast
  ultimately show ?thesis unfolding q fst_conv snd_conv using E by (metis insertI2 fst_conv snd_conv)
next
  case False
  have "fst (route_query q c) = address_routes_via_vpn_uncached (fst q) (snd q)"
    using False by (auto simp: route_query_def address_routes_via_vpn_def Let_def split: option.splits)
  moreover have "route_cache_ok (insert q past) (snd (route_query q c))"
  proof -
    have "set (rc_entries (snd (route_query q c))) \<subseteq>
        insert (snd q, ae_now (fst q), address_routes_via_vpn_uncached (fst q) (snd q)) (set (rc_entries c))"
    proof (cases "ae_now (fst q) > 0")
      case True
      with False have "rc_entries (snd (route_query q c)) =
          (rc_entries c)[rc_cursor c := (snd q, ae_now (fst q), address_routes_via_vpn_uncached (fst q) (snd q))]"
        by (simp add: route_query_def address_routes_via_vpn_def Let_def)
      then show ?thesis by (simp only: set_update_subset_insert)
    qed (auto simp: route_query_def address_routes_via_vpn_def)
    then have new: "(sa, t, res) = (snd q, ae_now (fst q), address_routes_via_vpn_uncached (fst q) (snd q)) \<or>
        (sa, t, res) \<in> set (rc_entries c)" if "(sa, t, res) \<in> set (rc_entries (snd (route_query q c)))" for sa t res
      using that by blast
    have old: "\<exists>E. (E, sa) \<in> past \<and> ae_now E = t \<and> res = address_routes_via_vpn_uncached E sa"
      if "(sa, t, res) \<in> set (rc_entries c)" "0 < t" for sa t res
      using assms that unfolding route_cache_ok_def by blast
    have "\<exists>E. (E, sa) \<in> insert q past \<and> ae_now E = t \<and> res = address_routes_via_vpn_uncached E sa"
      if "(sa, t, res) \<in> set (rc_entries (snd (route_query q c)))" "0 < t" for sa t res
      using new [OF that(1)]
    proof
      assume "(sa, t, res) = (snd q, ae_now (fst q), address_routes_via_vpn_uncached (fst q) (snd q))"
      then show ?thesis by (intro exI [of _ "fst q"]) simp
    next
      assume "(sa, t, res) \<in> set (rc_entries c)"
      from old [OF this that(2)] show ?thesis by blast
    qed
    then show ?thesis unfolding route_cache_ok_def by blast
  qed
  ultimately show ?thesis by (auto simp: same_question_def)
qed

lemma run_route_queries:
  "route_cache_ok past c \<Longrightarrow> i < length qs \<Longrightarrow>
   \<exists>q'\<in>past \<union> set (take (Suc i) qs). same_question q' (qs ! i) \<and>
     fst (run_ops route_query qs c) ! i = address_routes_via_vpn_uncached (fst q') (snd q')"
proof (induction qs arbitrary: past c i)
  case (Cons q qs)
  note step = route_query_ok [OF Cons.prems(1), of q]
  show ?case
  proof (cases i)
    case 0
    with step show ?thesis by auto
  next
    case (Suc k)
    with Cons.IH [of "insert q past" "snd (route_query q c)" k] Cons.prems(2) step show ?thesis by auto
  qed
qed simp

text \<open>C19: The cache in \<open>address_routes_via_vpn\<close> answers every question as \<open>address_routes_via_vpn_uncached\<close>
  answered it for that host in the same second, possibly for another port.\<close>

theorem route_cache_same_second:
  assumes "i < length qs"
  shows "\<exists>j\<le>i. same_question (qs ! j) (qs ! i) \<and>
    fst (run_ops route_query qs empty_route_cache) ! i = address_routes_via_vpn_uncached (fst (qs ! j)) (snd (qs ! j))"
proof -
  have "route_cache_ok {} empty_route_cache" by (simp add: route_cache_ok_def empty_route_cache_def)
  from run_route_queries [OF this assms] obtain q' where
    q': "q' \<in> set (take (Suc i) qs)" "same_question q' (qs ! i)"
    "fst (run_ops route_query qs empty_route_cache) ! i = address_routes_via_vpn_uncached (fst q') (snd q')" by auto
  from q'(1) obtain j where "j \<le> i" "qs ! j = q'" by (auto simp: in_set_conv_nth less_Suc_eq_le)
  with q'(2,3) show ?thesis by blast
qed

definition example_addr_env :: addr_env where
  "example_addr_env = \<lparr>ae_now = 100, ae_lookup4 = (\<lambda>_. None), ae_lookup6 = (\<lambda>_. None), ae_own = [],
     ae_interface_routes = [Some (Ipv4 8 [10, 0, 0, 0])], ae_local = (\<lambda>_. None)\<rparr>"

theorem route_cache_same_second_witness:
  "fst (run_ops route_query [(example_addr_env, Addr_inet [10, 1, 2, 3] 655),
      (example_addr_env, Addr_inet [10, 1, 2, 3] 656)] empty_route_cache) ! 1"
proof -
  let ?qs = "[(example_addr_env, Addr_inet [10, 1, 2, 3] 655), (example_addr_env, Addr_inet [10, 1, 2, 3] 656)]"
  have "address_routes_via_vpn_uncached example_addr_env (Addr_inet [10, 1, 2, 3] p)" for p
    by (simp add: address_routes_via_vpn_uncached_def example_addr_env_def vpn_host_def vpn_host4_def Let_def)
  moreover obtain j where "j \<le> 1" "fst (run_ops route_query ?qs empty_route_cache) ! 1 =
      address_routes_via_vpn_uncached (fst (?qs ! j)) (snd (?qs ! j))"
    using route_cache_same_second [of 1 ?qs] by auto
  moreover have "fst (?qs ! j) = example_addr_env \<and> (\<exists>p. snd (?qs ! j) = Addr_inet [10, 1, 2, 3] p)"
    using \<open>j \<le> 1\<close> by (cases j) auto
  ultimately show ?thesis by auto
qed

end
