(* ===== verification/Nodes.thy ===== *)
theory Nodes
  imports NetAddr
begin

text \<open>
  Nodes (\<open>node.h\<close>, \<open>node.c\<close>) as the graph algorithms and the UDP code see them, and what the daemon
  knows about their UDP addresses.

  A node pointer is the node's name and the node table a function from names.  A record \<open>gnode\<close>
  has the fields of \<open>node_t\<close> the modelled code reads or writes.  Membership in \<open>node_udp_tree\<close> is
  the field \<open>udp_indexed\<close>: the tree holds the node itself, keyed by its address and name, and the
  code takes a node out before it changes its address.  \<open>graph_env\<close> is what is read and not
  changed while the graph algorithms run.
\<close>

unbundle bit_operations_syntax

record edge =
  efrom :: name
  eto :: name
  eweight :: int
  eoptions :: u32
  eaddress :: sockaddr
  elocal_address :: sockaddr
  ereverse :: bool
  erev_address :: sockaddr
  econnection :: "name option"
  erev_connection :: "name option"

text \<open>
  Of a connection: its options, whether its carrier has \<open>send_datagram\<close>, and whether it was dialled
  (it has an \<open>outgoing\<close> and a \<open>base_address\<close>).
\<close>

record gconn =
  conn_options :: u32
  conn_datagram :: bool
  conn_dialled :: bool

record gnode =
  visited :: bool
  indirect :: bool
  reachable :: bool
  no_direct :: bool
  waitingforkey :: bool
  validkey :: bool
  sptps :: bool
  udp_confirmed :: bool
  udp_addr_confirmed :: bool
  has_address :: bool
  sptps_route_stale :: bool
  remote_no_direct :: bool
  distance :: int
  weighted_distance :: int
  nexthop :: "name option"
  prev_nexthop :: "name option"
  prevedge :: "edge option"
  via :: "name option"
  noptions :: u32
  naddress :: sockaddr
  nsock :: nat
  udp_indexed :: bool
  nconnection :: "gconn option"
  transports :: u32
  maxrecentlen :: nat
  minmtu :: nat
  maxmtu :: nat
  mtuprobes :: int
  last_lan_udp_rx :: int
  last_state_change :: int
  last_req_key :: int
  last_no_direct_sent :: int

type_synonym nodes = "name \<Rightarrow> gnode"

record graph_env =
  g_myself :: name
  g_nodes :: "name list"
  g_edges :: "name \<Rightarrow> edge list"
  g_addr :: addr_env
  g_vpn :: "sockaddr \<Rightarrow> bool"
  g_listen :: "int list"
  g_keepalive :: int
  g_localdiscovery :: bool
  g_experimental :: bool
  g_standby :: bool
  g_no_direct :: "name \<Rightarrow> bool"
  g_public_key :: "name \<Rightarrow> bool"

definition OPTION_INDIRECT :: u32 where "OPTION_INDIRECT = 0x0001"
definition OPTION_TCPONLY :: u32 where "OPTION_TCPONLY = 0x0002"
definition OPTION_PMTU_DISCOVERY :: u32 where "OPTION_PMTU_DISCOVERY = 0x0004"
definition OPTION_DECLARED_INDIRECT :: u32 where "OPTION_DECLARED_INDIRECT = 0x0010"

definition OPTION_VERSION :: "u32 \<Rightarrow> u32" where "OPTION_VERSION x = drop_bit 24 x"

definition has_option :: "u32 \<Rightarrow> u32 \<Rightarrow> bool" where
  "has_option opts flag \<longleftrightarrow> opts AND flag \<noteq> 0"

definition MTU :: nat where "MTU = 1518"

definition new_node :: "bool \<Rightarrow> gnode" where
  "new_node listed = \<lparr>visited = False, indirect = False, reachable = False, no_direct = listed,
     waitingforkey = False, validkey = False, sptps = False, udp_confirmed = False,
     udp_addr_confirmed = False, has_address = False, sptps_route_stale = False,
     remote_no_direct = False, distance = 0, weighted_distance = 0, nexthop = None,
     prev_nexthop = None, prevedge = None, via = None, noptions = 0, naddress = Addr_unspec,
     nsock = 0, udp_indexed = False, nconnection = None, transports = 0, maxrecentlen = 0,
     minmtu = 0, maxmtu = MTU, mtuprobes = 0, last_lan_udp_rx = 0, last_state_change = 0,
     last_req_key = 0, last_no_direct_sent = 0\<rparr>"

section \<open>The UDP address of a node\<close>

definition node_has_active_lan_udp :: "graph_env \<Rightarrow> gnode \<Rightarrow> bool" where
  "node_has_active_lan_udp G x \<longleftrightarrow>
     udp_confirmed x \<and> sockaddr_is_private_lan (g_addr G) (naddress x) \<and> last_lan_udp_rx x \<noteq> 0 \<and>
     ae_now (g_addr G) - last_lan_udp_rx x < g_keepalive G * 2"

fun has_ip :: "sockaddr \<Rightarrow> bool" where
  "has_ip Addr_unspec = False" | "has_ip (Addr_unknown h p) = False" | "has_ip _ = True"

fun first_socket :: "int \<Rightarrow> nat \<Rightarrow> int list \<Rightarrow> nat" where
  "first_socket fam i [] = 0"
| "first_socket fam i (f # fs) = (if f = fam then i else first_socket fam (Suc i) fs)"

definition set_udp_address :: "graph_env \<Rightarrow> sockaddr option \<Rightarrow> gnode \<Rightarrow> gnode" where
  "set_udp_address G sa x =
     (let x = x\<lparr>udp_indexed := False\<rparr>;
          x = (case sa of None \<Rightarrow> x
               | Some a \<Rightarrow> x\<lparr>naddress := a, nsock := first_socket (sa_family a) 0 (g_listen G), udp_indexed := True\<rparr>);
          x = x\<lparr>udp_addr_confirmed := False\<rparr>;
          x = (if sa = None then x\<lparr>last_lan_udp_rx := 0\<rparr> else x)
      in if sa = None \<or> (case nconnection x of None \<Rightarrow> True | Some c \<Rightarrow> \<not> conn_datagram c)
         then x\<lparr>udp_confirmed := False, maxrecentlen := 0, mtuprobes := 0, minmtu := 0, maxmtu := MTU\<rparr>
         else x)"

definition update_node_udp :: "graph_env \<Rightarrow> name \<Rightarrow> sockaddr option \<Rightarrow> gnode \<Rightarrow> gnode" where
  "update_node_udp G n sa x =
     (if n = g_myself G then x
      else case sa of
        None \<Rightarrow> set_udp_address G None x
      | Some a \<Rightarrow>
          if node_has_active_lan_udp G x \<and> \<not> sockaddr_is_private_lan (g_addr G) a then x
          else if g_vpn G a then
            if has_ip (naddress x) \<and> \<not> g_vpn G (naddress x) then x else set_udp_address G None x
          else if sockaddrcmp a (naddress x) = 0 \<and> udp_indexed x then x
          else set_udp_address G (Some a) x)"

text \<open>The fields the graph search works on are not touched.\<close>

lemma update_node_udp_fields [simp]:
  "visited (update_node_udp G n sa x) = visited x"
  "indirect (update_node_udp G n sa x) = indirect x"
  "reachable (update_node_udp G n sa x) = reachable x"
  "no_direct (update_node_udp G n sa x) = no_direct x"
  "distance (update_node_udp G n sa x) = distance x"
  "weighted_distance (update_node_udp G n sa x) = weighted_distance x"
  "nexthop (update_node_udp G n sa x) = nexthop x"
  "via (update_node_udp G n sa x) = via x"
  by (auto simp: update_node_udp_def set_udp_address_def Let_def split: option.split)

text \<open>C18: Learning a UDP address never makes a path count as confirmed.  A changed address loses its
  confirmation, unless the node is reached over a datagram carrier; an address that leads back into
  the VPN is never adopted; and while a node is in contact over a private LAN no public address
  replaces the LAN address.\<close>

theorem update_node_udp_safe:
  fixes G :: graph_env and n :: name and sa :: "sockaddr option" and x :: gnode
  defines "y \<equiv> update_node_udp G n sa x"
  shows "(udp_confirmed y \<longrightarrow> udp_confirmed x) \<and> (udp_addr_confirmed y \<longrightarrow> udp_addr_confirmed x) \<and>
    (naddress y \<noteq> naddress x \<longrightarrow>
       sa = Some (naddress y) \<and> \<not> g_vpn G (naddress y) \<and> udp_indexed y \<and> \<not> udp_addr_confirmed y \<and>
       (udp_confirmed y \<longrightarrow> (\<exists>c. nconnection x = Some c \<and> conn_datagram c)) \<and>
       (node_has_active_lan_udp G x \<longrightarrow> sockaddr_is_private_lan (g_addr G) (naddress y)))"
  by (auto simp: y_def update_node_udp_def set_udp_address_def Let_def split: option.splits if_splits)

definition example_graph_env :: "name list \<Rightarrow> (name \<Rightarrow> edge list) \<Rightarrow> graph_env" where
  "example_graph_env ns es = \<lparr>g_myself = ''a'', g_nodes = ns, g_edges = es, g_addr = example_addr_env,
     g_vpn = (\<lambda>_. False), g_listen = [2, 10], g_keepalive = 9, g_localdiscovery = True,
     g_experimental = True, g_standby = True, g_no_direct = (\<lambda>n. n = ''d''), g_public_key = (\<lambda>_. True)\<rparr>"

theorem update_node_udp_safe_witness:
  "\<not> udp_confirmed (update_node_udp (example_graph_env [] (\<lambda>_. [])) ''b'' (Some (Addr_inet [9, 9, 9, 9] 655)) (new_node False))"
  using update_node_udp_safe [of "example_graph_env [] (\<lambda>_. [])" "''b''" "Some (Addr_inet [9, 9, 9, 9] 655)" "new_node False"]
  by (simp add: new_node_def)

end
