(* ===== verification/Graph.thy ===== *)
theory Graph
  imports Nodes
begin

text \<open>
  The graph algorithms of \<open>graph.c\<close>: the breadth-first search that decides for every node whether it
  is reachable, over which neighbour (\<open>nexthop\<close>) and to which address owner (\<open>via\<close>) packets for it
  go, the change of reachability with everything that is reset then, and the minimum spanning tree
  over which broadcasts are forwarded.

  \<open>list_each\<close> and \<open>splay_each\<close> loops run over lists of names and edges in the order of the
  containers.  What the reachability change sends out or runs is a list of events.
\<close>

unbundle bit_operations_syntax

section \<open>Breadth-first search\<close>

definition clear_node :: "gnode \<Rightarrow> gnode" where
  "clear_node n = n\<lparr>visited := False, indirect := True, distance := -1,
     prev_nexthop := (if reachable n then nexthop n else None)\<rparr>"

definition start_node :: "name \<Rightarrow> gnode \<Rightarrow> gnode" where
  "start_node me n = n\<lparr>visited := True, indirect := False, nexthop := Some me, prevedge := None,
     via := Some me, distance := 0, weighted_distance := 0\<rparr>"

definition update_nodes :: "(name \<Rightarrow> gnode \<Rightarrow> gnode) \<Rightarrow> name list \<Rightarrow> nodes \<Rightarrow> nodes" where
  "update_nodes f ns st = fold (\<lambda>n st. st(n := f n (st n))) ns st"

lemma update_nodes_other: "v \<notin> set ns \<Longrightarrow> update_nodes f ns st v = st v"
  by (induction ns arbitrary: st) (auto simp: update_nodes_def)

lemma update_nodes_apply:
  "distinct ns \<Longrightarrow> update_nodes f ns st v = (if v \<in> set ns then f v (st v) else st v)"
proof (induction ns arbitrary: st)
  case (Cons n ns)
  have "update_nodes f (n # ns) st v = update_nodes f ns (st(n := f n (st n))) v"
    by (simp add: update_nodes_def)
  with Cons show ?case by auto
qed (simp add: update_nodes_def)

definition sssp_init :: "graph_env \<Rightarrow> nodes \<Rightarrow> nodes" where
  "sssp_init G st =
     (let st = update_nodes (\<lambda>_. clear_node) (g_nodes G) st
      in st(g_myself G := start_node (g_myself G) (st (g_myself G))))"

text \<open>The update of \<open>e->to\<close>, in the order of the code; \<open>better\<close>: the path over \<open>e\<close> is shorter by weight.\<close>

definition update_target :: "graph_env \<Rightarrow> gnode \<Rightarrow> edge \<Rightarrow> bool \<Rightarrow> bool \<Rightarrow> gnode \<Rightarrow> gnode" where
  "update_target G n e ind better t =
     (let t = (if \<not> visited t \<or> better
               then t\<lparr>nexthop := (if nexthop n = Some (g_myself G) then Some (eto e) else nexthop n),
                      weighted_distance := wrap_int32 (weighted_distance n + eweight e),
                      distance := distance n + 1\<rparr>
               else t);
          t = t\<lparr>visited := True, indirect := ind, prevedge := Some e,
                via := (if ind then via n else Some (eto e)), noptions := eoptions e\<rparr>;
          t = (case nconnection t of
                 None \<Rightarrow> t
               | Some c \<Rightarrow> if has_option (conn_options c) OPTION_TCPONLY
                               then t\<lparr>noptions := noptions t OR OPTION_TCPONLY\<rparr> else t)
      in if \<not> reachable t \<or> sa_family (naddress t) = 0 \<and> sa_family (eaddress e) \<noteq> 255
         then update_node_udp G (eto e) (Some (eaddress e)) t else t)"

definition visit_edge :: "graph_env \<Rightarrow> name \<Rightarrow> edge \<Rightarrow> nodes \<times> name list \<Rightarrow> nodes \<times> name list" where
  "visit_edge G n e s =
     (case s of (st, todo) \<Rightarrow>
      let t = st (eto e); me = g_myself G in
      if \<not> ereverse e \<or> eto e = me then (st, todo)
      else if n = me \<and> no_direct t then (st, todo)
      else
        let ind = (indirect (st n) \<or> has_option (eoptions e) OPTION_INDIRECT \<or> no_direct t \<or>
                   remote_no_direct t) in
        if visited t \<and> distance t = 1 \<and> n \<noteq> me then (st, todo)
        else
          let better = (distance t = distance (st n) + 1 \<and>
                weighted_distance t > wrap_int32 (weighted_distance (st n) + eweight e)) in
          if visited t \<and> (\<not> indirect t \<or> ind) \<and> \<not> better then (st, todo)
          else (st(eto e := update_target G (st n) e ind better t), todo @ [eto e]))"

text \<open>
  The loop over \<open>todo_list\<close>, which the body extends at its tail.  \<open>None\<close> is \<open>abort()\<close>, or a loop that
  does not end.
\<close>

partial_function (option) sssp_loop :: "graph_env \<Rightarrow> nodes \<Rightarrow> name list \<Rightarrow> nodes option" where
  "sssp_loop G st todo =
     (case todo of
        [] \<Rightarrow> Some st
      | n # rest \<Rightarrow>
          if distance (st n) < 0 then None
          else let s = fold (visit_edge G n) (g_edges G n) (st, todo)
               in sssp_loop G (fst s) (tl (snd s)))"

definition lan_view :: "edge \<Rightarrow> sockaddr \<times> sockaddr option" where
  "lan_view e = (elocal_address e, if ereverse e then Some (erev_address e) else None)"

definition shares_lan :: "graph_env \<Rightarrow> name \<Rightarrow> gnode \<Rightarrow> bool" where
  "shares_lan G n x =
     node_shares_local_lan (g_addr G) (g_vpn G) (map lan_view (g_edges G (g_myself G))) (transports x)
       (map lan_view (g_edges G n))"

definition local_discovery_node :: "graph_env \<Rightarrow> bool \<Rightarrow> name \<Rightarrow> gnode \<Rightarrow> gnode" where
  "local_discovery_node G pmtu n x =
     (if n = g_myself G \<or> \<not> visited x \<or> nconnection x \<noteq> None \<or> no_direct x \<or> remote_no_direct x then x
      else if (\<exists>e\<in>set (g_edges G n). has_option (eoptions e) OPTION_DECLARED_INDIRECT) \<or>
              \<not> shares_lan G n x then x
      else let opts = noptions x AND NOT (OPTION_INDIRECT OR OPTION_TCPONLY)
           in x\<lparr>indirect := False, via := Some n,
                noptions := (if pmtu then opts OR OPTION_PMTU_DISCOVERY else opts)\<rparr>)"

definition local_discovery :: "graph_env \<Rightarrow> nodes \<Rightarrow> nodes" where
  "local_discovery G st =
     (let mine = noptions (st (g_myself G)) in
      if g_localdiscovery G \<and> \<not> has_option mine (OPTION_DECLARED_INDIRECT OR OPTION_TCPONLY)
      then update_nodes (local_discovery_node G (has_option mine OPTION_PMTU_DISCOVERY)) (g_nodes G) st
      else st)"

text \<open>A key exchange whose route has changed is marked as stale.\<close>

definition mark_stale :: "graph_env \<Rightarrow> name \<Rightarrow> gnode \<Rightarrow> gnode" where
  "mark_stale G n x =
     (let x = (if n \<noteq> g_myself G \<and> visited x \<and> waitingforkey x \<and> \<not> validkey x \<and>
                  prev_nexthop x \<noteq> None \<and> nexthop x \<noteq> prev_nexthop x
               then x\<lparr>sptps_route_stale := True\<rparr> else x)
      in x\<lparr>prev_nexthop := None\<rparr>)"

definition sssp_bfs :: "graph_env \<Rightarrow> nodes \<Rightarrow> nodes option" where
  "sssp_bfs G st =
     map_option (\<lambda>st. update_nodes (mark_stale G) (g_nodes G) (local_discovery G st))
       (sssp_loop G (sssp_init G st) [g_myself G])"

section \<open>Reachability\<close>

text \<open>What a change of reachability sends, runs or drops, in order.\<close>

datatype node_event =
  Ev_dialled_address name | Ev_req_transports name | Ev_no_direct name | Ev_sptps_stop name
| Ev_scripts name bool | Ev_subnet_update name bool | Ev_dseal_drop name | Ev_ans_key name

definition became_reachable_events :: "graph_env \<Rightarrow> name \<Rightarrow> gnode \<Rightarrow> node_event list" where
  "became_reachable_events G n x =
     (case nconnection x of None \<Rightarrow> [] | Some c \<Rightarrow> if conn_dialled c then [Ev_dialled_address n] else []) @
     (if g_experimental G \<and> nconnection x = None \<and> (transports x = 0 \<or> \<not> g_public_key G n)
      then [Ev_req_transports n] else []) @
     (if no_direct x \<or> g_no_direct G n then [Ev_no_direct n] else [])"

text \<open>\<open>memset(&n->status, 0, ...)\<close> with \<open>has_address\<close> kept, and the options.\<close>

definition clear_status :: "gnode \<Rightarrow> gnode" where
  "clear_status x = x\<lparr>visited := False, indirect := False, reachable := False, no_direct := False,
     waitingforkey := False, validkey := False, sptps := False, udp_confirmed := False,
     udp_addr_confirmed := False, sptps_route_stale := False, noptions := 0\<rparr>"

definition turn_node :: "graph_env \<Rightarrow> name \<Rightarrow> gnode \<Rightarrow> gnode \<times> node_event list" where
  "turn_node G n x =
     (let me = g_myself G; now = ae_now (g_addr G); up = (\<not> reachable x);
          x = x\<lparr>reachable := up, last_state_change := now\<rparr>;
          ev1 = (if up \<and> n \<noteq> me then became_reachable_events G n x else []);
          x = (if up \<and> n \<noteq> me \<and> (no_direct x \<or> g_no_direct G n) then x\<lparr>last_no_direct_sent := now\<rparr> else x);
          x = (if \<not> up \<and> n \<noteq> me then x\<lparr>remote_no_direct := False\<rparr> else x);
          x = (if g_experimental G \<and> 2 \<le> OPTION_VERSION (noptions x) then x\<lparr>sptps := True\<rparr> else x);
          x = x\<lparr>validkey := False\<rparr>;
          ev2 = (if sptps x then [Ev_sptps_stop n] else []);
          x = (if sptps x then x\<lparr>waitingforkey := False\<rparr> else x);
          x = x\<lparr>last_req_key := 0, udp_confirmed := False, udp_addr_confirmed := False, maxmtu := MTU,
                maxrecentlen := 0, minmtu := 0, mtuprobes := 0\<rparr>
      in (x, ev1 @ ev2 @ [Ev_scripts n up, Ev_subnet_update n up]))"

definition check_node :: "graph_env \<Rightarrow> name \<Rightarrow> gnode \<Rightarrow> gnode \<times> node_event list" where
  "check_node G n x =
     (if visited x = reachable x then (x, [])
      else case turn_node G n x of (x, evs) \<Rightarrow>
        if \<not> reachable x then (clear_status (update_node_udp G n None x), evs @ [Ev_dseal_drop n])
        else (x, evs @ (if nconnection x \<noteq> None \<and> \<not> sptps x then [Ev_ans_key n] else [])))"

lemma turn_node_flags [simp]:
  "reachable (fst (turn_node G n x)) = (\<not> reachable x)"
  "Ev_subnet_update m b \<in> set (snd (turn_node G n x)) \<longleftrightarrow> m = n \<and> b = (\<not> reachable x)"
  by (auto simp: turn_node_def Let_def became_reachable_events_def split: option.splits)

datatype device_action = Device_keep | Device_enable | Device_disable

definition device_decision :: "bool \<Rightarrow> nat \<Rightarrow> nat \<Rightarrow> nat \<Rightarrow> device_action" where
  "device_decision device_standby reachable_count became_reachable_count became_unreachable_count =
     (if device_standby then
        if reachable_count = 0 \<and> became_unreachable_count > 0 then Device_disable
        else if reachable_count > 0 \<and> reachable_count = became_reachable_count then Device_enable
        else Device_keep
      else Device_keep)"

definition count_nodes :: "(name \<Rightarrow> bool) \<Rightarrow> name \<Rightarrow> name list \<Rightarrow> nat" where
  "count_nodes P me ns = length (filter (\<lambda>n. n \<noteq> me \<and> P n) ns)"

definition check_reachability :: "graph_env \<Rightarrow> nodes \<Rightarrow> nodes \<times> node_event list \<times> device_action" where
  "check_reachability G st =
     (let me = g_myself G; ns = g_nodes G;
          st' = update_nodes (\<lambda>n x. fst (check_node G n x)) ns st
      in (st', concat (map (\<lambda>n. snd (check_node G n (st n))) ns),
          device_decision (g_standby G) (count_nodes (\<lambda>n. reachable (st' n)) me ns)
            (count_nodes (\<lambda>n. visited (st n) \<and> \<not> reachable (st n)) me ns)
            (count_nodes (\<lambda>n. \<not> visited (st n) \<and> reachable (st n)) me ns)))"

section \<open>The spanning tree\<close>

text \<open>
  The state of \<open>mst_kruskal\<close>: the visited nodes, the connections marked \<open>mst\<close>, and the edges logged
  as added.  \<open>all\<close> is the edge tree sorted by weight; after an addition behind a skipped edge the
  scan starts again from its head.
\<close>

record mst_state =
  mvisited :: "name \<Rightarrow> bool"
  mconns :: "name \<Rightarrow> bool"
  madded :: "edge list"

definition mark_conn :: "name option \<Rightarrow> (name \<Rightarrow> bool) \<Rightarrow> name \<Rightarrow> bool" where
  "mark_conn c m = (case c of None \<Rightarrow> m | Some x \<Rightarrow> m(x := True))"

definition add_tree_edge :: "edge \<Rightarrow> mst_state \<Rightarrow> mst_state" where
  "add_tree_edge e s =
     s\<lparr>mvisited := (mvisited s)(efrom e := True, eto e := True),
       mconns := mark_conn (erev_connection e) (mark_conn (econnection e) (mconns s)),
       madded := madded s @ [e]\<rparr>"

definition unfinished :: "(name \<Rightarrow> bool) \<Rightarrow> edge set \<Rightarrow> edge set" where
  "unfinished v es = {e \<in> es. \<not> (v (efrom e) \<and> v (eto e))}"

function mst_loop :: "edge list \<Rightarrow> edge list \<Rightarrow> bool \<Rightarrow> mst_state \<Rightarrow> mst_state" where
  "mst_loop all [] skipped s = s"
| "mst_loop all (e # rest) skipped s =
     (if \<not> ereverse e \<or> mvisited s (efrom e) = mvisited s (eto e) then mst_loop all rest True s
      else if skipped then mst_loop all all False (add_tree_edge e s)
      else mst_loop all rest False (add_tree_edge e s))"
  by pat_completeness auto

lemma unfinished_less:
  assumes "es' \<subseteq> insert e es" "mvisited s (efrom e) \<noteq> mvisited s (eto e)" "finite es"
  shows "card (unfinished (mvisited (add_tree_edge e s)) es') < card (unfinished (mvisited s) (insert e es))"
proof (rule psubset_card_mono)
  show "finite (unfinished (mvisited s) (insert e es))" using assms(3) by (simp add: unfinished_def)
  have "e \<in> unfinished (mvisited s) (insert e es)" using assms(2) by (auto simp: unfinished_def)
  moreover have "e \<notin> unfinished (mvisited (add_tree_edge e s)) es'"
    by (simp add: unfinished_def add_tree_edge_def)
  moreover have "unfinished (mvisited (add_tree_edge e s)) es' \<subseteq> unfinished (mvisited s) (insert e es)"
    using assms(1) by (auto simp: unfinished_def add_tree_edge_def)
  ultimately show "unfinished (mvisited (add_tree_edge e s)) es' \<subset> unfinished (mvisited s) (insert e es)"
    by blast
qed

termination mst_loop
proof (relation "measures [\<lambda>(all, rest, sk, s). card (unfinished (mvisited s) (set all \<union> set rest)),
    \<lambda>(all, rest, sk, s). length rest]", goal_cases)
  case 1
  show ?case by simp
next
  case (2 all e rest skipped s)
  have "card (unfinished (mvisited s) (set all \<union> set rest)) \<le>
      card (unfinished (mvisited s) (set all \<union> set (e # rest)))"
    by (rule card_mono) (auto simp: unfinished_def)
  then show ?case by auto
next
  case (3 all e rest skipped s)
  then show ?case
    using unfinished_less [of "set all" e "set all \<union> set rest" s] by auto
next
  case (4 all e rest skipped s)
  then show ?case
    using unfinished_less [of "set all \<union> set rest" e "set all \<union> set rest" s] by auto
qed

text \<open>The starting point: the source of the first edge whose source is reachable.\<close>

definition mst_start :: "(name \<Rightarrow> bool) \<Rightarrow> edge list \<Rightarrow> name \<Rightarrow> bool" where
  "mst_start reach all =
     (case find (\<lambda>e. reach (efrom e)) all of None \<Rightarrow> (\<lambda>_. False) | Some e \<Rightarrow> (\<lambda>_. False)(efrom e := True))"

definition mst_kruskal :: "(name \<Rightarrow> bool) \<Rightarrow> edge list \<Rightarrow> mst_state" where
  "mst_kruskal reach all =
     mst_loop all all False \<lparr>mvisited = mst_start reach all, mconns = (\<lambda>_. False), madded = []\<rparr>"

text \<open>
  \<open>graph()\<close>: the flush of the lookup caches comes first (\<open>reachability_changed\<close> in \<open>SubnetTable\<close>).  The
  tree algorithm starts with the clearing of \<open>visited\<close>, and leaves it set on the nodes of the tree.
\<close>

record graph_result =
  gr_nodes :: nodes
  gr_events :: "node_event list"
  gr_device :: device_action
  gr_mst :: "name \<Rightarrow> bool"

definition graph :: "graph_env \<Rightarrow> edge list \<Rightarrow> nodes \<Rightarrow> graph_result option" where
  "graph G weight_tree st =
     map_option (\<lambda>s.
        let (st, evs, dev) = check_reachability G s;
            m = mst_kruskal (\<lambda>n. reachable (st n)) weight_tree
        in \<lparr>gr_nodes = update_nodes (\<lambda>n x. x\<lparr>visited := mvisited m n\<rparr>) (g_nodes G) st,
            gr_events = evs, gr_device = dev, gr_mst = mconns m\<rparr>)
       (sssp_bfs G st)"

end
