(* ===== verification/GraphBfs.thy ===== *)
theory GraphBfs
  imports Graph
begin

text \<open>
  The breadth-first search ends, visits exactly the reachable nodes, and gives every one its hop
  distance and a neighbour of the daemon as next hop.

  The queue may hold a node several times, because a node is queued again when its path improves.
  The proof follows the first occurrences: the nodes not yet expanded stand in the queue in the
  order of their distances, which differ by one at most.
\<close>

section \<open>First occurrences in the queue\<close>

definition firsts :: "'a list \<Rightarrow> 'a list" where
  "firsts xs = rev (remdups (rev xs))"

lemma firsts_Nil [simp]: "firsts [] = []"
  by (simp add: firsts_def)

lemma set_firsts [simp]: "set (firsts xs) = set xs"
  by (simp add: firsts_def)

lemma firsts_snoc: "firsts (xs @ [x]) = (if x \<in> set xs then firsts xs else firsts xs @ [x])"
  by (simp add: firsts_def)

lemma firsts_Cons: "firsts (x # xs) = x # filter (\<lambda>y. y \<noteq> x) (firsts xs)"
proof (induction xs rule: rev_induct)
  case Nil
  show ?case by (simp add: firsts_def)
next
  case (snoc y ys)
  then show ?case using firsts_snoc [of "x # ys" y] by (auto simp: firsts_snoc)
qed

text \<open>The nodes in the queue that have not been expanded.\<close>

definition fresh :: "'a set \<Rightarrow> 'a list \<Rightarrow> 'a list" where
  "fresh X todo = filter (\<lambda>x. x \<notin> X) (firsts todo)"

lemma fresh_snoc:
  "fresh X (todo @ [v]) = (if v \<in> X \<or> v \<in> set todo then fresh X todo else fresh X todo @ [v])"
  by (simp add: fresh_def firsts_snoc)

lemma fresh_Cons: "n \<notin> X \<Longrightarrow> fresh X (n # todo) = n # fresh (insert n X) todo"
  by (simp add: fresh_def firsts_Cons conj_commute)

lemma fresh_Cons_expanded: "n \<in> X \<Longrightarrow> fresh X (n # todo) = fresh X todo"
  by (auto simp: fresh_def firsts_Cons intro: filter_cong)

lemma set_fresh: "set (fresh X todo) = set todo - X"
  by (auto simp: fresh_def)

section \<open>The graph that is searched\<close>

text \<open>
  \<open>usable\<close>: the edges the search may follow.  An edge needs its reverse, the search does not return
  to the daemon's own node, and the daemon has no direct edge to a node it must not contact.
\<close>

definition usable :: "graph_env \<Rightarrow> (name \<Rightarrow> bool) \<Rightarrow> (name \<times> name) set" where
  "usable G nd = {(u, v). v \<noteq> g_myself G \<and> \<not> (u = g_myself G \<and> nd v) \<and>
     (\<exists>e\<in>set (g_edges G u). eto e = v \<and> ereverse e)}"

definition graph_ok :: "graph_env \<Rightarrow> bool" where
  "graph_ok G \<longleftrightarrow> distinct (g_nodes G) \<and> g_myself G \<in> set (g_nodes G) \<and>
     (\<forall>n e. e \<in> set (g_edges G n) \<longrightarrow> eto e \<in> set (g_nodes G))"

text \<open>What one edge does.\<close>

lemma visit_edge_cases:
  obtains (skip) "visit_edge G n e (st, todo) = (st, todo)"
      "ereverse e \<Longrightarrow> eto e \<noteq> g_myself G \<Longrightarrow> \<not> (n = g_myself G \<and> no_direct (st (eto e))) \<Longrightarrow> visited (st (eto e))"
  | (go) ind better where
      "visit_edge G n e (st, todo) =
         (st(eto e := update_target G (st n) e ind better (st (eto e))), todo @ [eto e])"
      "ereverse e" "eto e \<noteq> g_myself G" "\<not> (n = g_myself G \<and> no_direct (st (eto e)))"
      "better \<longleftrightarrow> distance (st (eto e)) = distance (st n) + 1 \<and>
         weighted_distance (st (eto e)) > wrap_int32 (weighted_distance (st n) + eweight e)"
      "visited (st (eto e)) \<Longrightarrow> better \<or> indirect (st (eto e)) \<and> \<not> ind"
      "indirect (st n) \<Longrightarrow> ind"
proof -
  define ind where "ind = (indirect (st n) \<or> has_option (eoptions e) OPTION_INDIRECT \<or>
    no_direct (st (eto e)) \<or> remote_no_direct (st (eto e)))"
  define better where "better = (distance (st (eto e)) = distance (st n) + 1 \<and>
    weighted_distance (st (eto e)) > wrap_int32 (weighted_distance (st n) + eweight e))"
  let ?go = "(st(eto e := update_target G (st n) e ind better (st (eto e))), todo @ [eto e])"
  have eq: "visit_edge G n e (st, todo) =
    (if \<not> ereverse e \<or> eto e = g_myself G then (st, todo)
     else if n = g_myself G \<and> no_direct (st (eto e)) then (st, todo)
     else if visited (st (eto e)) \<and> distance (st (eto e)) = 1 \<and> n \<noteq> g_myself G then (st, todo)
     else if visited (st (eto e)) \<and> (\<not> indirect (st (eto e)) \<or> ind) \<and> \<not> better then (st, todo)
     else ?go)"
    unfolding visit_edge_def prod.case Let_def ind_def better_def ..
  show thesis
  proof (cases "visit_edge G n e (st, todo) = (st, todo)")
    case True
    have "visited (st (eto e))" if "ereverse e" "eto e \<noteq> g_myself G"
      "\<not> (n = g_myself G \<and> no_direct (st (eto e)))"
    proof (rule ccontr)
      assume "\<not> visited (st (eto e))"
      with that have "visit_edge G n e (st, todo) = ?go" unfolding eq by simp
      with True show False by simp
    qed
    with True show ?thesis by (intro skip) auto
  next
    case False
    then have c: "ereverse e" "eto e \<noteq> g_myself G" "\<not> (n = g_myself G \<and> no_direct (st (eto e)))"
      "\<not> (visited (st (eto e)) \<and> (\<not> indirect (st (eto e)) \<or> ind) \<and> \<not> better)"
      and "visit_edge G n e (st, todo) = ?go"
      unfolding eq by (auto split: if_splits)
    then show ?thesis
      by (intro go [of ind better]) (auto simp: better_def ind_def)
  qed
qed

lemma update_target_fields [simp]:
  "visited (update_target G n e ind better t)"
  "indirect (update_target G n e ind better t) = ind"
  "no_direct (update_target G n e ind better t) = no_direct t"
  "distance (update_target G n e ind better t) =
     (if \<not> visited t \<or> better then distance n + 1 else distance t)"
  "weighted_distance (update_target G n e ind better t) =
     (if \<not> visited t \<or> better then wrap_int32 (weighted_distance n + eweight e) else weighted_distance t)"
  "nexthop (update_target G n e ind better t) =
     (if \<not> visited t \<or> better then if nexthop n = Some (g_myself G) then Some (eto e) else nexthop n
      else nexthop t)"
  "via (update_target G n e ind better t) = (if ind then via n else Some (eto e))"
  by (auto simp: update_target_def Let_def split: option.split)

section \<open>Termination\<close>

text \<open>
  A node is queued when it is first visited, when its weighted distance decreases, or when it
  becomes directly reachable.  Its potential decreases each time, even if the sum of the weights
  wraps around.
\<close>

definition potential :: "gnode \<Rightarrow> nat" where
  "potential x = (if visited x then nat (2 * (weighted_distance x + 2 ^ 31)) + of_bool (indirect x) else 2 ^ 34)"

definition wd_ok :: "nodes \<Rightarrow> bool" where
  "wd_ok st \<longleftrightarrow> (\<forall>v. visited (st v) \<longrightarrow> - (2 ^ 31) \<le> weighted_distance (st v) \<and> weighted_distance (st v) < 2 ^ 31)"

definition work :: "graph_env \<Rightarrow> nodes \<times> name list \<Rightarrow> nat" where
  "work G s = 2 * (\<Sum>v\<in>set (g_nodes G). potential (fst s v)) + length (snd s)"

lemma potential_less:
  assumes "visited t \<Longrightarrow> better \<or> indirect t \<and> \<not> ind"
    and "better \<Longrightarrow> weighted_distance t > wrap_int32 (weighted_distance n + eweight e)"
    and "visited t \<Longrightarrow> - (2 ^ 31) \<le> weighted_distance t \<and> weighted_distance t < 2 ^ 31"
  shows "potential (update_target G n e ind better t) < potential t"
  using assms wrap_int32_range [of "weighted_distance n + eweight e"]
  by (auto simp: potential_def)

lemma visit_edge_work:
  assumes wd: "wd_ok (fst s)" and t: "eto e \<in> set (g_nodes G)"
  shows "wd_ok (fst (visit_edge G n e s)) \<and> work G (visit_edge G n e s) \<le> work G s"
proof (cases s)
  case (Pair st todo)
  show ?thesis
  proof (cases rule: visit_edge_cases [of G n e st todo])
    case skip
    with wd Pair show ?thesis by simp
  next
    case (go ind better)
    let ?t = "update_target G (st n) e ind better (st (eto e))"
    have less: "potential ?t < potential (st (eto e))"
      by (rule potential_less) (use go wd Pair in \<open>auto simp: wd_ok_def\<close>)
    have "(\<Sum>v\<in>set (g_nodes G). potential ((st(eto e := ?t)) v)) < (\<Sum>v\<in>set (g_nodes G). potential (st v))"
      by (rule sum_strict_mono_ex1) (use less t in \<open>auto simp: less_imp_le\<close>)
    moreover have "wd_ok (st(eto e := ?t))"
      using wd Pair wrap_int32_range by (auto simp: wd_ok_def)
    ultimately show ?thesis using go Pair by (simp add: work_def)
  qed
qed

lemma fold_visit_work:
  assumes "wd_ok (fst s)" "\<forall>e\<in>set es. eto e \<in> set (g_nodes G)"
  shows "wd_ok (fst (fold (visit_edge G n) es s)) \<and> work G (fold (visit_edge G n) es s) \<le> work G s"
  using assms
proof (induction es arbitrary: s)
  case (Cons e es)
  then show ?case
    using visit_edge_work [of s e G n] Cons.IH [of "visit_edge G n e s"] by force
qed simp

section \<open>The invariant of the search\<close>

text \<open>What is right about every visited node at any time.\<close>

definition node_inv :: "graph_env \<Rightarrow> (name \<Rightarrow> bool) \<Rightarrow> nodes \<Rightarrow> name \<Rightarrow> bool" where
  "node_inv G nd st v \<longleftrightarrow>
     (if v = g_myself G then nexthop (st v) = Some v \<and> distance (st v) = 0
      else \<exists>h k. nexthop (st v) = Some h \<and> distance (st v) = int (Suc k) \<and>
             (g_myself G, h) \<in> usable G nd \<and> (h, v) \<in> usable G nd ^^ k) \<and>
     (\<exists>w. via (st v) = Some w \<and> visited (st w) \<and> (indirect (st v) \<or> w = v))"

lemma relpow_step: "(x, y) \<in> r ^^ k \<Longrightarrow> (y, z) \<in> r \<Longrightarrow> (x, z) \<in> r ^^ Suc k"
  by auto

lemma node_inv_distance:
  assumes "node_inv G nd st v"
  shows "\<exists>k. distance (st v) = int k \<and> (g_myself G, v) \<in> usable G nd ^^ k"
proof (cases "v = g_myself G")
  case True
  with assms show ?thesis by (intro exI [of _ 0]) (simp add: node_inv_def)
next
  case False
  with assms obtain h k where "distance (st v) = int (Suc k)" "(g_myself G, h) \<in> usable G nd"
    "(h, v) \<in> usable G nd ^^ k" by (auto simp: node_inv_def)
  then show ?thesis using relpow_Suc_I2 by metis
qed

definition nodes_inv :: "graph_env \<Rightarrow> (name \<Rightarrow> bool) \<Rightarrow> nodes \<Rightarrow> bool" where
  "nodes_inv G nd st \<longleftrightarrow>
     (\<forall>v. no_direct (st v) = nd v) \<and> visited (st (g_myself G)) \<and> distance (st (g_myself G)) = 0 \<and>
     (\<forall>v. visited (st v) \<longrightarrow> node_inv G nd st v)"

text \<open>\<open>X\<close> are the expanded nodes.\<close>

definition queue_inv :: "graph_env \<Rightarrow> (name \<Rightarrow> bool) \<Rightarrow> name set \<Rightarrow> nodes \<Rightarrow> name list \<Rightarrow> bool" where
  "queue_inv G nd X st todo \<longleftrightarrow>
     (\<forall>v\<in>X \<union> set todo. visited (st v)) \<and> (\<forall>v. visited (st v) \<longrightarrow> v \<in> X \<union> set todo) \<and>
     (\<forall>(u, v)\<in>usable G nd. u \<in> X \<longrightarrow> visited (st v) \<and> distance (st v) \<le> distance (st u) + 1) \<and>
     sorted_wrt (\<lambda>x y. distance (st x) \<le> distance (st y)) (fresh X todo) \<and>
     (\<forall>f fs. fresh X todo = f # fs \<longrightarrow> (\<forall>v. visited (st v) \<longrightarrow> distance (st v) \<le> distance (st f) + 1))"

text \<open>Visited nodes stay visited and keep their distance.\<close>

definition grows :: "nodes \<Rightarrow> nodes \<Rightarrow> bool" where
  "grows st st' \<longleftrightarrow> (\<forall>v. visited (st v) \<longrightarrow> visited (st' v) \<and> distance (st' v) = distance (st v))"

lemma grows_refl [simp]: "grows st st"
  by (simp add: grows_def)

lemma grows_trans: "grows st st' \<Longrightarrow> grows st' st'' \<Longrightarrow> grows st st''"
  by (simp add: grows_def)

lemma nodes_inv_update:
  assumes inv: "nodes_inv G nd st" and n: "visited (st n)" and e: "e \<in> set (g_edges G n)"
    and go: "ereverse e" "eto e \<noteq> g_myself G" "\<not> (n = g_myself G \<and> no_direct (st (eto e)))"
      "better \<Longrightarrow> distance (st (eto e)) = distance (st n) + 1" "indirect (st n) \<Longrightarrow> ind"
  shows "nodes_inv G nd (st(eto e := update_target G (st n) e ind better (st (eto e))))" (is "nodes_inv G nd ?st")
proof -
  let ?me = "g_myself G" and ?t = "eto e"
  have nd: "\<And>v. no_direct (st v) = nd v" using inv by (simp add: nodes_inv_def)
  have edge: "(n, ?t) \<in> usable G nd" using go(1-3) e nd by (auto simp: usable_def)
  have nn: "node_inv G nd st n" using inv n by (simp add: nodes_inv_def)
  obtain w where w: "via (st n) = Some w" "visited (st w)" using nn by (auto simp: node_inv_def)
  have hop: "\<exists>h k. (if nexthop (st n) = Some ?me then Some ?t else nexthop (st n)) = Some h \<and>
      distance (st n) + 1 = int (Suc k) \<and> (?me, h) \<in> usable G nd \<and> (h, ?t) \<in> usable G nd ^^ k"
  proof (cases "n = ?me")
    case True
    with nn edge show ?thesis by (intro exI [of _ ?t] exI [of _ 0]) (simp add: node_inv_def)
  next
    case False
    with nn obtain h k where h: "nexthop (st n) = Some h" "distance (st n) = int (Suc k)"
      "(?me, h) \<in> usable G nd" "(h, n) \<in> usable G nd ^^ k" by (auto simp: node_inv_def)
    have "h \<noteq> ?me" using h(3) by (simp add: usable_def)
    moreover have "(h, ?t) \<in> usable G nd ^^ Suc k" using h(4) edge by (rule relpow_step)
    ultimately show ?thesis using h by (intro exI [of _ h] exI [of _ "Suc k"]) simp
  qed
  have "node_inv G nd ?st v" if "visited (?st v)" for v
  proof (cases "v = ?t")
    case False
    with that inv have "node_inv G nd st v" by (simp add: nodes_inv_def)
    moreover have "visited (st w) \<Longrightarrow> visited (?st w)" for w by simp
    moreover have "?st v = st v" using False by simp
    ultimately show ?thesis unfolding node_inv_def by metis
  next
    case True
    have old: "node_inv G nd st ?t" if "visited (st ?t)" using inv that by (simp add: nodes_inv_def)
    have "\<exists>h k. nexthop (?st ?t) = Some h \<and> distance (?st ?t) = int (Suc k) \<and>
        (?me, h) \<in> usable G nd \<and> (h, ?t) \<in> usable G nd ^^ k"
    proof (cases "visited (st ?t) \<and> \<not> better")
      case True
      with old go(2) show ?thesis by (simp add: node_inv_def)
    next
      case False
      with hop show ?thesis by auto
    qed
    moreover have "\<exists>w. via (?st ?t) = Some w \<and> visited (?st w) \<and> (indirect (?st ?t) \<or> w = ?t)"
      using w by auto
    ultimately show ?thesis using True go(2) by (simp add: node_inv_def)
  qed
  with nd inv go(2) show ?thesis by (auto simp: nodes_inv_def)
qed

lemma queue_inv_again:
  assumes Q: "queue_inv G nd X st (n # rest)" and t: "visited (st t)"
    and same: "\<And>v. visited (st' v) = visited (st v)" "\<And>v. distance (st' v) = distance (st v)"
  shows "queue_inv G nd X st' (n # rest @ [t])"
proof -
  have "t \<in> X \<or> t \<in> set (n # rest)" using Q t unfolding queue_inv_def by blast
  then have fr: "fresh X (n # rest @ [t]) = fresh X (n # rest)" and
    st: "X \<union> set (n # rest @ [t]) = X \<union> set (n # rest)"
    using fresh_snoc [of X "n # rest" t] by auto
  show ?thesis using Q unfolding queue_inv_def same fr st .
qed

lemma queue_inv_new:
  assumes Q: "queue_inv G nd X st (n # rest)" and edge: "(n, t) \<in> usable G nd" and t: "\<not> visited (st t)"
    and dt: "distance (st' t) = distance (st n) + 1"
    and same: "\<And>v. v \<noteq> t \<Longrightarrow> distance (st' v) = distance (st v)"
    and vis: "\<And>v. visited (st' v) \<longleftrightarrow> visited (st v) \<or> v = t"
  shows "queue_inv G nd X st' (n # rest @ [t])"
proof -
  have qv: "\<And>v. v \<in> X \<union> set (n # rest) \<longleftrightarrow> visited (st v)"
    and qe: "\<And>u v. (u, v) \<in> usable G nd \<Longrightarrow> u \<in> X \<Longrightarrow> visited (st v) \<and> distance (st v) \<le> distance (st u) + 1"
    using Q unfolding queue_inv_def by blast+
  have nX: "n \<notin> X" using qe edge t by blast
  have tn: "t \<notin> X" "t \<notin> set (n # rest)" using qv [of t] t by auto
  obtain fs where fs: "fresh X (n # rest) = n # fs" using nX by (simp add: fresh_Cons)
  have tfs: "t \<notin> set (n # fs)" using set_fresh [of X "n # rest"] tn unfolding fs by blast
  have fr: "fresh X (n # rest @ [t]) = n # fs @ [t]"
    using fresh_snoc [of X "n # rest" t] tn unfolding fs by simp
  have near: "\<And>v. visited (st v) \<Longrightarrow> distance (st v) \<le> distance (st n) + 1"
    using Q unfolding queue_inv_def fs by blast
  have nv: "x \<in> set (n # fs) \<Longrightarrow> visited (st x)" for x
    using set_fresh [of X "n # rest"] qv unfolding fs by blast
  have sorted: "sorted_wrt (\<lambda>x y. distance (st x) \<le> distance (st y)) (n # fs)"
    using Q unfolding queue_inv_def fs by blast
  have sorted': "sorted_wrt (\<lambda>x y. distance (st' x) \<le> distance (st' y)) (n # fs)"
    by (rule sorted_wrt_mono_rel [OF _ sorted]) (use tfs same in metis)
  have last: "x \<in> set (n # fs) \<Longrightarrow> distance (st' x) \<le> distance (st' t)" for x
    using near [OF nv, of x] same [of x] tfs dt by (cases "x = t") auto
  have 1: "\<forall>v\<in>X \<union> set (n # rest @ [t]). visited (st' v)" using qv vis by auto
  have 2: "\<forall>v. visited (st' v) \<longrightarrow> v \<in> X \<union> set (n # rest @ [t])" using qv vis by auto
  have 3: "\<forall>(u, v)\<in>usable G nd. u \<in> X \<longrightarrow> visited (st' v) \<and> distance (st' v) \<le> distance (st' u) + 1"
    using qe vis same t tn(1) by (metis (no_types, lifting) case_prodI2)
  have 4: "sorted_wrt (\<lambda>x y. distance (st' x) \<le> distance (st' y)) (n # fs @ [t])"
    using sorted' last by (simp add: sorted_wrt_append)
  have "distance (st' v) \<le> distance (st' n) + 1" if "visited (st' v)" for v
    using that near [of v] dt same [of v] same [of n] tn vis [of v] by (cases "v = t") auto
  with 1 2 3 4 show ?thesis unfolding queue_inv_def fr by blast
qed

lemma visit_edge_inv:
  assumes N: "nodes_inv G nd st" and Q: "queue_inv G nd X st (n # rest)" and e: "e \<in> set (g_edges G n)"
  shows "\<exists>st' rest'. visit_edge G n e (st, n # rest) = (st', n # rest') \<and>
    nodes_inv G nd st' \<and> queue_inv G nd X st' (n # rest') \<and> grows st st' \<and>
    ((n, eto e) \<in> usable G nd \<and> ereverse e \<longrightarrow> visited (st' (eto e)))"
proof -
  have nd: "\<And>v. no_direct (st v) = nd v" using N by (simp add: nodes_inv_def)
  have n: "visited (st n)" using Q by (simp add: queue_inv_def)
  show ?thesis
  proof (cases rule: visit_edge_cases [of G n e st "n # rest"])
    case skip
    with N Q nd show ?thesis by (auto simp: usable_def)
  next
    case (go ind better)
    define st' where "st' = st(eto e := update_target G (st n) e ind better (st (eto e)))"
    have edge: "(n, eto e) \<in> usable G nd" using go e nd by (auto simp: usable_def)
    have N': "nodes_inv G nd st'" unfolding st'_def by (rule nodes_inv_update [OF N n e]) (use go in auto)
    have grows: "grows st st'" using go(5) by (auto simp: grows_def st'_def)
    have vt: "visited (st' (eto e))" by (simp add: st'_def)
    have "queue_inv G nd X st' (n # (rest @ [eto e]))"
    proof (cases "visited (st (eto e))")
      case True
      have same: "visited (st' v) = visited (st v)" "distance (st' v) = distance (st v)" for v
        using True go(5) by (auto simp: st'_def)
      show ?thesis by (rule queue_inv_again [OF Q True same])
    next
      case False
      have dt: "distance (st' (eto e)) = distance (st n) + 1" using False by (simp add: st'_def)
      have same: "v \<noteq> eto e \<Longrightarrow> distance (st' v) = distance (st v)" for v by (simp add: st'_def)
      have vis: "visited (st' v) \<longleftrightarrow> visited (st v) \<or> v = eto e" for v by (simp add: st'_def)
      show ?thesis by (rule queue_inv_new [OF Q edge False dt same vis])
    qed
    with go(1) N' grows vt show ?thesis
      unfolding st'_def [symmetric] by (intro exI [of _ st'] exI [of _ "rest @ [eto e]"]) simp
  qed
qed


lemma fold_visit_inv:
  assumes "nodes_inv G nd st" "queue_inv G nd X st (n # rest)" "set es \<subseteq> set (g_edges G n)"
  shows "\<exists>st' rest'. fold (visit_edge G n) es (st, n # rest) = (st', n # rest') \<and>
    nodes_inv G nd st' \<and> queue_inv G nd X st' (n # rest') \<and> grows st st' \<and>
    (\<forall>e\<in>set es. (n, eto e) \<in> usable G nd \<and> ereverse e \<longrightarrow> visited (st' (eto e)))"
  using assms
proof (induction es arbitrary: st rest)
  case (Cons e es)
  obtain st1 rest1 where 1: "visit_edge G n e (st, n # rest) = (st1, n # rest1)"
    "nodes_inv G nd st1" "queue_inv G nd X st1 (n # rest1)" "grows st st1"
    "(n, eto e) \<in> usable G nd \<and> ereverse e \<longrightarrow> visited (st1 (eto e))"
    using visit_edge_inv [OF Cons.prems(1,2), of e] Cons.prems(3) by auto
  obtain st2 rest2 where 2: "fold (visit_edge G n) es (st1, n # rest1) = (st2, n # rest2)"
    "nodes_inv G nd st2" "queue_inv G nd X st2 (n # rest2)" "grows st1 st2"
    "\<forall>e\<in>set es. (n, eto e) \<in> usable G nd \<and> ereverse e \<longrightarrow> visited (st2 (eto e))"
    using Cons.IH [OF 1(2,3)] Cons.prems(3) by auto
  have "grows st st2" using 1(4) 2(4) by (rule grows_trans)
  moreover have "(n, eto e) \<in> usable G nd \<and> ereverse e \<longrightarrow> visited (st2 (eto e))"
    using 1(5) 2(4) by (simp add: grows_def)
  ultimately show ?case using 1(1) 2 by (intro exI [of _ st2] exI [of _ rest2]) simp
qed simp

text \<open>Once its edges are visited, the head of the queue is expanded.\<close>

lemma queue_inv_expand:
  assumes Q: "queue_inv G nd X st (n # rest)"
    and all: "\<And>v. (n, v) \<in> usable G nd \<Longrightarrow> visited (st v)"
  shows "queue_inv G nd (insert n X) st rest"
proof -
  have eq: "insert n X \<union> set rest = X \<union> set (n # rest)" by auto
  have qe: "\<And>u v. (u, v) \<in> usable G nd \<Longrightarrow> u \<in> X \<Longrightarrow> visited (st v) \<and> distance (st v) \<le> distance (st u) + 1"
    and sorted: "sorted_wrt (\<lambda>x y. distance (st x) \<le> distance (st y)) (fresh X (n # rest))"
    and near: "\<And>f fs v. fresh X (n # rest) = f # fs \<Longrightarrow> visited (st v) \<Longrightarrow> distance (st v) \<le> distance (st f) + 1"
    using Q unfolding queue_inv_def by blast+
  have new: "distance (st v) \<le> distance (st n) + 1" if "(n, v) \<in> usable G nd" for v
  proof (cases "n \<in> X")
    case True
    with qe that show ?thesis by blast
  next
    case False
    with near [OF fresh_Cons all] that show ?thesis by blast
  qed
  have 3: "\<forall>(u, v)\<in>usable G nd. u \<in> insert n X \<longrightarrow> visited (st v) \<and> distance (st v) \<le> distance (st u) + 1"
    using qe new all by blast
  have 4: "sorted_wrt (\<lambda>x y. distance (st x) \<le> distance (st y)) (fresh (insert n X) rest)"
  proof (cases "n \<in> X")
    case True
    with sorted show ?thesis by (simp add: fresh_Cons_expanded insert_absorb)
  next
    case False
    with sorted show ?thesis by (simp add: fresh_Cons)
  qed
  have 5: "distance (st v) \<le> distance (st f) + 1"
    if f: "fresh (insert n X) rest = f # fs" and v: "visited (st v)" for f fs v
  proof (cases "n \<in> X")
    case True
    with near [OF _ v] f show ?thesis by (simp add: fresh_Cons_expanded insert_absorb)
  next
    case False
    then have fr: "fresh X (n # rest) = n # f # fs" using f by (simp add: fresh_Cons)
    from sorted have "distance (st n) \<le> distance (st f)" unfolding fr by simp
    with near [OF fr v] show ?thesis by simp
  qed
  have 12: "\<forall>v\<in>insert n X \<union> set rest. visited (st v)" "\<forall>v. visited (st v) \<longrightarrow> v \<in> insert n X \<union> set rest"
    using Q unfolding queue_inv_def eq by blast+
  show ?thesis unfolding queue_inv_def using 12 3 4 5 by blast
qed

lemma sssp_loop_returns:
  assumes "graph_ok G" "wd_ok st" "nodes_inv G nd st" "queue_inv G nd X st todo"
  shows "\<exists>st' X'. sssp_loop G st todo = Some st' \<and> nodes_inv G nd st' \<and> queue_inv G nd X' st' []"
  using assms(2-4)
proof (induction "work G (st, todo)" arbitrary: st todo X rule: less_induct)
  case less
  show ?case
  proof (cases todo)
    case Nil
    with less.prems show ?thesis by (subst sssp_loop.simps) auto
  next
    case (Cons n rest)
    have n: "visited (st n)" using less.prems(3) Cons by (simp add: queue_inv_def)
    then have "node_inv G nd st n" using less.prems(2) by (simp add: nodes_inv_def)
    then have dist: "\<not> distance (st n) < 0" using node_inv_distance by fastforce
    obtain st' rest' where step: "fold (visit_edge G n) (g_edges G n) (st, n # rest) = (st', n # rest')"
      "nodes_inv G nd st'" "queue_inv G nd X st' (n # rest')"
      "\<forall>e\<in>set (g_edges G n). (n, eto e) \<in> usable G nd \<and> ereverse e \<longrightarrow> visited (st' (eto e))"
      using fold_visit_inv [of G nd st X n rest "g_edges G n"] less.prems Cons by blast
    have "queue_inv G nd (insert n X) st' rest'"
      by (rule queue_inv_expand [OF step(3)]) (use step(4) in \<open>auto simp: usable_def\<close>)
    moreover have wk: "wd_ok st' \<and> work G (st', n # rest') \<le> work G (st, n # rest)"
      using fold_visit_work [of "(st, n # rest)" "g_edges G n" G n] less.prems(1) assms(1) step(1)
      by (simp add: graph_ok_def)
    moreover have "work G (st', rest') < work G (st, todo)" using wk Cons by (simp add: work_def)
    ultimately have "\<exists>st'' X'. sssp_loop G st' rest' = Some st'' \<and> nodes_inv G nd st'' \<and> queue_inv G nd X' st'' []"
      using less.hyps [of st' rest'] step(2) by blast
    moreover have "sssp_loop G st todo = sssp_loop G st' rest'"
      using dist Cons step(1) by (subst sssp_loop.simps) simp
    ultimately show ?thesis by simp
  qed
qed

section \<open>The result of the search\<close>

lemma queue_done:
  assumes N: "nodes_inv G nd st" and Q: "queue_inv G nd X st []"
  shows visited_iff_reachable: "visited (st v) \<longleftrightarrow> (g_myself G, v) \<in> (usable G nd)\<^sup>*"
    and distance_le_path: "(g_myself G, v) \<in> usable G nd ^^ k \<Longrightarrow> visited (st v) \<and> distance (st v) \<le> int k"
proof -
  have me: "visited (st (g_myself G))" "distance (st (g_myself G)) = 0" using N by (auto simp: nodes_inv_def)
  have step: "\<And>u v. (u, v) \<in> usable G nd \<Longrightarrow> visited (st u) \<Longrightarrow> visited (st v) \<and> distance (st v) \<le> distance (st u) + 1"
    using Q by (fastforce simp: queue_inv_def)
  have path: "(g_myself G, v) \<in> usable G nd ^^ k \<Longrightarrow> visited (st v) \<and> distance (st v) \<le> int k" for k v
  proof (induction k arbitrary: v)
    case (Suc k)
    then show ?case using step by fastforce
  qed (use me in auto)
  then show "(g_myself G, v) \<in> usable G nd ^^ k \<Longrightarrow> visited (st v) \<and> distance (st v) \<le> int k" .
  show "visited (st v) \<longleftrightarrow> (g_myself G, v) \<in> (usable G nd)\<^sup>*"
  proof
    assume "visited (st v)"
    then show "(g_myself G, v) \<in> (usable G nd)\<^sup>*"
      using N node_inv_distance relpow_imp_rtrancl unfolding nodes_inv_def by metis
  next
    assume "(g_myself G, v) \<in> (usable G nd)\<^sup>*"
    then show "visited (st v)" using path rtrancl_imp_relpow by metis
  qed
qed

lemma distance_is_least:
  assumes N: "nodes_inv G nd st" and Q: "queue_inv G nd X st []" and v: "visited (st v)"
  shows "distance (st v) = int (LEAST k. (g_myself G, v) \<in> usable G nd ^^ k)"
proof -
  obtain k where k: "distance (st v) = int k" "(g_myself G, v) \<in> usable G nd ^^ k"
    using N v node_inv_distance unfolding nodes_inv_def by blast
  have "k \<le> j" if "(g_myself G, v) \<in> usable G nd ^^ j" for j
    using distance_le_path [OF N Q that] k(1) by simp
  with k show ?thesis by (metis Least_equality)
qed

lemma sssp_init_ok:
  assumes "graph_ok G" "\<And>v. v \<notin> set (g_nodes G) \<Longrightarrow> \<not> visited (st v)"
  defines "nd \<equiv> \<lambda>v. no_direct (st v)" and "me \<equiv> g_myself G"
  shows "wd_ok (sssp_init G st) \<and> nodes_inv G nd (sssp_init G st) \<and> queue_inv G nd {} (sssp_init G st) [me]"
proof -
  let ?s = "sssp_init G st"
  have "update_nodes (\<lambda>_. clear_node) (g_nodes G) st v = (if v \<in> set (g_nodes G) then clear_node (st v) else st v)" for v
    using assms(1) by (simp add: update_nodes_apply graph_ok_def)
  then have eq: "?s v = (if v = me then start_node me (clear_node (st v)) else
      if v \<in> set (g_nodes G) then clear_node (st v) else st v)" for v
    using assms(1) by (simp add: sssp_init_def me_def graph_ok_def)
  have vis: "visited (?s v) \<longleftrightarrow> v = me" for v using assms(2) [of v] by (simp add: eq clear_node_def start_node_def)
  have nd: "no_direct (?s v) = nd v" for v by (simp add: eq clear_node_def start_node_def nd_def)
  have me: "distance (?s me) = 0" "weighted_distance (?s me) = 0" "nexthop (?s me) = Some me" "via (?s me) = Some me"
    by (simp_all add: eq start_node_def)
  have "node_inv G nd ?s me" using me vis by (simp add: node_inv_def me_def [symmetric])
  then have "nodes_inv G nd ?s" using nd vis me by (simp add: nodes_inv_def me_def [symmetric])
  moreover have "queue_inv G nd {} ?s [me]"
    using vis me by (auto simp: queue_inv_def fresh_def firsts_Cons me_def [symmetric])
  ultimately show ?thesis using vis me by (simp add: wd_ok_def)
qed

text \<open>The passes after the search keep what it found.\<close>

lemma after_search:
  fixes st :: nodes
  assumes "graph_ok G"
  defines "s \<equiv> update_nodes (mark_stale G) (g_nodes G) (local_discovery G st)"
  shows "visited (s v) = visited (st v)" "distance (s v) = distance (st v)" "nexthop (s v) = nexthop (st v)"
    "indirect (s v) \<longrightarrow> indirect (st v)" "via (s v) = via (st v) \<or> via (s v) = Some v"
    "via (s v) = via (st v) \<or> \<not> indirect (s v)" "indirect (s v) = indirect (st v) \<or> via (s v) = Some v"
  using assms(1)
  by (auto simp: s_def local_discovery_def local_discovery_node_def mark_stale_def Let_def graph_ok_def
      update_nodes_apply)

lemma sssp_bfs_returns:
  assumes G: "graph_ok G" and out: "{v. visited (st v)} \<subseteq> set (g_nodes G)"
  defines "nd \<equiv> \<lambda>v. no_direct (st v)"
  shows "\<exists>s1 s X. sssp_bfs G st = Some s \<and> nodes_inv G nd s1 \<and> queue_inv G nd X s1 [] \<and>
    (\<forall>v. visited (s v) = visited (s1 v) \<and> distance (s v) = distance (s1 v) \<and> nexthop (s v) = nexthop (s1 v) \<and>
      (via (s v) = Some v \<or> via (s v) = via (s1 v) \<and> indirect (s v) = indirect (s1 v)))"
proof -
  obtain s1 X where 1: "sssp_loop G (sssp_init G st) [g_myself G] = Some s1" "nodes_inv G nd s1"
    "queue_inv G nd X s1 []"
    using sssp_loop_returns [OF G] sssp_init_ok [of G st] G out unfolding nd_def by blast
  let ?s = "update_nodes (mark_stale G) (g_nodes G) (local_discovery G s1)"
  have "sssp_bfs G st = Some ?s" using 1(1) by (simp add: sssp_bfs_def)
  moreover have "visited (?s v) = visited (s1 v) \<and> distance (?s v) = distance (s1 v) \<and>
      nexthop (?s v) = nexthop (s1 v) \<and>
      (via (?s v) = Some v \<or> via (?s v) = via (s1 v) \<and> indirect (?s v) = indirect (s1 v))" for v
    using after_search [OF G, of s1 v] by blast
  ultimately show ?thesis using 1(2,3) by blast
qed

text \<open>C12: \<open>sssp_bfs\<close> always returns (it neither loops nor aborts, even when nodes are queued again and
  weights overflow), and then a node is visited exactly if it can be reached from the daemon over
  usable edges, and its distance is the least number of such edges.\<close>

theorem sssp_bfs_shortest_hops:
  assumes "graph_ok G" "{v. visited (st v)} \<subseteq> set (g_nodes G)"
  shows "\<exists>s. sssp_bfs G st = Some s \<and>
    (\<forall>v. (visited (s v) \<longleftrightarrow> (g_myself G, v) \<in> (usable G (\<lambda>v. no_direct (st v)))\<^sup>*) \<and>
      (visited (s v) \<longrightarrow>
         distance (s v) = int (LEAST k. (g_myself G, v) \<in> usable G (\<lambda>v. no_direct (st v)) ^^ k)))"
proof -
  obtain s1 s X where s: "sssp_bfs G st = Some s" "nodes_inv G (\<lambda>v. no_direct (st v)) s1"
    "queue_inv G (\<lambda>v. no_direct (st v)) X s1 []"
    "\<forall>v. visited (s v) = visited (s1 v) \<and> distance (s v) = distance (s1 v)"
    using sssp_bfs_returns [OF assms] by blast
  then show ?thesis
    using visited_iff_reachable [OF s(2,3)] distance_is_least [OF s(2,3)] by simp
qed

text \<open>C13: After \<open>sssp_bfs\<close> the next hop of every visited node other than the daemon is a neighbour that
  the daemon may contact directly, and it lies on a shortest path to the node.\<close>

theorem sssp_bfs_next_hop:
  assumes "graph_ok G" "{v. visited (st v)} \<subseteq> set (g_nodes G)"
  shows "\<exists>s. sssp_bfs G st = Some s \<and>
    (\<forall>v. visited (s v) \<and> v \<noteq> g_myself G \<longrightarrow>
      (\<exists>h k. nexthop (s v) = Some h \<and> (g_myself G, h) \<in> usable G (\<lambda>v. no_direct (st v)) \<and>
        (h, v) \<in> usable G (\<lambda>v. no_direct (st v)) ^^ k \<and> distance (s v) = int (Suc k)))"
proof -
  obtain s1 s X where s: "sssp_bfs G st = Some s" "nodes_inv G (\<lambda>v. no_direct (st v)) s1"
    "\<forall>v. visited (s v) = visited (s1 v) \<and> distance (s v) = distance (s1 v) \<and> nexthop (s v) = nexthop (s1 v)"
    using sssp_bfs_returns [OF assms] by blast
  have "\<exists>h k. nexthop (s1 v) = Some h \<and> (g_myself G, h) \<in> usable G (\<lambda>v. no_direct (st v)) \<and>
      (h, v) \<in> usable G (\<lambda>v. no_direct (st v)) ^^ k \<and> distance (s1 v) = int (Suc k)"
    if "visited (s1 v)" "v \<noteq> g_myself G" for v
    using that s(2) unfolding nodes_inv_def node_inv_def by metis
  with s(1,3) show ?thesis by simp
qed

text \<open>After \<open>sssp_bfs\<close> every visited node has a \<open>via\<close> node, which is visited itself; UDP packets for
  a node that is not indirect go to that node.\<close>

lemma sssp_bfs_via:
  assumes "graph_ok G" "{v. visited (st v)} \<subseteq> set (g_nodes G)"
  shows "\<exists>s. sssp_bfs G st = Some s \<and>
    (\<forall>v. visited (s v) \<longrightarrow> (\<exists>w. via (s v) = Some w \<and> visited (s w) \<and> (indirect (s v) \<or> w = v)))"
proof -
  obtain s1 s X where s: "sssp_bfs G st = Some s" "nodes_inv G (\<lambda>v. no_direct (st v)) s1"
    "\<forall>v. visited (s v) = visited (s1 v) \<and>
      (via (s v) = Some v \<or> via (s v) = via (s1 v) \<and> indirect (s v) = indirect (s1 v))"
    using sssp_bfs_returns [OF assms] by blast
  have "\<exists>w. via (s v) = Some w \<and> visited (s w) \<and> (indirect (s v) \<or> w = v)" if "visited (s v)" for v
    using that s(2) s(3) [rule_format, of v] s(3) unfolding nodes_inv_def node_inv_def by (metis (no_types))
  with s(1) show ?thesis by blast
qed

subsection \<open>An example\<close>

definition example_edge :: "name \<Rightarrow> name \<Rightarrow> int \<Rightarrow> edge" where
  "example_edge a b w = \<lparr>efrom = a, eto = b, eweight = w, eoptions = 0, eaddress = Addr_unspec,
     elocal_address = Addr_unspec, ereverse = True, erev_address = Addr_unspec, econnection = None,
     erev_connection = None\<rparr>"

definition example_graph :: graph_env where
  "example_graph = example_graph_env [''a'', ''b'', ''c'']
     (\<lambda>n. if n = ''a'' then [example_edge ''a'' ''b'' 5]
       else if n = ''b'' then [example_edge ''b'' ''a'' 5, example_edge ''b'' ''c'' 7]
       else if n = ''c'' then [example_edge ''c'' ''b'' 7] else [])"

abbreviation example_node :: gnode where
  "example_node \<equiv> new_node False"

lemma example_graph_ok: "graph_ok example_graph"
  by (simp add: graph_ok_def example_graph_def example_graph_env_def example_edge_def)

theorem sssp_bfs_shortest_hops_witness:
  "\<exists>s. sssp_bfs example_graph (\<lambda>_. example_node) = Some s \<and> visited (s ''c'')"
proof -
  have "(''a'', ''b'') \<in> usable example_graph (\<lambda>v. no_direct example_node)"
    "(''b'', ''c'') \<in> usable example_graph (\<lambda>v. no_direct example_node)"
    by (simp_all add: usable_def example_graph_def example_graph_env_def example_edge_def new_node_def)
  then have "(''a'', ''c'') \<in> (usable example_graph (\<lambda>v. no_direct example_node))\<^sup>*"
    by (meson r_into_rtrancl rtrancl.rtrancl_into_rtrancl)
  then show ?thesis
    using sssp_bfs_shortest_hops [of example_graph "\<lambda>_. example_node", OF example_graph_ok]
    by (auto simp: new_node_def example_graph_def example_graph_env_def)
qed

theorem sssp_bfs_next_hop_witness:
  "\<exists>s. sssp_bfs example_graph (\<lambda>_. example_node) = Some s \<and>
    (visited (s ''c'') \<longrightarrow> (\<exists>h. nexthop (s ''c'') = Some h))"
  using sssp_bfs_next_hop [of example_graph "\<lambda>_. example_node", OF example_graph_ok]
  by (auto simp: new_node_def example_graph_def example_graph_env_def)

end
