(* ===== verification/GraphTree.thy ===== *)
theory GraphTree
  imports Graph
begin

text \<open>
  The properties of the change of reachability, and of the spanning tree: its nodes are one
  connected component, it is a tree on them, and every edge is one of least weight that leaves the
  nodes connected before it.
\<close>

section \<open>Change of reachability\<close>

lemma check_node_down:
  assumes "reachable x" "\<not> visited x"
  shows "fst (check_node G n x) = clear_status (update_node_udp G n None (fst (turn_node G n x)))"
  using assms by (simp add: check_node_def case_prod_beta)

lemma udp_forgotten: "n \<noteq> g_myself G \<Longrightarrow> \<not> udp_indexed (update_node_udp G n None x)"
  by (simp add: update_node_udp_def set_udp_address_def Let_def)

lemma check_node_reachable: "reachable (fst (check_node G n x)) = visited x"
  by (auto simp: check_node_def clear_status_def case_prod_beta)

lemma check_node_subnets:
  "Ev_subnet_update m b \<in> set (snd (check_node G n x)) \<longleftrightarrow> m = n \<and> visited x \<noteq> reachable x \<and> b = visited x"
  by (auto simp: check_node_def case_prod_beta)

lemma check_node_gone:
  assumes "reachable x \<and> \<not> visited x"
  shows "\<not> validkey (fst (check_node G n x)) \<and> \<not> waitingforkey (fst (check_node G n x)) \<and>
    \<not> udp_confirmed (fst (check_node G n x)) \<and> \<not> udp_addr_confirmed (fst (check_node G n x)) \<and>
    (n \<noteq> g_myself G \<longrightarrow> \<not> udp_indexed (fst (check_node G n x)))"
  using assms by (simp add: check_node_down clear_status_def udp_forgotten)

text \<open>C15: After \<open>check_reachability\<close> a node is reachable exactly if the search visited it, and its subnets
  and scripts are notified exactly if that is a change.  A node that has become unreachable has
  neither key nor confirmed address left.\<close>

theorem reachability_follows_search:
  assumes "distinct (g_nodes G)" "n \<in> set (g_nodes G)"
  shows "case check_reachability G st of (st', evs, dev) \<Rightarrow>
    (reachable (st' n) \<longleftrightarrow> visited (st n)) \<and>
    (\<forall>b. Ev_subnet_update n b \<in> set evs \<longleftrightarrow> visited (st n) \<noteq> reachable (st n) \<and> b = visited (st n)) \<and>
    (reachable (st n) \<and> \<not> visited (st n) \<longrightarrow>
       \<not> validkey (st' n) \<and> \<not> waitingforkey (st' n) \<and> \<not> udp_confirmed (st' n) \<and> \<not> udp_addr_confirmed (st' n) \<and>
       (n \<noteq> g_myself G \<longrightarrow> \<not> udp_indexed (st' n)))"
proof -
  obtain st' evs dev where r: "check_reachability G st = (st', evs, dev)" by (metis prod_cases3)
  have st': "st' n = fst (check_node G n (st n))" and
    evs: "set evs = (\<Union>m\<in>set (g_nodes G). set (snd (check_node G m (st m))))"
    using r assms by (auto simp: check_reachability_def Let_def update_nodes_apply)
  have "Ev_subnet_update n b \<in> set evs \<longleftrightarrow> visited (st n) \<noteq> reachable (st n) \<and> b = visited (st n)" for b
    using assms(2) unfolding evs by (simp add: check_node_subnets)
  then show ?thesis
    unfolding r prod.case st' using check_node_reachable check_node_gone by blast
qed


text \<open>
  The virtual network device is up exactly while some other node is reachable, if it was so before.
\<close>

definition others_reachable :: "graph_env \<Rightarrow> nodes \<Rightarrow> bool" where
  "others_reachable G st \<longleftrightarrow> (\<exists>n\<in>set (g_nodes G). n \<noteq> g_myself G \<and> reachable (st n))"

fun device_after :: "device_action \<Rightarrow> bool \<Rightarrow> bool" where
  "device_after Device_keep up = up" | "device_after Device_enable up = True" | "device_after Device_disable up = False"

lemma count_nodes_0: "count_nodes P me ns = 0 \<longleftrightarrow> (\<forall>n\<in>set ns. n \<noteq> me \<longrightarrow> \<not> P n)"
  by (auto simp: count_nodes_def filter_empty_conv)

lemma count_nodes_both:
  "count_nodes P me ns = count_nodes (\<lambda>n. P n \<and> \<not> Q n) me ns \<longleftrightarrow> (\<forall>n\<in>set ns. n \<noteq> me \<longrightarrow> \<not> (P n \<and> Q n))"
proof -
  have "count_nodes P me ns = count_nodes (\<lambda>n. P n \<and> \<not> Q n) me ns + count_nodes (\<lambda>n. P n \<and> Q n) me ns"
    unfolding count_nodes_def by (induction ns) auto
  then show ?thesis using count_nodes_0 [of "\<lambda>n. P n \<and> Q n" me ns] by simp
qed

text \<open>C17: With \<open>DeviceStandby\<close>, the device is up after \<open>graph()\<close> exactly if another node is reachable,
  provided that this held before.\<close>

theorem device_follows_reachability:
  assumes "distinct (g_nodes G)" "g_standby G" "up \<longleftrightarrow> others_reachable G st"
  shows "case check_reachability G st of (st', evs, dev) \<Rightarrow> device_after dev up \<longleftrightarrow> others_reachable G st'"
proof -
  let ?me = "g_myself G" and ?ns = "g_nodes G"
  let ?new = "\<lambda>n. visited (st n)" and ?old = "\<lambda>n. reachable (st n)"
  obtain st' evs dev where r: "check_reachability G st = (st', evs, dev)" by (metis prod_cases3)
  have new: "n \<in> set ?ns \<Longrightarrow> reachable (st' n) = visited (st n)" for n
    using r assms(1) by (auto simp: check_reachability_def Let_def update_nodes_apply check_node_reachable)
  have cnt: "count_nodes (\<lambda>n. reachable (st' n)) ?me ?ns = count_nodes ?new ?me ?ns"
    unfolding count_nodes_def using new by (intro arg_cong [of _ _ length] filter_cong) auto
  have dev: "dev = device_decision True (count_nodes ?new ?me ?ns)
      (count_nodes (\<lambda>n. ?new n \<and> \<not> ?old n) ?me ?ns) (count_nodes (\<lambda>n. ?old n \<and> \<not> ?new n) ?me ?ns)"
    using r assms(2) unfolding cnt [symmetric] by (auto simp: check_reachability_def Let_def conj_commute)
  have up: "up \<longleftrightarrow> (\<exists>n\<in>set ?ns. n \<noteq> ?me \<and> ?old n)" using assms(3) by (simp add: others_reachable_def)
  have up': "others_reachable G st' \<longleftrightarrow> (\<exists>n\<in>set ?ns. n \<noteq> ?me \<and> ?new n)"
    using new by (auto simp: others_reachable_def)
  have "device_after dev up \<longleftrightarrow> (\<exists>n\<in>set ?ns. n \<noteq> ?me \<and> ?new n)"
    using up unfolding dev device_decision_def if_True count_nodes_both neq0_conv [symmetric] count_nodes_0
    by auto
  with up' show ?thesis by (simp add: r)
qed

section \<open>The spanning tree\<close>

definition linked :: "edge list \<Rightarrow> (name \<times> name) set" where
  "linked es = {(u, v). \<exists>e\<in>set es. ereverse e \<and> (efrom e = u \<and> eto e = v \<or> efrom e = v \<and> eto e = u)}"

text \<open>The nodes connected by the edges \<open>es\<close>, starting from \<open>a\<close>, and the edges that leave a set.\<close>

definition spanned :: "name \<Rightarrow> edge list \<Rightarrow> name set" where
  "spanned a es = insert a (efrom ` set es \<union> eto ` set es)"

definition crosses :: "name set \<Rightarrow> edge \<Rightarrow> bool" where
  "crosses C e \<longleftrightarrow> ereverse e \<and> (efrom e \<in> C) \<noteq> (eto e \<in> C)"

definition light :: "edge list \<Rightarrow> name \<Rightarrow> edge list \<Rightarrow> bool" where
  "light all a es \<longleftrightarrow> (\<forall>i<length es. crosses (spanned a (take i es)) (es ! i) \<and>
     (\<forall>e\<in>set all. crosses (spanned a (take i es)) e \<longrightarrow> eweight (es ! i) \<le> eweight e))"

definition mst_inv :: "edge list \<Rightarrow> name \<Rightarrow> mst_state \<Rightarrow> bool" where
  "mst_inv all a s \<longleftrightarrow> {v. mvisited s v} = spanned a (madded s) \<and> set (madded s) \<subseteq> set all \<and>
     (\<forall>v. mvisited s v \<longrightarrow> (a, v) \<in> (linked (madded s))\<^sup>*) \<and>
     card (spanned a (madded s)) = Suc (length (madded s)) \<and> light all a (madded s) \<and>
     (\<forall>c. mconns s c \<longleftrightarrow> (\<exists>e\<in>set (madded s). econnection e = Some c \<or> erev_connection e = Some c))"

definition scanned :: "edge list \<Rightarrow> bool \<Rightarrow> mst_state \<Rightarrow> bool" where
  "scanned es skipped s \<longleftrightarrow> (\<forall>e\<in>set es. \<not> crosses {v. mvisited s v} e \<and>
     (skipped \<or> mvisited s (efrom e) \<and> mvisited s (eto e)))"

lemma spanned_snoc: "spanned a (es @ [e]) = insert (efrom e) (insert (eto e) (spanned a es))"
  by (auto simp: spanned_def)

lemma linked_mono: "set es \<subseteq> set fs \<Longrightarrow> linked es \<subseteq> linked fs"
  by (auto simp: linked_def)

lemma mst_inv_add:
  assumes inv: "mst_inv all a s" and e: "e \<in> set all" "crosses {v. mvisited s v} e"
    and least: "\<And>f. f \<in> set all \<Longrightarrow> crosses {v. mvisited s v} f \<Longrightarrow> eweight e \<le> eweight f"
  shows "mst_inv all a (add_tree_edge e s)"
proof -
  let ?C = "spanned a (madded s)" and ?es = "madded s @ [e]"
  have C: "{v. mvisited s v} = ?C" and sub: "set (madded s) \<subseteq> set all"
    and reach: "\<And>v. mvisited s v \<Longrightarrow> (a, v) \<in> (linked (madded s))\<^sup>*"
    and card: "card ?C = Suc (length (madded s))" and light: "light all a (madded s)"
    using inv unfolding mst_inv_def by blast+
  obtain u w where uw: "u \<in> ?C" "w \<notin> ?C" "spanned a ?es = insert w ?C" "(u, w) \<in> linked ?es"
    "w = efrom e \<or> w = eto e" "u = efrom e \<or> u = eto e"
  proof (cases "efrom e \<in> ?C")
    case True
    with e(2) C that [of "efrom e" "eto e"] show ?thesis by (auto simp: crosses_def spanned_snoc linked_def)
  next
    case False
    with e(2) C that [of "eto e" "efrom e"] show ?thesis by (auto simp: crosses_def spanned_snoc linked_def)
  qed
  have vis: "{v. mvisited (add_tree_edge e s) v} = spanned a ?es"
    using C unfolding spanned_snoc by (auto simp: add_tree_edge_def)
  have "(linked (madded s))\<^sup>* \<subseteq> (linked ?es)\<^sup>*" by (intro rtrancl_mono linked_mono) auto
  then have old: "v \<in> ?C \<Longrightarrow> (a, v) \<in> (linked ?es)\<^sup>*" for v using reach C by blast
  have "(a, w) \<in> (linked ?es)\<^sup>*" using old [OF uw(1)] uw(4) by (rule rtrancl_into_rtrancl)
  with old have all_old: "v \<in> insert w ?C \<Longrightarrow> (a, v) \<in> (linked ?es)\<^sup>*" for v by blast
  have reach': "\<forall>v. mvisited (add_tree_edge e s) v \<longrightarrow> (a, v) \<in> (linked ?es)\<^sup>*"
  proof (intro allI impI)
    fix v assume "mvisited (add_tree_edge e s) v"
    then have "v \<in> insert w ?C" using vis unfolding uw(3) by blast
    then show "(a, v) \<in> (linked ?es)\<^sup>*" by (rule all_old)
  qed
  have "finite ?C" by (simp add: spanned_def)
  then have card': "card (spanned a ?es) = Suc (length ?es)" using card uw(2,3) by simp
  have light': "light all a ?es"
    unfolding light_def
  proof (intro allI impI)
    fix i assume "i < length ?es"
    then consider "i < length (madded s)" | "i = length (madded s)" by fastforce
    then show "crosses (spanned a (take i ?es)) (?es ! i) \<and>
        (\<forall>f\<in>set all. crosses (spanned a (take i ?es)) f \<longrightarrow> eweight (?es ! i) \<le> eweight f)"
      using light e(2) least C by cases (auto simp: light_def nth_append)
  qed
  have conns: "\<forall>c. mconns (add_tree_edge e s) c \<longleftrightarrow>
      (\<exists>f\<in>set ?es. econnection f = Some c \<or> erev_connection f = Some c)"
    using inv by (auto simp: mst_inv_def add_tree_edge_def mark_conn_def split: option.splits if_splits)
  have "madded (add_tree_edge e s) = ?es" by (simp add: add_tree_edge_def)
  then show ?thesis
    unfolding mst_inv_def using vis sub e(1) reach' card' light' conns by simp
qed

lemma mst_loop_inv:
  assumes "mst_inv all a s" "all = pre @ rest" "scanned pre skipped s"
    "sorted_wrt (\<lambda>e f. eweight e \<le> eweight f) all"
  shows "mst_inv all a (mst_loop all rest skipped s) \<and> scanned all True (mst_loop all rest skipped s)"
  using assms
proof (induction all rest skipped s arbitrary: pre rule: mst_loop.induct)
  case (1 all skipped s)
  then show ?case by (auto simp: scanned_def)
next
  case (2 all e rest skipped s)
  let ?V = "{v. mvisited s v}"
  have all: "all = (pre @ [e]) @ rest" using "2.prems"(2) by simp
  show ?case
  proof (cases "crosses ?V e")
    case False
    then have skip: "\<not> ereverse e \<or> mvisited s (efrom e) = mvisited s (eto e)" by (auto simp: crosses_def)
    have "scanned (pre @ [e]) True s" using "2.prems"(3) False by (auto simp: scanned_def)
    from "2.IH"(1) [OF skip "2.prems"(1) all this "2.prems"(4)] skip show ?thesis by simp
  next
    case True
    then have cross: "\<not> (\<not> ereverse e \<or> mvisited s (efrom e) = mvisited s (eto e))" by (auto simp: crosses_def)
    have least: "eweight e \<le> eweight f" if "f \<in> set all" "crosses ?V f" for f
    proof -
      have "f \<notin> set pre" using that(2) "2.prems"(3) by (auto simp: scanned_def)
      with that(1) "2.prems"(2,4) show ?thesis by (auto simp: sorted_wrt_append)
    qed
    have "e \<in> set all" using "2.prems"(2) by simp
    then have inv: "mst_inv all a (add_tree_edge e s)" using mst_inv_add "2.prems"(1) True least by blast
    show ?thesis
    proof (cases skipped)
      case True
      have "scanned [] False (add_tree_edge e s)" by (simp add: scanned_def)
      from "2.IH"(2) [OF cross True inv _ this "2.prems"(4)] cross True show ?thesis by simp
    next
      case False
      have "scanned (pre @ [e]) False (add_tree_edge e s)"
        using "2.prems"(3) False by (auto simp: scanned_def crosses_def add_tree_edge_def)
      from "2.IH"(3) [OF cross False inv all this "2.prems"(4)] cross False show ?thesis by simp
    qed
  qed
qed

lemma mst_kruskal_inv:
  assumes "find (\<lambda>e. reach (efrom e)) all = Some e" "sorted_wrt (\<lambda>e f. eweight e \<le> eweight f) all"
  shows "mst_inv all (efrom e) (mst_kruskal reach all) \<and> scanned all True (mst_kruskal reach all)"
  unfolding mst_kruskal_def
  by (rule mst_loop_inv [where pre = "[]"])
    (use assms in \<open>simp_all add: mst_inv_def mst_start_def spanned_def light_def scanned_def\<close>)

lemma scanned_closed:
  assumes "scanned all True s" "(a, v) \<in> (linked all)\<^sup>*" "mvisited s a"
  shows "mvisited s v"
  using assms(2,3)
proof (induction rule: rtrancl_induct)
  case (step u v)
  then obtain e where "e \<in> set all" "ereverse e" "efrom e = u \<and> eto e = v \<or> efrom e = v \<and> eto e = u"
    by (auto simp: linked_def)
  with assms(1) step show ?case by (auto simp: scanned_def crosses_def)
qed

text \<open>C14: The tree algorithm ends, and the edges it adds form a spanning tree of the connected component
  of its starting node, over edges known in both directions: it visits exactly that component, connects
  it with edges of the graph, and uses one edge less than there are nodes.\<close>

theorem mst_is_spanning_tree:
  assumes "find (\<lambda>e. reach (efrom e)) all = Some e0" "sorted_wrt (\<lambda>e f. eweight e \<le> eweight f) all"
  shows "(\<forall>v. mvisited (mst_kruskal reach all) v \<longleftrightarrow> (efrom e0, v) \<in> (linked all)\<^sup>*) \<and>
    (\<forall>v. mvisited (mst_kruskal reach all) v \<longrightarrow> (efrom e0, v) \<in> (linked (madded (mst_kruskal reach all)))\<^sup>*) \<and>
    set (madded (mst_kruskal reach all)) \<subseteq> set all \<and>
    card {v. mvisited (mst_kruskal reach all) v} = Suc (length (madded (mst_kruskal reach all)))"
proof -
  let ?s = "mst_kruskal reach all"
  have inv: "mst_inv all (efrom e0) ?s" and fin: "scanned all True ?s" using mst_kruskal_inv [OF assms] by auto
  have C: "{v. mvisited ?s v} = spanned (efrom e0) (madded ?s)" and sub: "set (madded ?s) \<subseteq> set all"
    and path: "\<And>v. mvisited ?s v \<Longrightarrow> (efrom e0, v) \<in> (linked (madded ?s))\<^sup>*"
    and card: "card (spanned (efrom e0) (madded ?s)) = Suc (length (madded ?s))"
    using inv unfolding mst_inv_def by blast+
  have "(linked (madded ?s))\<^sup>* \<subseteq> (linked all)\<^sup>*" using sub by (intro rtrancl_mono linked_mono)
  moreover have "mvisited ?s (efrom e0)" using C by (auto simp: spanned_def)
  ultimately have "mvisited ?s v \<longleftrightarrow> (efrom e0, v) \<in> (linked all)\<^sup>*" for v
    using path scanned_closed [OF fin] by blast
  with C sub path card show ?thesis by simp
qed

text \<open>C16: Every edge of the tree is, among the edges that leave the nodes connected before it, one of
  least weight.  (So the tree grows from one node, as in Prim's algorithm, and is not assembled
  from the lightest edges of the whole graph.)\<close>

theorem mst_edges_are_light:
  assumes "find (\<lambda>e. reach (efrom e)) all = Some e0" "sorted_wrt (\<lambda>e f. eweight e \<le> eweight f) all"
    and "i < length (madded (mst_kruskal reach all))"
  defines "es \<equiv> madded (mst_kruskal reach all)"
  shows "crosses (spanned (efrom e0) (take i es)) (es ! i) \<and>
    (\<forall>e\<in>set all. crosses (spanned (efrom e0) (take i es)) e \<longrightarrow> eweight (es ! i) \<le> eweight e)"
  using mst_kruskal_inv [OF assms(1,2)] assms(3) unfolding es_def mst_inv_def light_def by blast

text \<open>A connection is marked for broadcasts exactly if it carries an edge of the tree, in either
  direction.\<close>

lemma mst_marks_tree_connections:
  assumes "find (\<lambda>e. reach (efrom e)) all = Some e0" "sorted_wrt (\<lambda>e f. eweight e \<le> eweight f) all"
  shows "mconns (mst_kruskal reach all) c \<longleftrightarrow>
    (\<exists>e\<in>set (madded (mst_kruskal reach all)). econnection e = Some c \<or> erev_connection e = Some c)"
  using mst_kruskal_inv [OF assms] unfolding mst_inv_def by blast

subsection \<open>Examples\<close>

definition tree_edge :: "name \<Rightarrow> name \<Rightarrow> int \<Rightarrow> edge" where
  "tree_edge a b w = \<lparr>efrom = a, eto = b, eweight = w, eoptions = 0, eaddress = Addr_unspec,
     elocal_address = Addr_unspec, ereverse = True, erev_address = Addr_unspec, econnection = Some b,
     erev_connection = None\<rparr>"

definition triangle :: "edge list" where
  "triangle = [tree_edge ''b'' ''c'' 1, tree_edge ''a'' ''b'' 2, tree_edge ''a'' ''c'' 3]"

lemma triangle_start: "find (\<lambda>e. efrom e = ''a'') triangle = Some (tree_edge ''a'' ''b'' 2)"
  by (simp add: triangle_def tree_edge_def)

lemma triangle_sorted: "sorted_wrt (\<lambda>e f. eweight e \<le> eweight f) triangle"
  by (simp add: triangle_def tree_edge_def)

lemma triangle_tree:
  "madded (mst_kruskal (\<lambda>n. n = ''a'') triangle) = [tree_edge ''a'' ''b'' 2, tree_edge ''b'' ''c'' 1]"
  by (simp add: mst_kruskal_def mst_start_def triangle_def tree_edge_def add_tree_edge_def)

theorem mst_is_spanning_tree_witness:
  "card {v. mvisited (mst_kruskal (\<lambda>n. n = ''a'') triangle) v} = 3"
  using mst_is_spanning_tree [OF triangle_start triangle_sorted] unfolding triangle_tree
  by (elim conjE) (simp only: list.size)

theorem mst_edges_are_light_witness:
  "crosses (spanned ''a'' []) (tree_edge ''a'' ''b'' 2)"
  using mst_edges_are_light [OF triangle_start triangle_sorted, of 0]
  by (simp add: triangle_tree) (simp add: tree_edge_def)

definition two_nodes :: nodes where
  "two_nodes n = (new_node (n = ''d''))\<lparr>reachable := (n = ''a'' \<or> n = ''d''), visited := (n = ''a'' \<or> n = ''b'')\<rparr>"

lemma two_nodes_simps [simp]:
  "reachable (two_nodes n) \<longleftrightarrow> n = ''a'' \<or> n = ''d''" "visited (two_nodes n) \<longleftrightarrow> n = ''a'' \<or> n = ''b''"
  by (simp_all add: two_nodes_def new_node_def)

abbreviation two_env :: graph_env where
  "two_env \<equiv> example_graph_env [''a'', ''b'', ''d''] (\<lambda>_. [])"

theorem reachability_follows_search_witness:
  "reachable (fst (check_reachability two_env two_nodes) ''b'') \<and> \<not> reachable (fst (check_reachability two_env two_nodes) ''d'')"
  using reachability_follows_search [of two_env "''b''" two_nodes] reachability_follows_search [of two_env "''d''" two_nodes]
  by (simp add: case_prod_beta example_graph_env_def)


theorem device_follows_reachability_witness:
  "device_after (snd (snd (check_reachability two_env two_nodes))) True =
   others_reachable two_env (fst (check_reachability two_env two_nodes))"
  using device_follows_reachability [of two_env True two_nodes]
  by (simp add: case_prod_beta example_graph_env_def others_reachable_def)

end
