(* ===== verification/EdgeTable.thy ===== *)
theory EdgeTable
  imports SplayTree Nodes
begin

text \<open>
  The edges of the mesh (\<open>edge.c\<close>): a tree of outgoing edges per node, one tree of all edges in the
  order of their weights, and a pointer from every edge to the edge in the opposite direction.

  An edge object is shared by two trees and pointed to by its reverse, so objects live in a store:
  an address is the pair of node names, of which at most one object is in the trees, and the
  trees hold addresses.  The comparison of the weight tree reads the weights from the store.
\<close>

type_synonym edge_id = "name \<times> name"

record edge_obj =
  eo_address :: sockaddr
  eo_local_address :: sockaddr
  eo_options :: u32
  eo_weight :: int
  eo_connection :: "name option"
  eo_reverse :: "edge_id option"

type_synonym edge_store = "edge_id \<rightharpoonup> edge_obj"

record edge_db =
  estore :: edge_store
  edge_tree :: "name \<Rightarrow> edge_id splay_tree"
  edge_weight_tree :: "edge_id splay_tree"

definition no_edges :: edge_db where
  "no_edges = \<lparr>estore = (\<lambda>_. None), edge_tree = (\<lambda>_. empty_tree), edge_weight_tree = empty_tree\<rparr>"

definition weight_at :: "edge_store \<Rightarrow> edge_id \<Rightarrow> int" where
  "weight_at h e = (case h e of None \<Rightarrow> 0 | Some x \<Rightarrow> eo_weight x)"

definition edge_weight_compare :: "edge_store \<Rightarrow> edge_id \<Rightarrow> edge_id \<Rightarrow> int" where
  "edge_weight_compare h a b =
     then_cmp (int_cmp (weight_at h a) (weight_at h b))
       (then_cmp (c_strcmp (fst a) (fst b)) (c_strcmp (snd a) (snd b)))"

definition edge_compare :: "edge_id \<Rightarrow> edge_id \<Rightarrow> int" where
  "edge_compare a b = c_strcmp (snd a) (snd b)"

definition lookup_edge :: "name \<Rightarrow> name \<Rightarrow> edge_db \<Rightarrow> edge_id option \<times> edge_db" where
  "lookup_edge a b db =
     (case splay_search edge_compare (a, b) (edge_tree db a) of
        (r, t) \<Rightarrow> (r, db\<lparr>edge_tree := (edge_tree db)(a := t)\<rparr>))"

definition set_reverse :: "edge_id \<Rightarrow> edge_id option \<Rightarrow> edge_store \<Rightarrow> edge_store" where
  "set_reverse e r h = h(e := map_option (\<lambda>x. x\<lparr>eo_reverse := r\<rparr>) (h e))"

definition edge_add :: "edge_id \<Rightarrow> edge_obj \<Rightarrow> edge_db \<Rightarrow> edge_db" where
  "edge_add e x db =
     (case splay_insert edge_compare e (edge_tree db (fst e)) of
        (False, t) \<Rightarrow> db\<lparr>edge_tree := (edge_tree db)(fst e := t)\<rparr>
      | (True, t) \<Rightarrow>
          let db = db\<lparr>edge_tree := (edge_tree db)(fst e := t), estore := (estore db)(e \<mapsto> x)\<rparr>;
              (r, db) = lookup_edge (snd e) (fst e) db;
              h = set_reverse e r (estore db);
              h = (case r of None \<Rightarrow> h | Some r' \<Rightarrow> set_reverse r' (Some e) h)
          in db\<lparr>estore := h, edge_weight_tree := snd (splay_insert (edge_weight_compare h) e (edge_weight_tree db))\<rparr>)"

definition edge_del :: "edge_id \<Rightarrow> edge_db \<Rightarrow> edge_db" where
  "edge_del e db =
     (let h = (case estore db e of None \<Rightarrow> estore db
               | Some x \<Rightarrow> (case eo_reverse x of None \<Rightarrow> estore db
                           | Some r \<Rightarrow> set_reverse r None (estore db)))
      in db\<lparr>edge_weight_tree := splay_delete (edge_weight_compare h) e (edge_weight_tree db),
            edge_tree := (edge_tree db)(fst e := splay_delete edge_compare e (edge_tree db (fst e))),
            estore := h(e := None)\<rparr>)"

text \<open>The change of a weight in \<open>add_edge_h\<close>: unlink, assign, insert again.\<close>

definition set_edge_weight :: "edge_id \<Rightarrow> int \<Rightarrow> edge_db \<Rightarrow> edge_db" where
  "set_edge_weight e w db =
     (let wt = snd (splay_unlink (edge_weight_compare (estore db)) e (edge_weight_tree db));
          h = (estore db)(e := map_option (\<lambda>x. x\<lparr>eo_weight := w\<rparr>) (estore db e))
      in db\<lparr>estore := h, edge_weight_tree := snd (splay_insert (edge_weight_compare h) e wt)\<rparr>)"

definition set_edge_data :: "edge_id \<Rightarrow> u32 \<Rightarrow> sockaddr \<Rightarrow> sockaddr \<Rightarrow> edge_db \<Rightarrow> edge_db" where
  "set_edge_data e opts addr local db =
     db\<lparr>estore := (estore db)(e := map_option
          (\<lambda>x. x\<lparr>eo_options := opts, eo_address := addr, eo_local_address := local\<rparr>) (estore db e))\<rparr>"

definition exit_edges :: "edge_db \<Rightarrow> edge_db" where
  "exit_edges db = db\<lparr>edge_weight_tree := splay_empty_tree (edge_weight_tree db)\<rparr>"

section \<open>The comparison functions\<close>

definition out_edges :: "name \<Rightarrow> edge_id set" where
  "out_edges a = {e. fst e = a}"

definition small_edges :: "edge_store \<Rightarrow> edge_id set" where
  "small_edges h = {e. weight_at h e \<in> small_int}"

lemma comparator_edge: "comparator edge_compare (out_edges a)"
  unfolding edge_compare_def by (rule comparator_inj [OF strcmp.comparator_axioms]) simp

lemma comparator_weight: "comparator (edge_weight_compare h) (small_edges h)"
  unfolding edge_weight_compare_def
  by (intro comparator_then comparator_inj [OF strcmp.comparator_axioms] comparator_inj [OF int_sub.comparator_axioms])
    (auto simp: small_edges_def)

interpretation out: comparator edge_compare "out_edges a" for a
  by (rule comparator_edge)

interpretation wt: comparator "edge_weight_compare h" "small_edges h" for h
  by (rule comparator_weight)

lemma edge_compare_0: "d \<in> out_edges a \<Longrightarrow> e \<in> out_edges a \<Longrightarrow> edge_compare d e = 0 \<longleftrightarrow> d = e"
  by (auto simp: edge_compare_def out_edges_def prod_eq_iff)

lemma edge_weight_compare_0:
  "d \<in> small_edges h \<Longrightarrow> e \<in> small_edges h \<Longrightarrow> edge_weight_compare h d e = 0 \<longleftrightarrow> d = e"
  by (cases d; cases e) (auto simp: edge_weight_compare_def then_cmp_def small_edges_def int_cmp_small split: if_splits)

section \<open>The invariant\<close>

text \<open>The trees of the nodes hold the edges \<open>S\<close>; so does the weight tree.\<close>

definition trees_ok :: "(name \<Rightarrow> edge_id splay_tree) \<Rightarrow> edge_id set \<Rightarrow> bool" where
  "trees_ok T S \<longleftrightarrow> (\<forall>a. splay_wf edge_compare (out_edges a) (T a)) \<and> (\<forall>e. e \<in> set (thread (T (fst e))) \<longleftrightarrow> e \<in> S)"

definition weights_ok :: "edge_store \<Rightarrow> edge_id splay_tree \<Rightarrow> edge_id set \<Rightarrow> bool" where
  "weights_ok h W S \<longleftrightarrow> splay_wf (edge_weight_compare h) (small_edges h) W \<and> set (thread W) = S"

definition reverse_in :: "edge_id set \<Rightarrow> edge_id \<Rightarrow> edge_id option" where
  "reverse_in S e = (if prod.swap e \<in> S then Some (prod.swap e) else None)"

definition reverse_ok :: "edge_store \<Rightarrow> bool" where
  "reverse_ok h \<longleftrightarrow> (\<forall>e x. h e = Some x \<longrightarrow> eo_reverse x = reverse_in (dom h) e)"

definition edges_ok :: "edge_db \<Rightarrow> bool" where
  "edges_ok db \<longleftrightarrow> trees_ok (edge_tree db) (dom (estore db)) \<and>
     weights_ok (estore db) (edge_weight_tree db) (dom (estore db)) \<and> reverse_ok (estore db)"

lemma no_edges_ok: "edges_ok no_edges"
  by (simp add: edges_ok_def no_edges_def trees_ok_def weights_ok_def reverse_ok_def splay_wf_empty)
    (simp add: empty_tree_def)

lemma ol_search_id:
  assumes "\<And>y. y \<in> set ys \<Longrightarrow> cmp x y = 0 \<longleftrightarrow> x = y"
  shows "ol_search cmp x ys = (if x \<in> set ys then Some x else None)"
  using assms by (induction ys) auto

lemma in_out_edges: "e \<in> out_edges (fst e)"
  by (simp add: out_edges_def)

lemma tree_search_id:
  assumes "splay_wf edge_compare (out_edges (fst e)) t"
  shows "ol_search edge_compare e (thread t) = (if e \<in> set (thread t) then Some e else None)"
  by (rule ol_search_id) (use out.splay.contents_subset [OF assms] in_out_edges edge_compare_0 in blast)

lemma trees_search:
  fixes e :: edge_id
  assumes "trees_ok T S"
  defines "r \<equiv> splay_search edge_compare e (T (fst e))"
  shows "fst r = (if e \<in> S then Some e else None)" "trees_ok (T(fst e := snd r)) S"
proof -
  have wf: "splay_wf edge_compare (out_edges (fst e)) (T (fst e))" and S: "e \<in> set (thread (T (fst e))) \<longleftrightarrow> e \<in> S"
    using assms(1) unfolding trees_ok_def by blast+
  show "fst r = (if e \<in> S then Some e else None)"
    unfolding r_def out.splay.search_result [OF wf in_out_edges] tree_search_id [OF wf] S ..
  show "trees_ok (T(fst e := snd r)) S"
    using assms(1) out.splay.search_valid [OF wf in_out_edges] out.splay.search_contents [OF wf in_out_edges]
    unfolding r_def by (simp add: trees_ok_def)
qed

lemma trees_insert:
  fixes e :: edge_id
  assumes "trees_ok T S"
  defines "r \<equiv> splay_insert edge_compare e (T (fst e))"
  shows "fst r \<longleftrightarrow> e \<notin> S" "trees_ok (T(fst e := snd r)) (insert e S)"
proof -
  have wf: "splay_wf edge_compare (out_edges (fst e)) (T (fst e))" and S: "e \<in> set (thread (T (fst e))) \<longleftrightarrow> e \<in> S"
    using assms(1) unfolding trees_ok_def by blast+
  show ins: "fst r \<longleftrightarrow> e \<notin> S"
    unfolding r_def out.splay.insert_result [OF wf in_out_edges] tree_search_id [OF wf] S by simp
  have set: "set (thread (snd r)) = insert e (set (thread (T (fst e))))"
  proof (cases "fst r")
    case True
    then have "ol_search edge_compare e (thread (T (fst e))) = None"
      unfolding r_def out.splay.insert_result [OF wf in_out_edges] .
    then show ?thesis
      using out.set_ol_insert [OF out.splay.contents_subset [OF wf] in_out_edges out.splay.contents_sorted [OF wf]]
      unfolding r_def out.splay.insert_contents [OF wf in_out_edges] by blast
  next
    case False
    with out.splay.insert_refused [OF wf in_out_edges] S ins show ?thesis unfolding r_def by auto
  qed
  show "trees_ok (T(fst e := snd r)) (insert e S)"
    using assms(1) set out.splay.insert_valid [OF wf in_out_edges] unfolding r_def by (auto simp: trees_ok_def)
qed

lemma trees_delete:
  assumes "trees_ok T S"
  shows "trees_ok (T(fst e := splay_delete edge_compare e (T (fst e)))) (S - {e})"
proof -
  have wf: "splay_wf edge_compare (out_edges (fst e)) (T (fst e))" using assms unfolding trees_ok_def by blast
  have "set (thread (splay_delete edge_compare e (T (fst e)))) = {y \<in> set (thread (T (fst e))). edge_compare e y \<noteq> 0}"
    using out.set_ol_delete [OF out.splay.contents_subset [OF wf] in_out_edges out.splay.contents_sorted [OF wf]]
    unfolding out.splay.delete_contents [OF wf in_out_edges] .
  moreover have "y \<in> set (thread (T (fst e))) \<Longrightarrow> edge_compare e y = 0 \<longleftrightarrow> e = y" for y
    using out.splay.contents_subset [OF wf] in_out_edges edge_compare_0 by blast
  ultimately have "set (thread (splay_delete edge_compare e (T (fst e)))) = set (thread (T (fst e))) - {e}" by auto
  then show ?thesis
    using assms out.splay.delete_valid [OF wf in_out_edges] by (auto simp: trees_ok_def)
qed

text \<open>The weight tree depends on the weights only, and on those of the edges it holds.\<close>

lemma weights_cong:
  assumes "weights_ok h W S" "\<And>e. e \<in> S \<Longrightarrow> weight_at h' e = weight_at h e"
  shows "weights_ok h' W S"
proof -
  have wf: "splay_wf (edge_weight_compare h) (small_edges h) W" and S: "set (thread W) = S"
    using assms(1) by (auto simp: weights_ok_def)
  have "ol_sorted (edge_weight_compare h') (thread W)"
    using wf assms(2) S unfolding splay_wf_def ol_sorted_def
    by (auto simp: edge_weight_compare_def intro: sorted_wrt_mono_rel [rotated])
  moreover have "set (thread W) \<subseteq> small_edges h'"
    using wt.splay.contents_subset [OF wf] assms(2) S by (auto simp: small_edges_def)
  ultimately show ?thesis using wf S by (simp add: weights_ok_def splay_wf_def)
qed

lemma weight_search_id:
  assumes "splay_wf (edge_weight_compare h) (small_edges h) W" "e \<in> small_edges h"
  shows "ol_search (edge_weight_compare h) e (thread W) = (if e \<in> set (thread W) then Some e else None)"
  by (rule ol_search_id) (use wt.splay.contents_subset [OF assms(1)] assms(2) edge_weight_compare_0 in blast)

lemma weights_insert:
  assumes "weights_ok h W S" "e \<notin> S" "e \<in> small_edges h"
  shows "weights_ok h (snd (splay_insert (edge_weight_compare h) e W)) (insert e S)"
proof -
  have wf: "splay_wf (edge_weight_compare h) (small_edges h) W" and S: "set (thread W) = S"
    using assms(1) by (auto simp: weights_ok_def)
  have "ol_search (edge_weight_compare h) e (thread W) = None"
    unfolding weight_search_id [OF wf assms(3)] using assms(2) S by simp
  from wt.set_ol_insert [OF wt.splay.contents_subset [OF wf] assms(3) wt.splay.contents_sorted [OF wf] this]
  show ?thesis
    using wt.splay.insert_valid [OF wf assms(3)] wt.splay.insert_contents [OF wf assms(3)] S by (simp add: weights_ok_def)
qed

lemma weights_delete:
  assumes "weights_ok h W S" "e \<in> small_edges h"
  shows "weights_ok h (splay_delete (edge_weight_compare h) e W) (S - {e})"
proof -
  have wf: "splay_wf (edge_weight_compare h) (small_edges h) W" and S: "set (thread W) = S"
    using assms(1) by (auto simp: weights_ok_def)
  have id: "y \<in> set (thread W) \<Longrightarrow> edge_weight_compare h e y = 0 \<longleftrightarrow> e = y" for y
    using wt.splay.contents_subset [OF wf] assms(2) edge_weight_compare_0 by blast
  have "set (thread (splay_delete (edge_weight_compare h) e W)) = S - {e}"
    using wt.set_ol_delete [OF wt.splay.contents_subset [OF wf] assms(2) wt.splay.contents_sorted [OF wf]] S id
    unfolding wt.splay.delete_contents [OF wf assms(2)] by auto
  then show ?thesis using wt.splay.delete_valid [OF wf assms(2)] by (simp add: weights_ok_def)
qed

lemma weights_member: "weights_ok h W S \<Longrightarrow> e \<in> S \<Longrightarrow> e \<in> small_edges h"
  using wt.splay.contents_subset by (auto simp: weights_ok_def)

lemma splay_unlink_delete: "snd (splay_unlink cmp x t) = splay_delete cmp x t"
  by (auto simp: splay_unlink_def splay_delete_def split: prod.splits option.splits)

section \<open>The operations keep it\<close>

lemma set_reverse_simps [simp]:
  "dom (set_reverse e r h) = dom h"
  "weight_at (set_reverse e r h) = weight_at h"
  by (auto simp: set_reverse_def weight_at_def fun_eq_iff split: option.splits)

lemma lookup_edge_ok:
  assumes "edges_ok db"
  shows "fst (lookup_edge a b db) = (if (a, b) \<in> dom (estore db) then Some (a, b) else None)"
    and "edges_ok (snd (lookup_edge a b db))" "estore (snd (lookup_edge a b db)) = estore db"
  using trees_search [of "edge_tree db" "dom (estore db)" "(a, b)"] assms
  by (simp_all add: lookup_edge_def edges_ok_def case_prod_beta)

text \<open>The reverse pointers are right again when an edge has come or gone.\<close>

lemma set_reverse_Some:
  "set_reverse e r h f = Some y \<longleftrightarrow> (\<exists>x. h f = Some x \<and> y = (if f = e then x\<lparr>eo_reverse := r\<rparr> else x))"
  by (auto simp: set_reverse_def)

lemma reverse_add:
  assumes "reverse_ok h" "e \<notin> dom h"
  shows "reverse_ok (case reverse_in (insert e (dom h)) e of
     None \<Rightarrow> set_reverse e None (h(e \<mapsto> x))
   | Some r \<Rightarrow> set_reverse r (Some e) (set_reverse e (Some r) (h(e \<mapsto> x))))" (is "reverse_ok ?h")
proof -
  have dom: "dom ?h = insert e (dom h)" by (auto simp: reverse_in_def)
  have "eo_reverse y = reverse_in (insert e (dom h)) f" if "?h f = Some y" for f y
  proof (cases "f = e")
    case True
    then show ?thesis
      using that by (auto simp: set_reverse_Some reverse_in_def split: if_splits)
  next
    case False
    show ?thesis
    proof (cases "f = prod.swap e")
      case True
      then have "f \<in> insert e (dom h)" using that dom by blast
      then have "reverse_in (insert e (dom h)) e = Some f" using True by (simp add: reverse_in_def)
      then show ?thesis using that False True by (auto simp: set_reverse_Some reverse_in_def)
    next
      case other: False
      then have "prod.swap f \<noteq> e" by auto
      then have same: "reverse_in (insert e (dom h)) f = reverse_in (dom h) f" by (simp add: reverse_in_def)
      have "h f = Some y"
        using that False other by (auto simp: set_reverse_Some reverse_in_def split: if_splits)
      then show ?thesis using assms(1) unfolding same reverse_ok_def by blast
    qed
  qed
  then show ?thesis unfolding reverse_ok_def dom by blast
qed

lemma reverse_del:
  assumes "reverse_ok h" "e \<in> dom h"
  shows "reverse_ok ((case reverse_in (dom h) e of None \<Rightarrow> h | Some r \<Rightarrow> set_reverse r None h)(e := None))"
    (is "reverse_ok (?h(e := None))")
proof -
  have dom: "dom (?h(e := None)) = dom h - {e}" by (auto simp: reverse_in_def)
  have "eo_reverse y = reverse_in (dom h - {e}) f" if "?h f = Some y" "f \<noteq> e" for f y
  proof (cases "f = prod.swap e")
    case True
    have "dom ?h = dom h" by (simp split: option.split)
    then have "f \<in> dom h" using that(1) by blast
    then have rev: "reverse_in (dom h) e = Some f" using True by (simp add: reverse_in_def)
    then have "eo_reverse y = None" using that(1) by (auto simp: set_reverse_Some)
    moreover have "reverse_in (dom h - {e}) f = None" using True by (simp add: reverse_in_def)
    ultimately show ?thesis by simp
  next
    case False
    then have "prod.swap f \<noteq> e" by auto
    then have same: "reverse_in (dom h - {e}) f = reverse_in (dom h) f" by (simp add: reverse_in_def)
    have "h f = Some y"
    proof (cases "reverse_in (dom h) e")
      case None
      with that(1) show ?thesis by simp
    next
      case (Some r)
      then have "r = prod.swap e" by (simp add: reverse_in_def split: if_splits)
      with Some that(1) False show ?thesis by (simp add: set_reverse_Some)
    qed
    then show ?thesis using assms(1) unfolding same reverse_ok_def by blast
  qed
  note rev = this
  show ?thesis
    unfolding reverse_ok_def dom
  proof (intro allI impI)
    fix f y assume "(?h(e := None)) f = Some y"
    then have "f \<noteq> e" "?h f = Some y" by (simp_all split: if_splits)
    then show "eo_reverse y = reverse_in (dom h - {e}) f" by (intro rev)
  qed
qed

text \<open>What the graph and the protocol see of the table: the edges and their data, reverse pointers aside.\<close>

definition strip :: "edge_store \<Rightarrow> edge_store" where
  "strip h = (\<lambda>e. map_option (\<lambda>x. x\<lparr>eo_reverse := None\<rparr>) (h e))"

lemma strip_simps [simp]:
  "strip (set_reverse e r h) = strip h"
  "strip (h(e \<mapsto> x)) = (strip h)(e \<mapsto> x\<lparr>eo_reverse := None\<rparr>)"
  "strip (h(e := None)) = (strip h)(e := None)"
  by (auto simp: strip_def set_reverse_def fun_eq_iff option.map_comp comp_def)

definition edge_data :: "edge_db \<Rightarrow> edge_store" where
  "edge_data db = strip (estore db)"

lemma edge_add_ok:
  assumes "edges_ok db" "eo_weight x \<in> small_int"
  shows "edges_ok (edge_add e x db) \<and>
    edge_data (edge_add e x db) = (if e \<in> dom (estore db) then edge_data db
      else (edge_data db)(e \<mapsto> x\<lparr>eo_reverse := None\<rparr>))"
proof -
  let ?h = "estore db"
  have ok: "trees_ok (edge_tree db) (dom ?h)" "weights_ok ?h (edge_weight_tree db) (dom ?h)" "reverse_ok ?h"
    using assms(1) by (simp_all add: edges_ok_def)
  obtain new t where ins: "splay_insert edge_compare e (edge_tree db (fst e)) = (new, t)"
    by (cases "splay_insert edge_compare e (edge_tree db (fst e))")
  have new: "new \<longleftrightarrow> e \<notin> dom ?h" and t: "trees_ok ((edge_tree db)(fst e := t)) (insert e (dom ?h))"
    using trees_insert [OF ok(1), of e] ins by simp_all
  show ?thesis
  proof (cases new)
    case False
    with new have "insert e (dom ?h) = dom ?h" by auto
    with False ok t new show ?thesis by (simp add: edge_add_def ins edges_ok_def edge_data_def fun_eq_iff)
  next
    case True
    let ?T = "(edge_tree db)(fst e := t)" and ?h1 = "?h(e \<mapsto> x)"
    obtain r t2 where r: "splay_search edge_compare (prod.swap e) (?T (snd e)) = (r, t2)"
      by (cases "splay_search edge_compare (prod.swap e) (?T (snd e))")
    have look: "r = reverse_in (insert e (dom ?h)) e" "trees_ok (?T(snd e := t2)) (insert e (dom ?h))"
      using trees_search [OF t, of "prod.swap e"] r by (simp_all add: reverse_in_def)
    define h2 where "h2 = (case r of None \<Rightarrow> set_reverse e None ?h1
      | Some r' \<Rightarrow> set_reverse r' (Some e) (set_reverse e (Some r') ?h1))"
    have eq: "edge_add e x db = db\<lparr>edge_tree := ?T(snd e := t2), estore := h2,
        edge_weight_tree := snd (splay_insert (edge_weight_compare h2) e (edge_weight_tree db))\<rparr>"
      using True r by (cases r) (simp_all add: edge_add_def ins lookup_edge_def Let_def h2_def prod.swap_def)
    have dom: "dom h2 = insert e (dom ?h)" by (auto simp: h2_def split: option.split)
    have w: "weight_at h2 = weight_at ?h1" by (simp add: h2_def split: option.split)
    have "weights_ok h2 (edge_weight_tree db) (dom ?h)"
      by (rule weights_cong [OF ok(2)]) (use True new in \<open>auto simp: w weight_at_def\<close>)
    moreover have "e \<in> small_edges h2" using assms(2) by (simp add: small_edges_def w weight_at_def)
    ultimately have W: "weights_ok h2 (snd (splay_insert (edge_weight_compare h2) e (edge_weight_tree db))) (insert e (dom ?h))"
      using True new by (intro weights_insert) auto
    have R: "reverse_ok h2" using reverse_add [OF ok(3), of e x] True new unfolding h2_def look(1) by simp
    have "edge_data (edge_add e x db) = (edge_data db)(e \<mapsto> x\<lparr>eo_reverse := None\<rparr>)"
      by (simp add: eq edge_data_def h2_def split: option.split)
    with W R look(2) new True show ?thesis by (simp add: eq edges_ok_def dom)
  qed
qed

lemma edge_del_ok:
  assumes "edges_ok db" "e \<in> dom (estore db)"
  shows "edges_ok (edge_del e db) \<and> edge_data (edge_del e db) = (edge_data db)(e := None)"
proof -
  let ?h = "estore db"
  have ok: "trees_ok (edge_tree db) (dom ?h)" "weights_ok ?h (edge_weight_tree db) (dom ?h)" "reverse_ok ?h"
    using assms(1) by (simp_all add: edges_ok_def)
  obtain x where x: "?h e = Some x" using assms(2) by auto
  then have rev: "eo_reverse x = reverse_in (dom ?h) e" using ok(3) unfolding reverse_ok_def by blast
  define h1 where "h1 = (case reverse_in (dom ?h) e of None \<Rightarrow> ?h | Some r \<Rightarrow> set_reverse r None ?h)"
  have w: "weight_at h1 = weight_at ?h" and dom: "dom h1 = dom ?h" by (simp_all add: h1_def split: option.split)
  have "weights_ok h1 (edge_weight_tree db) (dom ?h)" by (rule weights_cong [OF ok(2)]) (simp add: w)
  from weights_delete [OF this weights_member [OF this assms(2)]]
  have W: "weights_ok (h1(e := None)) (splay_delete (edge_weight_compare h1) e (edge_weight_tree db)) (dom ?h - {e})"
    by (rule weights_cong) (simp add: weight_at_def)
  have R: "reverse_ok (h1(e := None))" unfolding h1_def by (rule reverse_del [OF ok(3) assms(2)])
  have eq: "edge_del e db = db\<lparr>edge_weight_tree := splay_delete (edge_weight_compare h1) e (edge_weight_tree db),
      edge_tree := (edge_tree db)(fst e := splay_delete edge_compare e (edge_tree db (fst e))), estore := h1(e := None)\<rparr>"
    by (simp add: edge_del_def x rev h1_def Let_def)
  have "edge_data (edge_del e db) = (edge_data db)(e := None)"
    by (simp add: eq edge_data_def h1_def split: option.split)
  with W R trees_delete [OF ok(1), of e] dom show ?thesis by (simp add: eq edges_ok_def)
qed

lemma reverse_ok_update:
  assumes "reverse_ok h" "h e = Some x" "eo_reverse y = eo_reverse x"
  shows "reverse_ok (h(e \<mapsto> y))"
proof -
  have dom: "dom (h(e \<mapsto> y)) = dom h" using assms(2) by auto
  show ?thesis
    unfolding reverse_ok_def dom
  proof (intro allI impI)
    fix f z assume z: "(h(e \<mapsto> y)) f = Some z"
    show "eo_reverse z = reverse_in (dom h) f"
    proof (cases "f = e")
      case True
      with z assms(3) have "eo_reverse z = eo_reverse x" by simp
      with assms(1,2) True show ?thesis unfolding reverse_ok_def by metis
    next
      case False
      with z assms(1) show ?thesis unfolding reverse_ok_def by (metis fun_upd_other)
    qed
  qed
qed

lemma strip_update:
  assumes "h e = Some x" "(f x)\<lparr>eo_reverse := None\<rparr> = f (x\<lparr>eo_reverse := None\<rparr>)"
  shows "strip (h(e \<mapsto> f x)) = (strip h)(e := map_option f (strip h e))"
  using assms unfolding strip_simps(2) by (simp add: strip_def)

lemma set_edge_weight_ok:
  assumes "edges_ok db" "e \<in> dom (estore db)" "w \<in> small_int"
  shows "edges_ok (set_edge_weight e w db) \<and>
    edge_data (set_edge_weight e w db) = (edge_data db)(e := map_option (\<lambda>x. x\<lparr>eo_weight := w\<rparr>) (edge_data db e))"
proof -
  let ?h = "estore db"
  have ok: "trees_ok (edge_tree db) (dom ?h)" "weights_ok ?h (edge_weight_tree db) (dom ?h)" "reverse_ok ?h"
    using assms(1) by (simp_all add: edges_ok_def)
  obtain x where x: "?h e = Some x" using assms(2) by auto
  let ?h' = "?h(e \<mapsto> x\<lparr>eo_weight := w\<rparr>)"
  have dom: "dom ?h' = dom ?h" using assms(2) by auto
  let ?W = "splay_delete (edge_weight_compare ?h) e (edge_weight_tree db)"
  have "weights_ok ?h' ?W (dom ?h - {e})"
    by (rule weights_cong [OF weights_delete [OF ok(2) weights_member [OF ok(2) assms(2)]]]) (simp add: weight_at_def)
  moreover have "e \<in> small_edges ?h'" using assms(3) by (simp add: small_edges_def weight_at_def)
  ultimately have "weights_ok ?h' (snd (splay_insert (edge_weight_compare ?h') e ?W)) (insert e (dom ?h - {e}))"
    by (intro weights_insert) simp_all
  then have W: "weights_ok ?h' (snd (splay_insert (edge_weight_compare ?h') e ?W)) (dom ?h)"
    unfolding insert_Diff [OF assms(2)] .
  have R: "reverse_ok ?h'" by (rule reverse_ok_update [OF ok(3) x]) simp
  have "set_edge_weight e w db = db\<lparr>estore := ?h', edge_weight_tree := snd (splay_insert (edge_weight_compare ?h') e ?W)\<rparr>"
    by (simp add: set_edge_weight_def splay_unlink_delete x Let_def)
  moreover have "strip ?h' = (strip ?h)(e := map_option (\<lambda>x. x\<lparr>eo_weight := w\<rparr>) (strip ?h e))"
    by (rule strip_update [where h = "estore db", OF x]) (cases x, simp)
  ultimately show ?thesis using ok(1) W R dom by (simp add: edges_ok_def edge_data_def del: strip_simps)
qed

lemma set_edge_data_ok:
  assumes "edges_ok db" "e \<in> dom (estore db)"
  shows "edges_ok (set_edge_data e opts addr loc db) \<and>
    edge_data (set_edge_data e opts addr loc db) = (edge_data db)(e := map_option
      (\<lambda>x. x\<lparr>eo_options := opts, eo_address := addr, eo_local_address := loc\<rparr>) (edge_data db e))"
proof -
  let ?h = "estore db"
  have ok: "trees_ok (edge_tree db) (dom ?h)" "weights_ok ?h (edge_weight_tree db) (dom ?h)" "reverse_ok ?h"
    using assms(1) by (simp_all add: edges_ok_def)
  obtain x where x: "?h e = Some x" using assms(2) by auto
  let ?h' = "?h(e \<mapsto> x\<lparr>eo_options := opts, eo_address := addr, eo_local_address := loc\<rparr>)"
  have dom: "dom ?h' = dom ?h" using assms(2) by auto
  have W: "weights_ok ?h' (edge_weight_tree db) (dom ?h)"
    by (rule weights_cong [OF ok(2)]) (use x in \<open>simp add: weight_at_def\<close>)
  have R: "reverse_ok ?h'" by (rule reverse_ok_update [OF ok(3) x]) simp
  have "set_edge_data e opts addr loc db = db\<lparr>estore := ?h'\<rparr>" by (simp add: set_edge_data_def x)
  moreover have "strip ?h' = (strip ?h)(e := map_option (\<lambda>x. x\<lparr>eo_options := opts, eo_address := addr, eo_local_address := loc\<rparr>) (strip ?h e))"
    by (rule strip_update [where h = "estore db", OF x]) (cases x, simp)
  ultimately show ?thesis using ok(1) W R dom by (simp add: edges_ok_def edge_data_def del: strip_simps)
qed

section \<open>Runs\<close>

text \<open>The callers look an edge up before they delete or change it.\<close>

datatype edge_op =
  E_add edge_id edge_obj | E_del edge_id | E_lookup edge_id | E_weight edge_id int
| E_data edge_id u32 sockaddr sockaddr

definition with_edge :: "edge_id \<Rightarrow> (edge_id \<Rightarrow> edge_db \<Rightarrow> edge_db) \<Rightarrow> edge_db \<Rightarrow> edge_id option \<times> edge_db" where
  "with_edge e f db = (case lookup_edge (fst e) (snd e) db of
     (None, db) \<Rightarrow> (None, db) | (Some e', db) \<Rightarrow> (Some e', f e' db))"

fun edge_exec :: "edge_op \<Rightarrow> edge_db \<Rightarrow> edge_id option \<times> edge_db" where
  "edge_exec (E_add e x) db = (None, edge_add e x db)"
| "edge_exec (E_del e) db = with_edge e edge_del db"
| "edge_exec (E_lookup e) db = with_edge e (\<lambda>_ db. db) db"
| "edge_exec (E_weight e w) db = with_edge e (\<lambda>e. set_edge_weight e w) db"
| "edge_exec (E_data e opts a l) db = with_edge e (\<lambda>e. set_edge_data e opts a l) db"

definition found :: "edge_id \<Rightarrow> edge_store \<Rightarrow> edge_id option" where
  "found e m = (if e \<in> dom m then Some e else None)"

text \<open>The specification: a finite map, without trees and without pointers.\<close>

fun map_exec :: "edge_op \<Rightarrow> edge_store \<Rightarrow> edge_id option \<times> edge_store" where
  "map_exec (E_add e x) m = (None, if e \<in> dom m then m else m(e \<mapsto> x\<lparr>eo_reverse := None\<rparr>))"
| "map_exec (E_del e) m = (found e m, m(e := None))"
| "map_exec (E_lookup e) m = (found e m, m)"
| "map_exec (E_weight e w) m = (found e m, m(e := map_option (\<lambda>x. x\<lparr>eo_weight := w\<rparr>) (m e)))"
| "map_exec (E_data e opts a l) m = (found e m,
     m(e := map_option (\<lambda>x. x\<lparr>eo_options := opts, eo_address := a, eo_local_address := l\<rparr>) (m e)))"

fun edge_op_ok :: "edge_op \<Rightarrow> bool" where
  "edge_op_ok (E_add e x) \<longleftrightarrow> eo_weight x \<in> small_int"
| "edge_op_ok (E_weight e w) \<longleftrightarrow> w \<in> small_int"
| "edge_op_ok op \<longleftrightarrow> True"

lemma dom_edge_data [simp]: "dom (edge_data db) = dom (estore db)"
  by (auto simp: edge_data_def strip_def)

lemma with_edge_ok:
  assumes db: "edges_ok db"
    and f: "\<And>db. edges_ok db \<Longrightarrow> e \<in> dom (estore db) \<Longrightarrow> edges_ok (f e db) \<and> edge_data (f e db) = g (edge_data db)"
    and g: "\<And>m. e \<notin> dom m \<Longrightarrow> g m = m"
  shows "fst (with_edge e f db) = found e (edge_data db) \<and> edges_ok (snd (with_edge e f db)) \<and>
    edge_data (snd (with_edge e f db)) = g (edge_data db)"
proof -
  obtain r db' where r: "lookup_edge (fst e) (snd e) db = (r, db')" by (cases "lookup_edge (fst e) (snd e) db")
  with lookup_edge_ok [OF db, of "fst e" "snd e"]
  have "r = (if e \<in> dom (estore db) then Some e else None)" "edges_ok db'" "estore db' = estore db" by simp_all
  moreover from this(3) have "edge_data db' = edge_data db" by (simp add: edge_data_def)
  ultimately show ?thesis
    using f [of db'] g [of "edge_data db"] unfolding with_edge_def r found_def dom_edge_data by auto
qed

lemma edge_exec_refines:
  assumes "edges_ok db" "edge_op_ok op"
  shows "fst (edge_exec op db) = fst (map_exec op (edge_data db)) \<and> edges_ok (snd (edge_exec op db)) \<and>
    edge_data (snd (edge_exec op db)) = snd (map_exec op (edge_data db))"
proof (cases op)
  case (E_add e x)
  with assms edge_add_ok [of db x e] show ?thesis by simp
next
  case (E_del e)
  with with_edge_ok [OF assms(1), of e edge_del "\<lambda>m. m(e := None)"] edge_del_ok show ?thesis
    by (simp add: fun_upd_idem_iff domIff)
next
  case (E_lookup e)
  with with_edge_ok [OF assms(1), of e "\<lambda>_ db. db" "\<lambda>m. m"] show ?thesis by simp
next
  case (E_weight e w)
  with assms with_edge_ok [OF assms(1), of e "\<lambda>e. set_edge_weight e w"
      "\<lambda>m. m(e := map_option (\<lambda>x. x\<lparr>eo_weight := w\<rparr>) (m e))"] set_edge_weight_ok
  show ?thesis by (simp add: fun_upd_idem_iff domIff)
next
  case (E_data e opts a l)
  with with_edge_ok [OF assms(1), of e "\<lambda>e. set_edge_data e opts a l"
      "\<lambda>m. m(e := map_option (\<lambda>x. x\<lparr>eo_options := opts, eo_address := a, eo_local_address := l\<rparr>) (m e))"]
    set_edge_data_ok
  show ?thesis by (simp add: fun_upd_idem_iff domIff)
qed

lemma edge_run_refines:
  assumes "\<forall>op\<in>set ops. edge_op_ok op" "edges_ok db"
  shows "fst (run_ops edge_exec ops db) = fst (run_ops map_exec ops (edge_data db)) \<and>
    edges_ok (snd (run_ops edge_exec ops db)) \<and>
    edge_data (snd (run_ops edge_exec ops db)) = snd (run_ops map_exec ops (edge_data db))"
  by (rule run_ops_simulation [where R = "\<lambda>db m. edges_ok db \<and> edge_data db = m" and valid = edge_op_ok])
    (use assms edge_exec_refines in auto)

lemma edge_data_no_edges: "edge_data no_edges = (\<lambda>_. None)"
  by (simp add: edge_data_def no_edges_def strip_def)


text \<open>C28: In every state the table can reach, an edge points to a reverse exactly if the edge in the opposite
  direction exists; the reverse is that live edge, and points back.  So the \<open>e->reverse->reverse\<close> of
  \<open>edge_add\<close> and \<open>edge_del\<close> never touches a freed edge.\<close>

theorem edge_reverse_symmetric:
  assumes "\<forall>op\<in>set ops. edge_op_ok op"
  defines "h \<equiv> estore (snd (run_ops edge_exec ops no_edges))"
  assumes "h e = Some x"
  shows "case eo_reverse x of None \<Rightarrow> h (prod.swap e) = None
    | Some r \<Rightarrow> r = prod.swap e \<and> (\<exists>y. h r = Some y \<and> eo_reverse y = Some e)"
proof -
  have "reverse_ok h" using edge_run_refines [OF assms(1) no_edges_ok] unfolding h_def edges_ok_def by blast
  then have rev: "\<And>e x. h e = Some x \<Longrightarrow> eo_reverse x = reverse_in (dom h) e" unfolding reverse_ok_def by blast
  show ?thesis
  proof (cases "prod.swap e \<in> dom h")
    case True
    then obtain y where y: "h (prod.swap e) = Some y" by auto
    have "eo_reverse y = Some e" using rev [OF y] assms(3) by (auto simp: reverse_in_def)
    with rev [OF assms(3)] True y show ?thesis by (simp add: reverse_in_def)
  next
    case False
    with rev [OF assms(3)] show ?thesis by (simp add: reverse_in_def domIff)
  qed
qed

definition plain_edge :: "int \<Rightarrow> edge_obj" where
  "plain_edge w = \<lparr>eo_address = Addr_unspec, eo_local_address = Addr_unspec, eo_options = 0, eo_weight = w,
     eo_connection = None, eo_reverse = None\<rparr>"

abbreviation two_way :: "edge_op list" where
  "two_way \<equiv> [E_add (''a'', ''b'') (plain_edge 5), E_add (''b'', ''a'') (plain_edge 6), E_lookup (''a'', ''b'')]"

lemma two_way_ok: "\<forall>op\<in>set two_way. edge_op_ok op"
  by (simp add: plain_edge_def small_int_def)


theorem edge_reverse_symmetric_witness:
  "\<exists>x. estore (snd (run_ops edge_exec two_way no_edges)) (''a'', ''b'') = Some x \<and> eo_reverse x = Some (''b'', ''a'')"
proof -
  let ?db = "snd (run_ops edge_exec two_way no_edges)"
  have "dom (edge_data ?db) = {(''a'', ''b''), (''b'', ''a'')}"
    using edge_run_refines [OF two_way_ok no_edges_ok] by (auto simp: edge_data_no_edges)
  then obtain x y where "estore ?db (''a'', ''b'') = Some x" "estore ?db (''b'', ''a'') = Some y"
    unfolding dom_edge_data by (metis (no_types, lifting) domD insertCI)
  then show ?thesis
    using edge_reverse_symmetric [OF two_way_ok, of "(''a'', ''b'')" x] by (simp split: option.splits)
qed

end
