(* ===== verification/Utils.thy ===== *)
theory Utils
  imports TincPrelude
begin

text \<open>
  The encodings and checks of \<open>utils.c\<close>: hexadecimal, tinc's base64 (little-endian groups, no
  padding, two alphabets read by one table), identifiers and network names, comparison in constant
  time.  Strings are lists of characters without the terminating NUL.

  The decoding table of base64 is an array of \<open>char\<close> with \<open>-1\<close> for characters outside the alphabets;
  whether \<open>char\<close> is signed depends on the platform, and is the parameter \<open>signed_char\<close>.
\<close>

unbundle bit_operations_syntax

definition char_code :: "char \<Rightarrow> nat" where
  "char_code c = of_char c"

definition c_isdigit :: "char \<Rightarrow> bool" where
  "c_isdigit c \<longleftrightarrow> 48 \<le> char_code c \<and> char_code c \<le> 57"

definition c_isupper :: "char \<Rightarrow> bool" where
  "c_isupper c \<longleftrightarrow> 65 \<le> char_code c \<and> char_code c \<le> 90"

definition c_islower :: "char \<Rightarrow> bool" where
  "c_islower c \<longleftrightarrow> 97 \<le> char_code c \<and> char_code c \<le> 122"

definition c_isalnum :: "char \<Rightarrow> bool" where
  "c_isalnum c \<longleftrightarrow> c_isdigit c \<or> c_isupper c \<or> c_islower c"

definition c_isxdigit :: "char \<Rightarrow> bool" where
  "c_isxdigit c \<longleftrightarrow> c_isdigit c \<or> 65 \<le> char_code c \<and> char_code c \<le> 70 \<or> 97 \<le> char_code c \<and> char_code c \<le> 102"

definition c_iscntrl :: "char \<Rightarrow> bool" where
  "c_iscntrl c \<longleftrightarrow> char_code c < 32 \<or> char_code c = 127"

definition c_toupper :: "char \<Rightarrow> nat" where
  "c_toupper c = (if c_islower c then char_code c - 32 else char_code c)"

section \<open>Hexadecimal\<close>

definition hexadecimals :: string where
  "hexadecimals = ''0123456789ABCDEF''"

definition charhex2bin :: "char \<Rightarrow> u8" where
  "charhex2bin c =
     (if c_isdigit c then word_of_nat (char_code c) - 48 else word_of_nat (c_toupper c) - 65 + 10)"

text \<open>Reads at most \<open>n\<close> bytes; the result of the C function is the length of the list.\<close>

fun hex2bin :: "string \<Rightarrow> nat \<Rightarrow> bytes" where
  "hex2bin (c # d # cs) (Suc n) =
     (if c_isxdigit c \<and> c_isxdigit d then (charhex2bin c * 16 + charhex2bin d) # hex2bin cs n else [])"
| "hex2bin cs n = []"

definition byte_hex :: "u8 \<Rightarrow> string" where
  "byte_hex b = [hexadecimals ! unat (drop_bit 4 b), hexadecimals ! unat (b AND 15)]"

definition bin2hex :: "bytes \<Rightarrow> string" where
  "bin2hex bs = concat (map byte_hex bs)"

section \<open>Base64\<close>

definition base64_common :: string where
  "base64_common = ''ABCDEFGHIJKLMNOPQRSTUVWXYZabcdefghijklmnopqrstuvwxyz0123456789''"

definition base64_original :: string where
  "base64_original = base64_common @ ''+/''"

definition base64_urlsafe :: string where
  "base64_urlsafe = base64_common @ ''-_''"

definition base64_decode :: "char \<Rightarrow> int" where
  "base64_decode c =
     (if c_isupper c then int (char_code c) - 65
      else if c_islower c then int (char_code c) - 97 + 26
      else if c_isdigit c then int (char_code c) - 48 + 52
      else if c = CHR ''+'' \<or> c = CHR ''-'' then 62
      else if c = CHR ''/'' \<or> c = CHR ''_'' then 63
      else -1)"

text \<open>The table entry as a \<open>uint32_t\<close>, after the promotion of \<open>char\<close> to \<open>int\<close>.\<close>

definition table_entry :: "bool \<Rightarrow> char \<Rightarrow> u32" where
  "table_entry signed_char c =
     (if signed_char then word_of_int (base64_decode c) else word_of_int (base64_decode c mod 256))"

definition triplet_bytes :: "u32 \<Rightarrow> bytes" where
  "triplet_bytes t = [ucast t, ucast (drop_bit 8 t), ucast (drop_bit 16 t)]"

text \<open>\<open>i\<close> characters have been read; \<open>None\<close> stands for the returns of 0 on a bad group.\<close>

fun b64decode_loop :: "bool \<Rightarrow> string \<Rightarrow> nat \<Rightarrow> u32 \<Rightarrow> bytes \<Rightarrow> bytes option" where
  "b64decode_loop sc [] i triplet dst =
     (if triplet AND 0xff000000 \<noteq> 0 then None
      else if i mod 4 = 3 then Some (dst @ take 2 (triplet_bytes triplet))
      else if i mod 4 = 2 then Some (dst @ take 1 (triplet_bytes triplet))
      else Some dst)"
| "b64decode_loop sc (c # cs) i triplet dst =
     (let triplet = triplet OR push_bit (6 * (i mod 4)) (table_entry sc c)
      in if i mod 4 = 3
         then if triplet AND 0xff000000 \<noteq> 0 then None
              else b64decode_loop sc cs (Suc i) 0 (dst @ triplet_bytes triplet)
         else b64decode_loop sc cs (Suc i) triplet dst)"

definition b64decode_tinc :: "bool \<Rightarrow> string \<Rightarrow> nat \<Rightarrow> bytes option" where
  "b64decode_tinc sc src n = b64decode_loop sc (take n src) 0 0 []"

definition b64_group :: "string \<Rightarrow> nat \<Rightarrow> u32 \<Rightarrow> string" where
  "b64_group alphabet n triplet = map (\<lambda>k. alphabet ! unat (drop_bit (6 * k) triplet AND 63)) [0..<n]"

fun b64encode_tinc_internal :: "string \<Rightarrow> bytes \<Rightarrow> string" where
  "b64encode_tinc_internal alphabet (a # b # c # src) =
     b64_group alphabet 4 (ucast a OR push_bit 8 (ucast b) OR push_bit 16 (ucast c)) @
     b64encode_tinc_internal alphabet src"
| "b64encode_tinc_internal alphabet [a, b] = b64_group alphabet 3 (ucast a OR push_bit 8 (ucast b))"
| "b64encode_tinc_internal alphabet [a] = b64_group alphabet 2 (ucast a)"
| "b64encode_tinc_internal alphabet [] = []"

definition b64encode_tinc :: "bytes \<Rightarrow> string" where
  "b64encode_tinc src = b64encode_tinc_internal base64_original src"

definition b64encode_tinc_urlsafe :: "bytes \<Rightarrow> string" where
  "b64encode_tinc_urlsafe src = b64encode_tinc_internal base64_urlsafe src"

section \<open>Checks\<close>

definition check_id :: "string \<Rightarrow> bool" where
  "check_id s \<longleftrightarrow> s \<noteq> [] \<and> list_all (\<lambda>c. c_isalnum c \<or> c = CHR ''_'') s"

definition check_netname :: "string \<Rightarrow> bool \<Rightarrow> bool" where
  "check_netname s strict \<longleftrightarrow> s \<noteq> [] \<and> hd s \<noteq> CHR ''.'' \<and>
     list_all (\<lambda>c. \<not> c_iscntrl c \<and> c \<noteq> CHR ''/'' \<and> char_code c \<noteq> 92 \<and>
       \<not> (strict \<and> c \<in> set (CHR 0x22 # CHR 0x60 # '' $%<>:|?*''))) s"

definition string_eq :: "string option \<Rightarrow> string option \<Rightarrow> bool" where
  "string_eq first second \<longleftrightarrow> (first = None) = (second = None) \<and>
     (case (first, second) of (Some a, Some b) \<Rightarrow> c_strcmp a b = 0 | _ \<Rightarrow> True)"

definition mem_eq :: "bytes \<Rightarrow> bytes \<Rightarrow> nat \<Rightarrow> bool" where
  "mem_eq p1 p2 n \<longleftrightarrow> fold (\<lambda>i diff. diff OR (p1 ! i XOR p2 ! i)) [0..<n] 0 = 0"

section \<open>Properties\<close>

lemma or_eq_0_iff: "x OR y = 0 \<longleftrightarrow> x = 0 \<and> y = 0" for x y :: "'a::len word"
  by (auto simp: bit_eq_iff bit_simps)

lemma xor_eq_0_iff: "x XOR y = 0 \<longleftrightarrow> x = y" for x y :: "'a::len word"
  by (auto simp: bit_eq_iff bit_simps)

lemma fold_or_eq_0: "fold (\<lambda>i d. d OR f i) xs d = 0 \<longleftrightarrow> d = 0 \<and> (\<forall>i\<in>set xs. f i = 0)" for d :: u8
  by (induction xs arbitrary: d) (auto simp: or_eq_0_iff)

text \<open>C31: \<open>mem_eq\<close> compares exactly: although it always reads all \<open>n\<close> bytes, it holds if and only if the
  first \<open>n\<close> bytes agree.\<close>

theorem mem_eq_correct:
  assumes "n \<le> length p1" "n \<le> length p2"
  shows "mem_eq p1 p2 n \<longleftrightarrow> take n p1 = take n p2"
  using assms by (auto simp: mem_eq_def fold_or_eq_0 xor_eq_0_iff list_eq_iff_nth_eq)

theorem mem_eq_correct_witness: "mem_eq [1, 2, 3] [1, 2, 4] 2 \<and> \<not> mem_eq [1, 2, 3] [1, 2, 4] 3"
  using mem_eq_correct [of 2 "[1, 2, 3]" "[1, 2, 4]"] mem_eq_correct [of 3 "[1, 2, 3]" "[1, 2, 4]"] by simp

subsection \<open>Base64\<close>

lemma mask_numerals: "(63 :: u32) = mask 6" "(15 :: u8) = mask 4" "(0xff000000 :: u32) = NOT (mask 24)"
  by (simp_all add: mask_eq_exp_minus_1 not_eq_complement)

lemma join_step: "take_bit m t OR push_bit m (take_bit k (drop_bit m t)) = take_bit (m + k) t" for t :: u32
  by (rule bit_word_eqI) (auto simp: bit_simps)

lemma high_zero: "t AND 0xff000000 = 0 \<longleftrightarrow> take_bit 24 t = t" for t :: u32
  unfolding mask_numerals by (auto simp: bit_eq_iff bit_simps)

definition digit :: "nat \<Rightarrow> u32 \<Rightarrow> u32" where
  "digit k t = drop_bit (6 * k) t AND 63"

lemma digit_take_bit: "digit k t = take_bit 6 (drop_bit (6 * k) t)"
  by (simp add: digit_def mask_numerals take_bit_eq_mask)

lemma digit_less: "unat (digit k t) < 64"
  unfolding digit_take_bit unsigned_take_bit_eq using take_bit_nat_less_exp [of 6] by simp

text \<open>An alphabet is read back by the table.\<close>

definition alphabet_ok :: "string \<Rightarrow> bool" where
  "alphabet_ok alphabet \<longleftrightarrow> (\<forall>n<64. base64_decode (alphabet ! n) = int n)"

lemma alphabets_ok: "alphabet_ok base64_original" "alphabet_ok base64_urlsafe"
proof -
  have "\<forall>n\<in>set [0..<64]. base64_decode (base64_original ! n) = int n \<and> base64_decode (base64_urlsafe ! n) = int n"
    by code_simp
  then show "alphabet_ok base64_original" "alphabet_ok base64_urlsafe" by (auto simp: alphabet_ok_def)
qed

lemma table_entry_alphabet:
  assumes "alphabet_ok alphabet"
  shows "table_entry sc (alphabet ! unat (digit k t)) = digit k t"
proof -
  have "base64_decode (alphabet ! unat (digit k t)) = int (unat (digit k t))"
    using assms digit_less [of k t] by (simp add: alphabet_ok_def)
  moreover have nat: "int (unat (digit k t)) = uint (digit k t)" by simp
  moreover have "uint (digit k t) mod 256 = uint (digit k t)"
    by (rule mod_pos_pos_trivial) (use digit_less [of k t] nat in linarith)+
  ultimately show ?thesis by (simp add: table_entry_def)
qed

lemma b64_group_digits: "b64_group alphabet n t = map (\<lambda>k. alphabet ! unat (digit k t)) [0..<n]"
  by (simp add: b64_group_def digit_def)

lemma digits_join:
  "digit 0 t OR push_bit 6 (digit 1 t) = take_bit 12 t"
  "take_bit 12 t OR push_bit 12 (digit 2 t) = take_bit 18 t"
  "take_bit 18 t OR push_bit 18 (digit 3 t) = take_bit 24 t"
  using join_step [of 6 t 6] join_step [of 12 t 6] join_step [of 18 t 6] by (simp_all add: digit_take_bit)

lemma decode_four:
  fixes sc :: bool and c d e f :: char
  assumes "i mod 4 = 0"
  defines "t \<equiv> ((table_entry sc c OR push_bit 6 (table_entry sc d)) OR push_bit 12 (table_entry sc e)) OR
    push_bit 18 (table_entry sc f)"
  shows "b64decode_loop sc (c # d # e # f # cs) i 0 dst =
    (if t AND 0xff000000 \<noteq> 0 then None else b64decode_loop sc cs (i + 4) 0 (dst @ triplet_bytes t))"
proof -
  have i: "i mod 4 = 0" "Suc i mod 4 = 1" "Suc (Suc i) mod 4 = 2" "Suc (Suc (Suc i)) mod 4 = 3"
    using assms(1) by presburger+
  have four: "i + 4 = Suc (Suc (Suc (Suc i)))" by simp
  show ?thesis unfolding t_def four b64decode_loop.simps Let_def i by (simp del: b64decode_loop.simps)
qed

lemma b64_groups:
  "b64_group alphabet 4 t = [alphabet ! unat (digit 0 t), alphabet ! unat (digit 1 t),
     alphabet ! unat (digit 2 t), alphabet ! unat (digit 3 t)]"
  "b64_group alphabet 3 t = [alphabet ! unat (digit 0 t), alphabet ! unat (digit 1 t), alphabet ! unat (digit 2 t)]"
  "b64_group alphabet 2 t = [alphabet ! unat (digit 0 t), alphabet ! unat (digit 1 t)]"
  unfolding b64_group_digits by (simp_all add: upt_conv_Cons numeral_2_eq_2 numeral_3_eq_3)

lemma decode_group4:
  assumes "alphabet_ok alphabet" "take_bit 24 t = t" "i mod 4 = 0"
  shows "b64decode_loop sc (b64_group alphabet 4 t @ cs) i 0 dst =
    b64decode_loop sc cs (i + 4) 0 (dst @ triplet_bytes t)"
  using assms(2) unfolding b64_groups append.simps decode_four [OF assms(3)] table_entry_alphabet [OF assms(1)] digits_join
  by (simp add: high_zero)

lemma decode_tail:
  assumes "alphabet_ok alphabet" "i mod 4 = 0"
  shows "take_bit 18 t = t \<Longrightarrow> b64decode_loop sc (b64_group alphabet 3 t) i 0 dst = Some (dst @ take 2 (triplet_bytes t))"
    and "take_bit 12 t = t \<Longrightarrow> b64decode_loop sc (b64_group alphabet 2 t) i 0 dst = Some (dst @ take 1 (triplet_bytes t))"
proof -
  have i: "i mod 4 = 0" "Suc i mod 4 = 1" "Suc (Suc i) mod 4 = 2" "Suc (Suc (Suc i)) mod 4 = 3"
    using assms(2) by presburger+
  have high: "take_bit n t = t \<Longrightarrow> n \<le> 24 \<Longrightarrow> t AND 0xff000000 = 0" for n
    unfolding high_zero by (metis min.absorb2 take_bit_take_bit)
  note steps = b64_groups b64decode_loop.simps Let_def i table_entry_alphabet [OF assms(1)]
  show "b64decode_loop sc (b64_group alphabet 3 t) i 0 dst = Some (dst @ take 2 (triplet_bytes t))" if "take_bit 18 t = t"
    using that high [OF that] digits_join(1,2) [of t] unfolding steps by simp
  show "b64decode_loop sc (b64_group alphabet 2 t) i 0 dst = Some (dst @ take 1 (triplet_bytes t))" if "take_bit 12 t = t"
    using that high [OF that] digits_join(1) [of t] unfolding steps by simp
qed

lemma bit_u8: "bit w n \<Longrightarrow> n < 8" for w :: u8
  using bit_imp_le_length [of w n] by simp

lemma triplet_join:
  "take_bit 24 (ucast a OR push_bit 8 (ucast b) OR push_bit 16 (ucast c)) =
     (ucast a OR push_bit 8 (ucast b) OR push_bit 16 (ucast c) :: u32)"
  "take_bit 18 (ucast a OR push_bit 8 (ucast b)) = (ucast a OR push_bit 8 (ucast b) :: u32)"
  "take_bit 12 (ucast a) = (ucast a :: u32)" for a b c :: u8
  by (rule bit_word_eqI; force simp: bit_simps dest: bit_u8)+

lemma triplet_split:
  "triplet_bytes (ucast a OR push_bit 8 (ucast b) OR push_bit 16 (ucast c)) = [a, b, c]"
  "take 2 (triplet_bytes (ucast a OR push_bit 8 (ucast b))) = [a, b]"
  "take 1 (triplet_bytes (ucast a)) = [a]" for a b c :: u8
  unfolding triplet_bytes_def
  by (simp; intro conjI bit_word_eqI; force simp: bit_simps dest: bit_u8)+

lemma b64decode_encode:
  "alphabet_ok alphabet \<Longrightarrow> i mod 4 = 0 \<Longrightarrow>
   b64decode_loop sc (b64encode_tinc_internal alphabet src) i 0 dst = Some (dst @ src)"
proof (induction alphabet src arbitrary: i dst rule: b64encode_tinc_internal.induct)
  case (1 alphabet a b c src)
  have "b64decode_loop sc (b64encode_tinc_internal alphabet (a # b # c # src)) i 0 dst =
      b64decode_loop sc (b64encode_tinc_internal alphabet src) (i + 4) 0 (dst @ [a, b, c])"
    unfolding b64encode_tinc_internal.simps decode_group4 [OF "1.prems"(1) triplet_join(1) "1.prems"(2)] triplet_split ..
  with 1 show ?case by simp
next
  case (2 alphabet a b)
  show ?case
    unfolding b64encode_tinc_internal.simps decode_tail(1) [OF 2 triplet_join(2)] triplet_split ..
next
  case (3 alphabet a)
  show ?case
    unfolding b64encode_tinc_internal.simps decode_tail(2) [OF 3 triplet_join(3)] triplet_split ..
qed simp

lemma length_b64_group [simp]: "length (b64_group alphabet n t) = n"
  by (simp add: b64_group_def)

lemma length_b64encode:
  "length (b64encode_tinc_internal alphabet src) =
     length src div 3 * 4 + (if length src mod 3 = 0 then 0 else length src mod 3 + 1)"
proof (induction alphabet src rule: b64encode_tinc_internal.induct)
  case (1 alphabet a b c src)
  have "Suc (Suc (Suc (length src))) = 3 + length src" by simp
  then have "Suc (Suc (Suc (length src))) div 3 = Suc (length src div 3)"
    "Suc (Suc (Suc (length src))) mod 3 = length src mod 3" by simp_all
  then show ?case using 1 by (simp only: b64encode_tinc_internal.simps length_append length_b64_group list.size) simp
qed auto

text \<open>C29: Base64 encoding, in either alphabet, makes four characters of three bytes without padding, and
  decoding gives the bytes back, whatever the signedness of \<open>char\<close>.\<close>

theorem b64_roundtrip:
  assumes "length src div 3 * 4 + (if length src mod 3 = 0 then 0 else length src mod 3 + 1) \<le> n"
  shows "b64decode_tinc sc (b64encode_tinc src) n = Some src \<and> b64decode_tinc sc (b64encode_tinc_urlsafe src) n = Some src"
  using assms b64decode_encode [of _ 0 sc src "[]"] alphabets_ok
  by (simp add: b64decode_tinc_def b64encode_tinc_def b64encode_tinc_urlsafe_def length_b64encode del: b64decode_loop.simps)

theorem b64_roundtrip_witness: "b64decode_tinc True (b64encode_tinc [1, 2, 255, 4]) 6 = Some [1, 2, 255, 4]"
  using b64_roundtrip [of "[1, 2, 255, 4]" 6 True] by simp

lemma high_or: "t AND 0xff000000 \<noteq> 0 \<Longrightarrow> (t OR x) AND 0xff000000 \<noteq> 0" for t x :: u32
  by (metis bit.conj_disj_distrib2 or_eq_0_iff)

lemma b64decode_stuck: "t AND 0xff000000 \<noteq> 0 \<Longrightarrow> b64decode_loop sc cs i t dst = None"
proof (induction cs arbitrary: i t)
  case (Cons c cs)
  then show ?case using high_or [OF Cons.prems] by (simp add: Let_def)
qed simp

lemma bad_character:
  fixes t :: u32
  assumes "base64_decode c = -1" "k < 4"
  shows "(t OR push_bit (6 * k) (table_entry True c)) AND 0xff000000 \<noteq> 0"
proof -
  have "bit ((t OR push_bit (6 * k) (table_entry True c)) AND 0xff000000) 31"
    using assms by (auto simp: table_entry_def mask_numerals bit_simps)
  then show ?thesis by auto
qed

lemma b64decode_bad:
  "b64decode_loop True cs i t dst = Some bs \<Longrightarrow> c \<in> set cs \<Longrightarrow> base64_decode c \<noteq> -1"
proof (induction cs arbitrary: i t dst)
  case (Cons d cs)
  have "base64_decode d \<noteq> -1"
    using Cons.prems(1) bad_character [of d "i mod 4" t] b64decode_stuck
    by (auto simp: Let_def split: if_splits)
  moreover have "c \<in> set cs \<Longrightarrow> base64_decode c \<noteq> -1"
    using Cons.prems(1) Cons.IH by (auto simp: Let_def split: if_splits)
  ultimately show ?case using Cons.prems(2) by auto
qed simp

text \<open>Where \<open>char\<close> is signed, \<open>b64decode_tinc\<close> accepts only strings of the characters of the two
  alphabets.\<close>

lemma b64decode_rejects:
  assumes "b64decode_tinc True src n = Some bs" "c \<in> set (take n src)"
  shows "c_isalnum c \<or> c \<in> set ''+/-_''"
proof -
  have "base64_decode c \<noteq> -1" using b64decode_bad assms unfolding b64decode_tinc_def by blast
  then show ?thesis by (auto simp: base64_decode_def c_isalnum_def split: if_splits)
qed


subsection \<open>Hexadecimal\<close>

lemma hex_digits:
  "n < 16 \<Longrightarrow> c_isxdigit (hexadecimals ! n) \<and> charhex2bin (hexadecimals ! n) = word_of_nat n"
proof -
  have "\<forall>n\<in>set [0..<16]. c_isxdigit (hexadecimals ! n) \<and> charhex2bin (hexadecimals ! n) = word_of_nat n"
    by code_simp
  then show "n < 16 \<Longrightarrow> ?thesis" by simp
qed

lemma u8_less: "unat b < 256" for b :: u8
  using unsigned_less [of b] by simp

lemma nibbles: "unat (drop_bit 4 b) < 16" "unat (b AND 15) < 16"
  "drop_bit 4 b * 16 + (b AND 15) = b" for b :: u8
proof -
  have "unat (drop_bit 4 b) = unat b div 16"
    unfolding unsigned_drop_bit_eq take_bit_nat_eq_self [OF unsigned_less] unfolding drop_bit_eq_div by simp
  then show "unat (drop_bit 4 b) < 16" using u8_less [of b] by simp
  show "unat (b AND 15) < 16"
    unfolding mask_numerals take_bit_eq_mask [symmetric] unsigned_take_bit_eq using take_bit_nat_less_exp [of 4] by simp
  have "drop_bit 4 b * 16 = push_bit 4 (drop_bit 4 b)" by (simp add: push_bit_eq_mult)
  moreover have "b AND 15 = take_bit 4 b" by (simp add: mask_numerals take_bit_eq_mask)
  ultimately show "drop_bit 4 b * 16 + (b AND 15) = b" by (simp add: bits_ident)
qed

lemma byte_hex_read:
  "\<exists>c d. byte_hex b = [c, d] \<and> c_isxdigit c \<and> c_isxdigit d \<and> charhex2bin c * 16 + charhex2bin d = b"
  using hex_digits [OF nibbles(1)] hex_digits [OF nibbles(2)] nibbles(3) [of b] by (simp add: byte_hex_def)

text \<open>\<open>hex2bin\<close> reads back what \<open>bin2hex\<close> writes.\<close>

lemma hex_roundtrip:
  assumes "length bs \<le> n"
  shows "hex2bin (bin2hex bs) n = bs"
  using assms
proof (induction bs arbitrary: n)
  case (Cons b bs)
  then obtain m where "n = Suc m" "length bs \<le> m" by (cases n) auto
  with Cons.IH byte_hex_read [of b] show ?case by (auto simp: bin2hex_def)
qed (simp add: bin2hex_def)

end
