(* ===== verification/Wire.thy ===== *)
theory Wire
  imports NetAddr Utils
begin

text \<open>
  Text requests: the conversions of \<open>printf\<close> and \<open>sscanf\<close> the daemon uses in its meta protocol, in the
  C locale and with the conversions of glibc where C leaves the result open (numbers that do not fit).

  A format of \<open>sscanf\<close> is a list of conversions; white space in it is left out, since every conversion
  but a literal skips white space itself.  The result is the list of assigned values and the rest of
  the input, of which \<open>%n\<close> gives the position.
\<close>

datatype conv = Skip_dec | Skip_hex | Take_dec | Take_hex | Take_str nat | Lit char

datatype scanned = Got_dec int | Got_hex u64 | Got_str string

section \<open>Numbers\<close>

definition digit_char :: "nat \<Rightarrow> char" where
  "digit_char n = ''0123456789abcdef'' ! n"

fun show_nat :: "nat \<Rightarrow> nat \<Rightarrow> string" where
  "show_nat b n = (if n < b \<or> b < 2 then [digit_char n] else show_nat b (n div b) @ [digit_char (n mod b)])"

declare show_nat.simps [simp del]

definition show_dec :: "int \<Rightarrow> string" where
  "show_dec i = (if i < 0 then CHR ''-'' # show_nat 10 (nat (- i)) else show_nat 10 (nat i))"

definition show_hex :: "nat \<Rightarrow> string" where
  "show_hex n = show_nat 16 n"

definition digit_of :: "char \<Rightarrow> nat option" where
  "digit_of c =
     (if c_isdigit c then Some (char_code c - 48)
      else if 97 \<le> char_code c \<and> char_code c \<le> 102 then Some (char_code c - 87)
      else if 65 \<le> char_code c \<and> char_code c \<le> 70 then Some (char_code c - 55)
      else None)"

definition is_digit_of :: "nat \<Rightarrow> char \<Rightarrow> bool" where
  "is_digit_of b c = (case digit_of c of None \<Rightarrow> False | Some d \<Rightarrow> d < b)"

fun read_nat :: "nat \<Rightarrow> nat \<Rightarrow> string \<Rightarrow> nat \<times> string" where
  "read_nat b acc [] = (acc, [])"
| "read_nat b acc (c # cs) =
     (if is_digit_of b c then read_nat b (acc * b + the (digit_of c)) cs else (acc, c # cs))"

text \<open>\<open>strtol\<close> and \<open>strtoul\<close>: white space, a sign, \<open>0x\<close> in base 16, at least one digit.\<close>

fun split_sign :: "string \<Rightarrow> bool \<times> string" where
  "split_sign (c # cs) = (if c = CHR ''-'' then (True, cs) else if c = CHR ''+'' then (False, cs) else (False, c # cs))"
| "split_sign [] = (False, [])"

definition drop_0x :: "string \<Rightarrow> string" where
  "drop_0x s = (if take 2 s = ''0x'' \<or> take 2 s = ''0X'' then drop 2 s else s)"

definition scan_number :: "nat \<Rightarrow> string \<Rightarrow> (bool \<times> nat \<times> string) option" where
  "scan_number b s =
     (case split_sign (dropWhile is_space s) of (neg, t) \<Rightarrow>
        let t = (if b = 16 then drop_0x t else t)
        in if t \<noteq> [] \<and> is_digit_of b (hd t)
           then case read_nat b 0 t of (v, rest) \<Rightarrow> Some (neg, v, rest) else None)"

text \<open>The value assigned to an \<open>int\<close>, and to an unsigned integer (of at most 64 bits, truncated by the caller).\<close>

definition int_value :: "bool \<Rightarrow> nat \<Rightarrow> int" where
  "int_value neg v = wrap_int32 (if neg then max (- (2 ^ 63)) (- int v) else min (2 ^ 63 - 1) (int v))"

definition unsigned_value :: "bool \<Rightarrow> nat \<Rightarrow> u64" where
  "unsigned_value neg v = (if v \<ge> 2 ^ 64 then - 1 else word_of_int (if neg then - int v else int v))"

definition atoi :: "string \<Rightarrow> int" where
  "atoi s = wrap_int32 (max (- (2 ^ 63)) (min (2 ^ 63 - 1) (c_atoi s)))"

section \<open>Scanning\<close>

fun sscanf :: "conv list \<Rightarrow> string \<Rightarrow> scanned list \<times> string" where
  "sscanf [] s = ([], s)"
| "sscanf (Skip_dec # cs) s = (case scan_number 10 s of None \<Rightarrow> ([], s) | Some (neg, v, r) \<Rightarrow> sscanf cs r)"
| "sscanf (Skip_hex # cs) s = (case scan_number 16 s of None \<Rightarrow> ([], s) | Some (neg, v, r) \<Rightarrow> sscanf cs r)"
| "sscanf (Take_dec # cs) s = (case scan_number 10 s of None \<Rightarrow> ([], s)
     | Some (neg, v, r) \<Rightarrow> (case sscanf cs r of (vs, t) \<Rightarrow> (Got_dec (int_value neg v) # vs, t)))"
| "sscanf (Take_hex # cs) s = (case scan_number 16 s of None \<Rightarrow> ([], s)
     | Some (neg, v, r) \<Rightarrow> (case sscanf cs r of (vs, t) \<Rightarrow> (Got_hex (unsigned_value neg v) # vs, t)))"
| "sscanf (Take_str n # cs) s =
     (let t = dropWhile is_space s; w = takeWhile (\<lambda>c. \<not> is_space c) (take n t)
      in if w = [] then ([], s)
         else case sscanf cs (drop (List.length w) t) of (vs, t) \<Rightarrow> (Got_str w # vs, t))"
| "sscanf (Lit c # cs) s = (case s of [] \<Rightarrow> ([], s) | d # r \<Rightarrow> if d = c then sscanf cs r else ([], s))"

section \<open>What is printed is read again\<close>

text \<open>The input after a number or a word: its end, or white space.\<close>

definition ends_word :: "string \<Rightarrow> bool" where
  "ends_word s \<longleftrightarrow> s = [] \<or> is_space (hd s)"

text \<open>The input after a number, which may also be a separator.\<close>

definition stops :: "string \<Rightarrow> bool" where
  "stops s \<longleftrightarrow> s = [] \<or> digit_of (hd s) = None \<and> hd s \<noteq> CHR ''x'' \<and> hd s \<noteq> CHR ''X''"

definition word_ok :: "string \<Rightarrow> bool" where
  "word_ok w \<longleftrightarrow> w \<noteq> [] \<and> list_all (\<lambda>c. \<not> is_space c) w"

lemma space_CHR [simp]: "is_space CHR '' ''" "\<not> is_space CHR ''-''"
  by (simp_all add: is_space_def)

lemma digit_char_facts:
  "n < 16 \<Longrightarrow> digit_of (digit_char n) = Some n \<and> \<not> is_space (digit_char n) \<and>
     digit_char n \<noteq> CHR ''-'' \<and> digit_char n \<noteq> CHR ''+'' \<and> digit_char n \<noteq> CHR ''x'' \<and> digit_char n \<noteq> CHR ''X''"
proof -
  have all: "list_all (\<lambda>n. digit_of (digit_char n) = Some n \<and> \<not> is_space (digit_char n) \<and>
     digit_char n \<noteq> CHR ''-'' \<and> digit_char n \<noteq> CHR ''+'' \<and> digit_char n \<noteq> CHR ''x'' \<and> digit_char n \<noteq> CHR ''X'')
     [0..<16]" by code_simp
  assume "n < 16"
  with all show ?thesis unfolding list_all_iff by simp
qed

lemma show_nat_not_Nil [simp]: "show_nat b n \<noteq> []"
  by (subst show_nat.simps) simp

lemma show_nat_digits:
  "2 \<le> b \<Longrightarrow> b \<le> 16 \<Longrightarrow> list_all (\<lambda>c. \<exists>d<b. c = digit_char d) (show_nat b n)"
proof (induction b n rule: show_nat.induct)
  case (1 b n)
  then have "\<exists>d<b. digit_char (n mod b) = digit_char d" by (intro exI [of _ "n mod b"]) simp
  with 1 show ?case by (subst show_nat.simps) (auto simp: list_all_iff)
qed

lemma is_digit_char: "d < b \<Longrightarrow> b \<le> 16 \<Longrightarrow> is_digit_of b (digit_char d)"
  using digit_char_facts [of d] by (simp add: is_digit_of_def)

lemma read_nat_show:
  assumes "2 \<le> b" "b \<le> 16"
  shows "read_nat b acc (show_nat b n @ s) = read_nat b (acc * b ^ List.length (show_nat b n) + n) s"
  using assms
proof (induction b n arbitrary: acc s rule: show_nat.induct)
  case (1 b n)
  show ?case
  proof (cases "n < b")
    case True
    with 1 digit_char_facts [of n] show ?thesis
      by (subst (1 2) show_nat.simps) (simp add: is_digit_char)
  next
    case False
    have d: "n mod b < b" using 1 by simp
    have "read_nat b acc (show_nat b n @ s) =
        read_nat b (acc * b ^ List.length (show_nat b (n div b)) + n div b) (digit_char (n mod b) # s)"
      using False 1 by (subst show_nat.simps) simp
    also have "\<dots> = read_nat b ((acc * b ^ List.length (show_nat b (n div b)) + n div b) * b + n mod b) s"
      using is_digit_char [OF d] digit_char_facts [of "n mod b"] 1 d by simp
    also have "(acc * b ^ List.length (show_nat b (n div b)) + n div b) * b + n mod b =
        acc * b ^ List.length (show_nat b n) + n"
      using False 1 by (subst (2) show_nat.simps) (simp add: algebra_simps)
    finally show ?thesis .
  qed
qed

lemma read_nat_end: "stops s \<Longrightarrow> read_nat b acc s = (acc, s)"
  by (cases s) (auto simp: stops_def is_digit_of_def)

lemma ends_word_stops: "ends_word s \<Longrightarrow> stops s"
  by (auto simp: ends_word_def stops_def digit_of_def c_isdigit_def char_code_def is_space_def Let_def)

lemma show_nat_hd: "2 \<le> b \<Longrightarrow> b \<le> 16 \<Longrightarrow> \<exists>d<b. hd (show_nat b n) = digit_char d"
  using show_nat_digits [of b n] by (cases "show_nat b n") auto

text \<open>Digits of a base up to 16, followed by something else.\<close>

definition all_digits :: "nat \<Rightarrow> string \<Rightarrow> bool" where
  "all_digits b w \<longleftrightarrow> w \<noteq> [] \<and> list_all (\<lambda>c. \<exists>d<b. c = digit_char d) w"

lemma all_digitsD:
  assumes "all_digits b w" "b \<le> 16" "c \<in> set w"
  shows "is_digit_of b c" "\<not> is_space c" "c \<noteq> CHR ''x''" "c \<noteq> CHR ''X''" "c \<noteq> CHR ''-''" "c \<noteq> CHR ''+''"
proof -
  have "\<exists>d<b. c = digit_char d" using assms(1,3) by (simp add: all_digits_def list_all_iff)
  then obtain d where d: "d < b" "c = digit_char d" by blast
  then have "d < 16" using assms(2) by simp
  from digit_char_facts [OF this] is_digit_char [OF d(1) assms(2)] d
  show "is_digit_of b c" "\<not> is_space c" "c \<noteq> CHR ''x''" "c \<noteq> CHR ''X''" "c \<noteq> CHR ''-''" "c \<noteq> CHR ''+''"
    by simp_all
qed

text \<open>A second character \<open>x\<close> would be taken for a prefix.\<close>

lemma drop_0x_digits:
  assumes "all_digits b w" "b \<le> 16" "stops s"
  shows "drop_0x (w @ s) = w @ s"
proof -
  have "hd s \<noteq> CHR ''x'' \<and> hd s \<noteq> CHR ''X''" if "s \<noteq> []"
    using assms(3) that by (auto simp: stops_def)
  moreover have "w \<noteq> []" using assms(1) by (simp add: all_digits_def)
  ultimately show ?thesis
    using all_digitsD(3,4) [OF assms(1,2)] unfolding drop_0x_def
    by (cases w; cases "tl w"; cases s) auto
qed

lemma read_nat_digits:
  assumes "\<And>c. c \<in> set w \<Longrightarrow> is_digit_of b c" "stops s"
  shows "read_nat b acc (w @ s) = (fst (read_nat b acc w), s)"
  using assms by (induction w arbitrary: acc) (auto simp: read_nat_end)

lemma scan_digits:
  assumes "all_digits d w" "d \<le> b" "b \<le> 16" "stops s"
  shows "scan_number b (w @ s) = Some (False, fst (read_nat b 0 w), s)"
proof -
  have w: "all_digits b w" using assms(1,2) unfolding all_digits_def list_all_iff by (meson less_le_trans)
  then have ne: "w \<noteq> []" by (simp add: all_digits_def)
  note c = all_digitsD [OF w assms(3)]
  have ws: "dropWhile is_space (w @ s) = w @ s" and sign: "split_sign (w @ s) = (False, w @ s)"
    and hd: "is_digit_of b (hd (w @ s))"
    using ne c [of "hd w"] by (cases w; simp)+
  have "(if b = 16 then drop_0x (w @ s) else w @ s) = w @ s" using drop_0x_digits [OF w assms(3,4)] by simp
  moreover have "read_nat b 0 (w @ s) = (fst (read_nat b 0 w), s)"
    by (rule read_nat_digits [OF c(1) assms(4)])
  ultimately show ?thesis
    unfolding scan_number_def ws sign using ne hd by (simp add: Let_def)
qed

lemma all_digits_show: "2 \<le> b \<Longrightarrow> b \<le> 16 \<Longrightarrow> all_digits b (show_nat b n)"
  using show_nat_digits by (simp add: all_digits_def)

lemma scan_number_nat:
  assumes "b = 10 \<or> b = 16" "stops s"
  shows "scan_number b (show_nat b n @ s) = Some (False, n, s)"
proof -
  have b: "2 \<le> b" "b \<le> 16" using assms(1) by auto
  have "read_nat b 0 (show_nat b n) = (n, [])" using read_nat_show [OF b, of 0 n "[]"] by simp
  with scan_digits [OF all_digits_show [OF b] order_refl b(2) assms(2), of n] show ?thesis by simp
qed

lemma scan_number_space: "is_space c \<Longrightarrow> scan_number b (c # s) = scan_number b s"
  by (simp add: scan_number_def)

lemma scan_number_dec:
  assumes "stops s"
  shows "scan_number 10 (show_dec i @ s) = Some (i < 0, nat \<bar>i\<bar>, s)"
proof (cases "i < 0")
  case True
  have b: "2 \<le> (10::nat)" "(10::nat) \<le> 16" by simp_all
  let ?n = "nat (- i)"
  obtain d where d: "d < 10" "hd (show_nat 10 ?n) = digit_char d" using show_nat_hd [OF b] by blast
  have "is_digit_of 10 (hd (show_nat 10 ?n @ s))" using is_digit_char [OF d(1) b(2)] d(2) by simp
  moreover have "read_nat 10 0 (show_nat 10 ?n @ s) = (?n, s)"
    unfolding read_nat_show [OF b] using read_nat_end [OF assms] by simp
  ultimately show ?thesis using True by (simp add: scan_number_def show_dec_def)
next
  case False
  then show ?thesis using scan_number_nat [OF _ assms, of 10 "nat i"] by (simp add: show_dec_def)
qed

lemma int_value_show: "- (2 ^ 31) \<le> i \<Longrightarrow> i < 2 ^ 31 \<Longrightarrow> int_value (i < 0) (nat \<bar>i\<bar>) = i"
  by (cases "i < 0") (simp_all add: int_value_def)

lemma unsigned_value_show: "n < 2 ^ 64 \<Longrightarrow> unsigned_value False n = word_of_nat n"
  by (simp add: unsigned_value_def)

lemma take_word:
  assumes "word_ok w" "List.length w \<le> n" "ends_word s"
  shows "takeWhile (\<lambda>c. \<not> is_space c) (take n (w @ s)) = w"
proof -
  have "take n (w @ s) = w @ take (n - List.length w) s" using assms(2) by simp
  moreover have "takeWhile (\<lambda>c. \<not> is_space c) (take k s) = []" for k
    using assms(3) by (cases s; cases k) (auto simp: ends_word_def)
  ultimately show ?thesis using assms(1) by (simp add: word_ok_def list_all_iff)
qed

lemma word_no_space: "word_ok w \<Longrightarrow> dropWhile is_space (w @ s) = w @ s"
  by (cases w) (auto simp: word_ok_def)

lemma ends_word_space [simp]: "ends_word (CHR '' '' # s)" "ends_word []"
  by (simp_all add: ends_word_def)

text \<open>One field of a request, with what follows it.\<close>

lemma sscanf_fields:
  assumes "ends_word s"
  shows "sscanf (Skip_dec # cs) (show_dec i @ s) = sscanf cs s"
    "sscanf (Skip_hex # cs) (show_hex n @ s) = sscanf cs s"
    "- (2 ^ 31) \<le> i \<Longrightarrow> i < 2 ^ 31 \<Longrightarrow>
       sscanf (Take_dec # cs) (show_dec i @ s) = (Got_dec i # fst (sscanf cs s), snd (sscanf cs s))"
    "n < 2 ^ 64 \<Longrightarrow>
       sscanf (Take_hex # cs) (show_hex n @ s) = (Got_hex (word_of_nat n) # fst (sscanf cs s), snd (sscanf cs s))"
    "word_ok w \<Longrightarrow> List.length w \<le> k \<Longrightarrow>
       sscanf (Take_str k # cs) (w @ s) = (Got_str w # fst (sscanf cs s), snd (sscanf cs s))"
  using scan_number_dec [OF ends_word_stops [OF assms], of i] scan_number_nat [OF _ ends_word_stops [OF assms], of 16 n] take_word [OF _ _ assms, of w k]
    word_no_space [of w s] int_value_show [of i] unsigned_value_show [of n]
  by (simp_all add: show_hex_def case_prod_beta word_ok_def)

lemma sscanf_skips_space:
  assumes "cs = [] \<longrightarrow> s = []" "\<forall>c. hd cs \<noteq> Lit c"
  shows "fst (sscanf cs (CHR '' '' # s)) = fst (sscanf cs s)"
  using assms by (cases cs; cases "hd cs") (simp_all add: scan_number_space case_prod_beta Let_def split: option.split)

end
