(* ===== verification/SubnetText.thy ===== *)
theory SubnetText
  imports Wire SubnetAddr
begin

text \<open>
  Subnets as text (\<open>str2net\<close> and \<open>net2str\<close> of \<open>subnet_parse.c\<close>): \<open>address[/prefixlength][#weight]\<close>.
  The conversions of IP addresses are \<open>inet_pton\<close> and \<open>inet_ntop\<close> of the C library, the parameter \<open>inet\<close>;
  \<open>None\<close> is the result 0 of \<open>inet_pton\<close>.
\<close>

record inet =
  pton4 :: "string \<Rightarrow> bytes option"
  ntop4 :: "bytes \<Rightarrow> string"
  pton6 :: "string \<Rightarrow> bytes option"
  ntop6 :: "bytes \<Rightarrow> string"

definition DEFAULT_WEIGHT :: int where "DEFAULT_WEIGHT = 10"

text \<open>\<open>strchr\<close> and the cut at the character found.\<close>

definition cut_at :: "char \<Rightarrow> string \<Rightarrow> string \<times> string option" where
  "cut_at c s = (takeWhile (\<lambda>x. x \<noteq> c) s, if c \<in> set s then Some (tl (dropWhile (\<lambda>x. x \<noteq> c) s)) else None)"

text \<open>\<open>sscanf(s, "%d%n", &v, &consumed)\<close> with nothing left over.\<close>

definition whole_int :: "string \<Rightarrow> int option" where
  "whole_int s = (case sscanf [Take_dec] s of ([Got_dec v], []) \<Rightarrow> Some v | _ \<Rightarrow> None)"

text \<open>\<open>%hx:%hx:%hx:%hx:%hx:%hx%n\<close>\<close>

definition mac_format :: "conv list" where
  "mac_format = [Take_hex, Lit CHR '':'', Take_hex, Lit CHR '':'', Take_hex, Lit CHR '':'', Take_hex, Lit CHR '':'',
     Take_hex, Lit CHR '':'', Take_hex]"

definition mac_byte :: "scanned \<Rightarrow> u8" where
  "mac_byte v = (case v of Got_hex x \<Rightarrow> ucast (ucast x :: u16) | _ \<Rightarrow> 0)"

definition scan_mac :: "string \<Rightarrow> bytes option" where
  "scan_mac s = (case sscanf mac_format s of (xs, rest) \<Rightarrow>
     if List.length xs = 6 \<and> rest = [] then Some (map mac_byte xs) else None)"

text \<open>An absent prefix length is \<open>-1\<close> in the code and \<open>None\<close> here; a negative one is refused.\<close>

definition str2net_address :: "inet \<Rightarrow> string \<Rightarrow> int option \<Rightarrow> int \<Rightarrow> subnet option" where
  "str2net_address I s prefixlength w =
     (case scan_mac s of
        Some a \<Rightarrow> if prefixlength \<noteq> None then None else Some \<lparr>owner = None, weight = w, net = Mac a\<rparr>
      | None \<Rightarrow>
        (case pton4 I s of
           Some a \<Rightarrow> let p = (case prefixlength of None \<Rightarrow> 32 | Some p \<Rightarrow> p)
                     in if p > 32 then None else Some \<lparr>owner = None, weight = w, net = Ipv4 (nat p) a\<rparr>
         | None \<Rightarrow>
           (case pton6 I s of
              Some a \<Rightarrow> let p = (case prefixlength of None \<Rightarrow> 128 | Some p \<Rightarrow> p)
                        in if p > 128 then None else Some \<lparr>owner = None, weight = w, net = Ipv6 (nat p) a\<rparr>
            | None \<Rightarrow> None)))"

definition str2net :: "inet \<Rightarrow> string \<Rightarrow> subnet option" where
  "str2net I subnetstr =
     (case cut_at CHR ''#'' (take 63 subnetstr) of (s, weight_str) \<Rightarrow>
        (case (case weight_str of None \<Rightarrow> Some DEFAULT_WEIGHT | Some t \<Rightarrow> whole_int t) of
           None \<Rightarrow> None
         | Some w \<Rightarrow>
           (case cut_at CHR ''/'' s of
              (a, None) \<Rightarrow> str2net_address I a None w
            | (a, Some t) \<Rightarrow>
                (case whole_int t of
                   None \<Rightarrow> None
                 | Some p \<Rightarrow> if p < 0 then None else str2net_address I a (Some p) w))))"

text \<open>\<open>%02x\<close>\<close>

definition show_hex2 :: "u8 \<Rightarrow> string" where
  "show_hex2 b = (if unat b < 16 then ''0'' else []) @ show_hex (unat b)"

fun join_colon :: "string list \<Rightarrow> string" where
  "join_colon [] = []"
| "join_colon [w] = w"
| "join_colon (w # ws) = w @ CHR '':'' # join_colon ws"

text \<open>The buffer of \<open>MAXNETSTR\<close> bytes holds every result.\<close>

definition net2str :: "inet \<Rightarrow> subnet \<Rightarrow> string" where
  "net2str I s =
     (case net s of
        Mac a \<Rightarrow> join_colon (map show_hex2 a)
      | Ipv4 p a \<Rightarrow> ntop4 I a @ (if p = 32 then [] else CHR ''/'' # show_dec (int p))
      | Ipv6 p a \<Rightarrow> ntop6 I a @ (if p = 128 then [] else CHR ''/'' # show_dec (int p))) @
     (if weight s \<noteq> DEFAULT_WEIGHT then CHR ''#'' # show_dec (weight s) else [])"

section \<open>Reading back\<close>

text \<open>
  What the C library documents: an address read back is the address written; the texts are short,
  contain neither \<open>/\<close> nor \<open>#\<close>, and no text denotes addresses of two kinds.
\<close>

definition text_ok :: "string \<Rightarrow> bool" where
  "text_ok s \<longleftrightarrow> List.length s \<le> 45 \<and> CHR ''#'' \<notin> set s \<and> CHR ''/'' \<notin> set s \<and> scan_mac s = None"

definition inet_ok :: "inet \<Rightarrow> bool" where
  "inet_ok I \<longleftrightarrow>
     (\<forall>a. List.length a = 4 \<longrightarrow> pton4 I (ntop4 I a) = Some a \<and> text_ok (ntop4 I a)) \<and>
     (\<forall>a. List.length a = 16 \<longrightarrow> pton6 I (ntop6 I a) = Some a \<and> pton4 I (ntop6 I a) = None \<and> text_ok (ntop6 I a))"

lemma cut_at_none: "c \<notin> set a \<Longrightarrow> cut_at c a = (a, None)"
  by (auto simp: cut_at_def takeWhile_eq_all_conv)

lemma cut_at_found:
  assumes "c \<notin> set a"
  shows "cut_at c (a @ c # b) = (a, Some b)"
proof -
  have "takeWhile (\<lambda>x. x \<noteq> c) (a @ c # b) = a" "dropWhile (\<lambda>x. x \<noteq> c) (a @ c # b) = c # b"
    using assms by (induction a) auto
  then show ?thesis by (simp add: cut_at_def)
qed

lemma show_nat_plain:
  assumes "b \<in> {10, 16}" "c \<in> set (show_nat b n)"
  shows "c \<notin> {CHR ''#'', CHR ''/'', CHR '':'', CHR ''-''}"
proof -
  have "list_all (\<lambda>d. digit_char d \<notin> {CHR ''#'', CHR ''/'', CHR '':'', CHR ''-''}) [0..<16]" by code_simp
  moreover have "\<exists>d<16. c = digit_char d"
  proof -
    have "\<exists>d<b. c = digit_char d" "b \<le> 16"
      using show_nat_digits [of b n] assms by (auto simp: list_all_iff)
    then obtain d where "d < b" "c = digit_char d" by blast
    with \<open>b \<le> 16\<close> show ?thesis by (intro exI [of _ d]) simp
  qed
  ultimately show ?thesis unfolding list_all_iff by auto
qed

lemma show_dec_plain: "CHR ''#'' \<notin> set (show_dec i)" "CHR ''/'' \<notin> set (show_dec i)"
  using show_nat_plain [of 10] by (auto simp: show_dec_def)

lemma stops_Nil [simp]: "stops []"
  by (simp add: stops_def)

lemma whole_int_show: "- (2 ^ 31) \<le> i \<Longrightarrow> i < 2 ^ 31 \<Longrightarrow> whole_int (show_dec i) = Some i"
  using scan_number_dec [of "[]" i] int_value_show [of i] by (simp add: whole_int_def)

lemma length_show_nat: "n < 10 ^ k \<Longrightarrow> k \<noteq> 0 \<Longrightarrow> length (show_nat 10 n) \<le> k"
proof (induction k arbitrary: n)
  case (Suc k)
  show ?case
  proof (cases "n < 10")
    case False
    with Suc.prems have "k \<noteq> 0" by (cases k) auto
    moreover have "n div 10 < 10 ^ k" using Suc.prems(1) by (simp add: less_mult_imp_div_less mult.commute)
    ultimately have "k \<noteq> 0" "n div 10 < 10 ^ k" by blast+
    with Suc.IH [of "n div 10"] False show ?thesis by (subst show_nat.simps) simp
  qed (subst show_nat.simps, simp)
qed simp

lemma length_show_dec: "- (2 ^ 31) \<le> i \<Longrightarrow> i < 2 ^ 31 \<Longrightarrow> length (show_dec i) \<le> 11"
proof -
  assume "- (2 ^ 31) \<le> i" "i < 2 ^ 31"
  then have "nat (- i) < 10 ^ 10" "nat i < 10 ^ 10" by simp_all
  then have "length (show_nat 10 (nat (- i))) \<le> 10" "length (show_nat 10 (nat i)) \<le> 10"
    using length_show_nat by simp_all
  then show ?thesis by (simp add: show_dec_def)
qed

subsection \<open>MAC addresses\<close>

lemma show_hex2_digits: "show_hex2 b = [digit_char (unat b div 16), digit_char (unat b mod 16)]"
proof (cases "unat b < 16")
  case True
  then have "show_hex2 b = ''0'' @ [digit_char (unat b)]" unfolding show_hex2_def show_hex_def by (subst show_nat.simps) simp
  with True show ?thesis by (simp add: digit_char_def)
next
  case False
  have "unat b div 16 < 16" using u8_less [of b] by simp
  then have "show_nat 16 (unat b div 16) = [digit_char (unat b div 16)]" by (subst show_nat.simps) simp
  with False show ?thesis unfolding show_hex2_def show_hex_def by (subst show_nat.simps) simp
qed

lemma scan_hex2:
  assumes "stops s"
  shows "scan_number 16 (show_hex2 b @ s) = Some (False, unat b, s)"
proof -
  let ?h = "unat b div 16" and ?l = "unat b mod 16"
  have h: "?h < 16" and l: "?l < 16" using u8_less [of b] by simp_all
  have "is_digit_of 16 (digit_char ?h)" "is_digit_of 16 (digit_char ?l)" using is_digit_char h l by auto
  then show ?thesis
    using digit_char_facts [OF h] digit_char_facts [OF l] read_nat_end [OF assms]
    by (simp add: show_hex2_digits scan_number_def drop_0x_def)
qed

lemma stops_colon [simp]: "stops (CHR '':'' # s)"
  by (simp add: stops_def digit_of_def c_isdigit_def char_code_def)

lemma mac_byte_show: "mac_byte (Got_hex (unsigned_value False (unat b))) = b"
proof -
  have "unat b < 2 ^ 64" using u8_less [of b] by simp
  then have "unsigned_value False (unat b) = ucast b" by (simp add: unsigned_value_def)
  moreover have "ucast (ucast (ucast b :: u64) :: u16) = b" by (rule bit_word_eqI) (simp add: bit_simps)
  ultimately show ?thesis by (simp add: mac_byte_def)
qed

lemma scan_mac_show:
  assumes "length a = 6"
  shows "scan_mac (join_colon (map show_hex2 a)) = Some a"
proof -
  obtain b0 b1 b2 b3 b4 b5 where a: "a = [b0, b1, b2, b3, b4, b5]"
    using assms by (auto simp: eval_nat_numeral length_Suc_conv)
  show ?thesis
    using scan_hex2 [of "[]" b5] by (simp add: a scan_mac_def mac_format_def scan_hex2 mac_byte_show)
qed

lemma mac_text:
  assumes "length a = 6"
  defines "t \<equiv> join_colon (map show_hex2 a)"
  shows "length t \<le> 45 \<and> CHR ''#'' \<notin> set t \<and> CHR ''/'' \<notin> set t"
proof -
  obtain b0 b1 b2 b3 b4 b5 where a: "a = [b0, b1, b2, b3, b4, b5]"
    using assms(1) by (auto simp: eval_nat_numeral length_Suc_conv)
  have "CHR ''#'' \<notin> set (show_hex2 b)" "CHR ''/'' \<notin> set (show_hex2 b)" for b
    using show_nat_plain [of 16] by (auto simp: show_hex2_def show_hex_def)
  then show ?thesis unfolding t_def a by (simp add: show_hex2_digits)
qed

subsection \<open>All together\<close>

definition prefix_text :: "int option \<Rightarrow> string" where
  "prefix_text p = (case p of None \<Rightarrow> [] | Some q \<Rightarrow> CHR ''/'' # show_dec q)"

definition weight_text :: "int \<Rightarrow> string" where
  "weight_text w = (if w \<noteq> DEFAULT_WEIGHT then CHR ''#'' # show_dec w else [])"

lemma str2net_parts:
  assumes t: "length t \<le> 45" "CHR ''#'' \<notin> set t" "CHR ''/'' \<notin> set t"
    and p: "\<And>q. p = Some q \<Longrightarrow> 0 \<le> q \<and> q \<le> 128" and w: "- (2 ^ 31) \<le> w" "w < 2 ^ 31"
  shows "str2net I (t @ prefix_text p @ weight_text w) = str2net_address I t p w"
proof -
  have "length (prefix_text p) \<le> 4"
    using p length_show_nat [of "nat q" 3 for q] by (auto simp: prefix_text_def show_dec_def split: option.split)
  moreover have "length (weight_text w) \<le> 12" using length_show_dec [OF w] by (simp add: weight_text_def)
  ultimately have all: "take 63 (t @ prefix_text p @ weight_text w) = (t @ prefix_text p) @ weight_text w"
    using t(1) by simp
  have "CHR ''#'' \<notin> set (t @ prefix_text p)"
    using t(2) show_dec_plain by (auto simp: prefix_text_def split: option.split)
  then have cw: "cut_at CHR ''#'' ((t @ prefix_text p) @ weight_text w) =
      (t @ prefix_text p, if w \<noteq> DEFAULT_WEIGHT then Some (show_dec w) else None)"
    unfolding weight_text_def using cut_at_none [of _ "t @ prefix_text p"] cut_at_found [of _ "t @ prefix_text p"] by simp
  have cp: "cut_at CHR ''/'' (t @ prefix_text p) = (t, map_option show_dec p)"
    unfolding prefix_text_def using cut_at_none [OF t(3)] cut_at_found [OF t(3)] by (cases p) simp_all
  have "(case (if w \<noteq> DEFAULT_WEIGHT then Some (show_dec w) else None) of
      None \<Rightarrow> Some DEFAULT_WEIGHT | Some u \<Rightarrow> whole_int u) = Some w"
    using whole_int_show [OF w] by simp
  moreover have "whole_int (show_dec q) = Some q \<and> \<not> q < 0" if "p = Some q" for q
    using p [OF that] whole_int_show [of q] by simp
  ultimately show ?thesis
    unfolding str2net_def all cw using cp by (cases p) simp_all
qed

text \<open>C40: \<open>str2net\<close> reads back every subnet \<open>net2str\<close> writes, with its prefix length and weight; only the owner is
  not part of the text.\<close>

theorem subnet_text_roundtrip:
  assumes "inet_ok I" "net_ok (net s)" "- (2 ^ 31) \<le> weight s" "weight s < 2 ^ 31"
  shows "str2net I (net2str I s) = Some (s\<lparr>owner := None\<rparr>)"
proof (cases "net s")
  case (Mac a)
  with assms(2) have a: "length a = 6" by simp
  have "net2str I s = join_colon (map show_hex2 a) @ prefix_text None @ weight_text (weight s)"
    by (simp add: net2str_def Mac prefix_text_def weight_text_def)
  with str2net_parts [of _ None, OF _ _ _ _ assms(3,4)] mac_text [OF a] scan_mac_show [OF a] Mac
  show ?thesis by (cases s) (simp add: str2net_address_def)
next
  case (Ipv4 p a)
  let ?p = "if p = 32 then None else Some (int p)"
  have tx: "text_ok (ntop4 I a)" "pton4 I (ntop4 I a) = Some a" and p: "p \<le> 32"
    using assms(1,2) by (simp_all add: Ipv4 inet_ok_def)
  have eq: "net2str I s = ntop4 I a @ prefix_text ?p @ weight_text (weight s)"
    by (simp add: net2str_def Ipv4 prefix_text_def weight_text_def)
  have "str2net I (net2str I s) = str2net_address I (ntop4 I a) ?p (weight s)"
    unfolding eq using tx p assms(3,4) by (intro str2net_parts) (auto simp: text_ok_def split: if_splits)
  then show ?thesis using tx p Ipv4 by (cases s) (simp add: str2net_address_def text_ok_def)
next
  case (Ipv6 p a)
  let ?p = "if p = 128 then None else Some (int p)"
  have tx: "text_ok (ntop6 I a)" "pton6 I (ntop6 I a) = Some a" "pton4 I (ntop6 I a) = None" and p: "p \<le> 128"
    using assms(1,2) by (simp_all add: Ipv6 inet_ok_def)
  have eq: "net2str I s = ntop6 I a @ prefix_text ?p @ weight_text (weight s)"
    by (simp add: net2str_def Ipv6 prefix_text_def weight_text_def)
  have "str2net I (net2str I s) = str2net_address I (ntop6 I a) ?p (weight s)"
    unfolding eq using tx p assms(3,4) by (intro str2net_parts) (auto simp: text_ok_def split: if_splits)
  then show ?thesis using tx p Ipv6 by (cases s) (simp add: str2net_address_def text_ok_def)
qed

subsection \<open>An instance of the C library\<close>

text \<open>
  Dotted decimal IPv4 addresses, and IPv6 addresses with all eight groups written out.  Only the
  texts it writes are read back.
\<close>

fun join_dot :: "string list \<Rightarrow> string" where
  "join_dot [] = []"
| "join_dot [w] = w"
| "join_dot (w # ws) = w @ CHR ''.'' # join_dot ws"

fun groups16 :: "bytes \<Rightarrow> nat list" where
  "groups16 (a # b # bs) = (unat a * 256 + unat b) # groups16 bs"
| "groups16 _ = []"

definition group_bytes :: "scanned \<Rightarrow> bytes" where
  "group_bytes v = (case v of Got_hex x \<Rightarrow> [word_of_nat (unat x div 256), word_of_nat (unat x)] | _ \<Rightarrow> [])"

definition dec_byte :: "scanned \<Rightarrow> u8" where
  "dec_byte v = (case v of Got_dec i \<Rightarrow> word_of_int i | _ \<Rightarrow> 0)"

definition ip4_format :: "conv list" where
  "ip4_format = [Take_dec, Lit CHR ''.'', Take_dec, Lit CHR ''.'', Take_dec, Lit CHR ''.'', Take_dec]"

definition ip6_format :: "conv list" where
  "ip6_format = mac_format @ [Lit CHR '':'', Take_hex, Lit CHR '':'', Take_hex]"

definition show_ip4 :: "bytes \<Rightarrow> string" where
  "show_ip4 a = join_dot (map (\<lambda>b. show_nat 10 (unat b)) a)"

definition show_ip6 :: "bytes \<Rightarrow> string" where
  "show_ip6 a = join_colon (map show_hex (groups16 a))"

definition read_ip4 :: "string \<Rightarrow> bytes option" where
  "read_ip4 s = (let a = map dec_byte (fst (sscanf ip4_format s))
     in if CHR '':'' \<notin> set s \<and> show_ip4 a = s \<and> length a = 4 then Some a else None)"

definition read_ip6 :: "string \<Rightarrow> bytes option" where
  "read_ip6 s = (let a = concat (map group_bytes (fst (sscanf ip6_format s))) in if show_ip6 a = s \<and> length a = 16 then Some a else None)"

definition example_inet :: inet where
  "example_inet = \<lparr>pton4 = read_ip4, ntop4 = show_ip4, pton6 = read_ip6, ntop6 = show_ip6\<rparr>"

lemma stops_dot [simp]: "stops (CHR ''.'' # s)"
  by (simp add: stops_def digit_of_def c_isdigit_def char_code_def)

lemma scan_show_nat:
  "stops s \<Longrightarrow> scan_number 10 (show_nat 10 n @ s) = Some (False, n, s)"
  "stops s \<Longrightarrow> scan_number 16 (show_hex n @ s) = Some (False, n, s)"
  by (simp_all add: scan_number_nat show_hex_def)

lemma ip4_facts:
  assumes "length a = 4"
  shows "read_ip4 (show_ip4 a) = Some a \<and> text_ok (show_ip4 a)"
proof -
  obtain b0 b1 b2 b3 where a: "a = [b0, b1, b2, b3]"
    using assms by (auto simp: eval_nat_numeral length_Suc_conv)
  have len: "length (show_nat 10 (unat b)) \<le> 3" for b :: u8
    using length_show_nat [of "unat b" 3] u8_less [of b] by simp
  have plain: "c \<notin> set (show_ip4 a)" if "c \<in> {CHR ''#'', CHR ''/'', CHR '':''}" for c
    using show_nat_plain [of 10] that by (auto simp: a show_ip4_def)
  have dec: "dec_byte (Got_dec (int_value False (unat b))) = b" for b
  proof -
    have "0 \<le> uint b" "uint b < 256" using unsigned_less [of b] by simp_all
    then have "int_value False (unat b) = uint b" by (simp add: int_value_def wrap_int32_def)
    then show ?thesis by (simp add: dec_byte_def)
  qed
  have "length (show_ip4 a) \<le> 45"
    using len [of b0] len [of b1] len [of b2] len [of b3] by (simp add: a show_ip4_def)
  moreover have "read_ip4 (show_ip4 a) = Some a"
    using plain [of "CHR '':''"] scan_show_nat(1) [of "[]" "unat b3"]
    by (simp add: read_ip4_def Let_def) (simp add: a show_ip4_def ip4_format_def scan_show_nat dec)
  moreover have "scan_mac (show_ip4 a) = None"
  proof -
    have "all_digits 10 (show_nat 10 (unat b0))" by (rule all_digits_show) simp_all
    from scan_digits [OF this] show ?thesis by (simp add: a show_ip4_def scan_mac_def mac_format_def)
  qed
  ultimately show ?thesis using plain by (simp add: text_ok_def)
qed

lemma group_facts:
  fixes a b :: u8
  defines "n \<equiv> unat a * 256 + unat b"
  shows "group_bytes (Got_hex (unsigned_value False n)) = [a, b]" "length (show_hex n) \<le> 4"
proof -
  have n: "n < 65536" using u8_less [of a] u8_less [of b] by (simp add: n_def)
  then have "unat (word_of_nat n :: u64) = n" by (simp add: unsigned_of_nat take_bit_nat_eq_self)
  moreover have "n div 256 = unat a" using u8_less [of b] by (simp add: n_def)
  moreover have "unat (word_of_nat n :: u8) = unat b"
    unfolding unsigned_of_nat using u8_less [of b] by (simp add: n_def take_bit_eq_mod)
  then have "word_of_nat n = b" by (simp only: word_unat_eq_iff)
  ultimately show "group_bytes (Got_hex (unsigned_value False n)) = [a, b]"
    using n by (simp add: group_bytes_def unsigned_value_def)
  have "length (show_nat 16 m) \<le> k" if "m < 16 ^ k" "k \<noteq> 0" for m k
    using that
  proof (induction k arbitrary: m)
    case (Suc k)
    show ?case
    proof (cases "m < 16")
      case False
      with Suc.prems have "k \<noteq> 0" by (cases k) auto
      moreover have "m div 16 < 16 ^ k" using Suc.prems(1) by (simp add: less_mult_imp_div_less mult.commute)
      ultimately show ?thesis using Suc.IH [of "m div 16"] False by (subst show_nat.simps) simp
    qed (subst show_nat.simps, simp)
  qed simp
  from this [of n 4] n show "length (show_hex n) \<le> 4" by (simp add: show_hex_def)
qed

lemma length_16:
  assumes "length a = 16"
  obtains b0 b1 b2 b3 b4 b5 b6 b7 c0 c1 c2 c3 c4 c5 c6 c7
  where "a = [b0, b1, b2, b3, b4, b5, b6, b7, c0, c1, c2, c3, c4, c5, c6, c7]"
  using assms by (auto simp: eval_nat_numeral length_Suc_conv)

lemma ip6_facts:
  assumes "length a = 16"
  shows "read_ip6 (show_ip6 a) = Some a \<and> read_ip4 (show_ip6 a) = None \<and> text_ok (show_ip6 a)"
proof -
  obtain b0 b1 b2 b3 b4 b5 b6 b7 c0 c1 c2 c3 c4 c5 c6 c7
    where a: "a = [b0, b1, b2, b3, b4, b5, b6, b7, c0, c1, c2, c3, c4, c5, c6, c7]"
    by (rule length_16 [OF assms])
  have plain: "c \<notin> set (show_ip6 a)" if "c \<in> {CHR ''#'', CHR ''/''}" for c
    using show_nat_plain [of 16] that by (auto simp: a show_ip6_def show_hex_def)
  have "length (show_ip6 a) \<le> 45"
    using group_facts(2) [of b0 b1] group_facts(2) [of b2 b3] group_facts(2) [of b4 b5] group_facts(2) [of b6 b7]
      group_facts(2) [of c0 c1] group_facts(2) [of c2 c3] group_facts(2) [of c4 c5] group_facts(2) [of c6 c7]
    by (simp add: a show_ip6_def)
  moreover have "read_ip6 (show_ip6 a) = Some a"
    using scan_show_nat(2) [of "[]" "unat c6 * 256 + unat c7"]
    by (simp add: a read_ip6_def show_ip6_def ip6_format_def mac_format_def scan_show_nat group_facts(1))
  moreover have "CHR '':'' \<in> set (show_ip6 a)" by (simp add: a show_ip6_def)
  then have "read_ip4 (show_ip6 a) = None" by (simp add: read_ip4_def Let_def)
  moreover have "scan_mac (show_ip6 a) = None"
    by (simp add: a scan_mac_def show_ip6_def mac_format_def scan_show_nat)
  ultimately show ?thesis using plain by (simp add: text_ok_def)
qed

lemma example_inet_ok: "inet_ok example_inet"
  using ip4_facts ip6_facts by (simp add: inet_ok_def example_inet_def)

theorem subnet_text_roundtrip_witness:
  "str2net example_inet (net2str example_inet \<lparr>owner = Some ''a'', weight = 5, net = Ipv4 8 [10, 0, 0, 0]\<rparr>) =
     Some \<lparr>owner = None, weight = 5, net = Ipv4 8 [10, 0, 0, 0]\<rparr>"
  using subnet_text_roundtrip [OF example_inet_ok, of "\<lparr>owner = Some ''a'', weight = 5, net = Ipv4 8 [10, 0, 0, 0]\<rparr>"] by simp

end
