(* ===== verification/AddressCache.thy ===== *)
theory AddressCache
  imports NetAddr
begin

text \<open>
  The addresses a node was recently reached at (\<open>address_cache.c\<close>): at most eight, the latest first, kept
  on disk, and the walk over them that a dial cycle makes, followed by the addresses the graph knows.

  The array and its counter \<open>used\<close> are the list \<open>recent\<close>; \<open>tried\<close> counts the entries a walk has passed.
  \<open>known\<close> is \<open>None\<close> while \<open>cache->ai\<close> is null, and then what \<open>cache->aip\<close> still points to.  \<open>vpn\<close> is the
  answer of \<open>address_routes_via_vpn\<close>.  The walk ends here where the code goes on with the configured
  \<open>Address\<close> statements, which the resolver and the DNS watcher answer.
\<close>

record address_cache =
  recent :: "sockaddr list"
  tried :: nat
  known :: "sockaddr list option"

definition MAX_CACHED_ADDRESSES :: nat where "MAX_CACHED_ADDRESSES = 8"

text \<open>\<open>NOT_CACHED\<close> is \<open>None\<close>.\<close>

fun find_cached_from :: "nat \<Rightarrow> sockaddr list \<Rightarrow> sockaddr \<Rightarrow> nat option" where
  "find_cached_from i [] sa = None"
| "find_cached_from i (a # as) sa = (if sockaddrcmp a sa = 0 then Some i else find_cached_from (Suc i) as sa)"

definition find_cached :: "address_cache \<Rightarrow> sockaddr \<Rightarrow> nat option" where
  "find_cached c sa = find_cached_from 0 (recent c) sa"

text \<open>The \<open>memmove\<close> of the first \<open>pos\<close> entries by one place, and the address put in front.\<close>

definition move_to_front :: "nat \<Rightarrow> sockaddr \<Rightarrow> sockaddr list \<Rightarrow> sockaddr list" where
  "move_to_front pos sa xs = sa # take pos xs @ drop (Suc pos) xs"

definition add_recent_address :: "(sockaddr \<Rightarrow> bool) \<Rightarrow> sockaddr \<Rightarrow> address_cache \<Rightarrow> address_cache" where
  "add_recent_address vpn sa c =
     (if vpn sa then c
      else case find_cached c sa of
        Some pos \<Rightarrow> if pos = 0 then c else c\<lparr>recent := move_to_front pos sa (recent c)\<rparr>
      | None \<Rightarrow>
          let used = (if length (recent c) < MAX_CACHED_ADDRESSES then length (recent c) + 1 else length (recent c))
          in c\<lparr>recent := move_to_front (used - 1) sa (recent c)\<rparr>)"

definition drop_address :: "sockaddr \<Rightarrow> address_cache \<Rightarrow> address_cache" where
  "drop_address sa c =
     (case find_cached c sa of
        None \<Rightarrow> c
      | Some pos \<Rightarrow> c\<lparr>recent := take pos (recent c) @ drop (Suc pos) (recent c),
                      tried := (if tried c > pos then tried c - 1 else tried c)\<rparr>)"

fun same_ip :: "sockaddr \<Rightarrow> sockaddr \<Rightarrow> bool" where
  "same_ip (Addr_inet a p) (Addr_inet b q) \<longleftrightarrow> a = b"
| "same_ip (Addr_inet6 a p s) (Addr_inet6 b q t) \<longleftrightarrow> c_memcmp a b = 0"
| "same_ip a b \<longleftrightarrow> False"

text \<open>The loop at index \<open>i\<close>: the entries before it have been kept.\<close>

fun drop_ip_loop :: "sockaddr \<Rightarrow> nat \<Rightarrow> nat \<Rightarrow> sockaddr list \<Rightarrow> nat \<times> sockaddr list" where
  "drop_ip_loop sa i k [] = (k, [])"
| "drop_ip_loop sa i k (a # as) =
     (if same_ip a sa then drop_ip_loop sa i (if k > i then k - 1 else k) as
      else case drop_ip_loop sa (Suc i) k as of (k', as') \<Rightarrow> (k', a # as'))"

definition drop_address_ip :: "sockaddr \<Rightarrow> address_cache \<Rightarrow> address_cache" where
  "drop_address_ip sa c =
     (case drop_ip_loop sa 0 (tried c) (recent c) of (k, as) \<Rightarrow> c\<lparr>recent := as, tried := k\<rparr>)"

definition reset_address_cache :: "address_cache \<Rightarrow> address_cache" where
  "reset_address_cache c = c\<lparr>known := None, tried := 0\<rparr>"

text \<open>What is read from the file, when it has the right size and version, and its number of addresses.\<close>

definition open_address_cache :: "(nat \<times> sockaddr list) option \<Rightarrow> address_cache" where
  "open_address_cache f =
     \<lparr>recent = (case f of None \<Rightarrow> []
        | Some (used, as) \<Rightarrow> if used > MAX_CACHED_ADDRESSES then [] else take used as),
      tried = 0, known = None\<rparr>"

section \<open>The walk\<close>

text \<open>The addresses of the edges that point to the node, given the addresses of the reverse edges.\<close>

definition add_known :: "(sockaddr \<Rightarrow> bool) \<Rightarrow> sockaddr option \<Rightarrow> sockaddr list \<Rightarrow> sockaddr list" where
  "add_known vpn r ai =
     (case r of None \<Rightarrow> ai
      | Some a \<Rightarrow> if vpn a \<or> list_ex (\<lambda>x. sockaddrcmp a x = 0) ai then ai else a # ai)"

definition get_known_addresses :: "(sockaddr \<Rightarrow> bool) \<Rightarrow> sockaddr option list \<Rightarrow> sockaddr list" where
  "get_known_addresses vpn revs = fold (add_known vpn) revs []"

text \<open>The first loop: the result is the address and the new \<open>tried\<close>.\<close>

fun next_recent :: "(sockaddr \<Rightarrow> bool) \<Rightarrow> nat \<Rightarrow> sockaddr list \<Rightarrow> sockaddr option \<times> nat" where
  "next_recent vpn k [] = (None, k)"
| "next_recent vpn k (a # as) = (if vpn a then next_recent vpn (Suc k) as else (Some a, Suc k))"

fun next_known :: "(sockaddr \<Rightarrow> bool) \<Rightarrow> address_cache \<Rightarrow> sockaddr list \<Rightarrow> sockaddr option \<times> address_cache" where
  "next_known vpn c [] = (None, c\<lparr>known := None, tried := tried c + 1\<rparr>)"
| "next_known vpn c (a # as) =
     (if find_cached c a \<noteq> None \<or> vpn a then next_known vpn c as else (Some a, c\<lparr>known := Some as\<rparr>))"

definition get_recent_address ::
  "(sockaddr \<Rightarrow> bool) \<Rightarrow> sockaddr option list \<Rightarrow> address_cache \<Rightarrow> sockaddr option \<times> address_cache" where
  "get_recent_address vpn revs c =
     (case next_recent vpn (tried c) (drop (tried c) (recent c)) of
        (Some a, k) \<Rightarrow> (Some a, c\<lparr>tried := k\<rparr>)
      | (None, k) \<Rightarrow>
          let c = c\<lparr>tried := k\<rparr> in
          if tried c = length (recent c)
          then next_known vpn c (case known c of None \<Rightarrow> get_known_addresses vpn revs | Some as \<Rightarrow> as)
          else (None, c))"

section \<open>The list of recent addresses\<close>

text \<open>No two entries compare equal, and there are at most eight.\<close>

definition same_address :: "sockaddr \<Rightarrow> sockaddr \<Rightarrow> bool" where
  "same_address a b \<longleftrightarrow> sockaddrcmp a b = 0"

definition recent_ok :: "(sockaddr \<Rightarrow> bool) \<Rightarrow> sockaddr list \<Rightarrow> bool" where
  "recent_ok vpn as \<longleftrightarrow> length as \<le> MAX_CACHED_ADDRESSES \<and> list_all (\<lambda>a. addr_ok a \<and> \<not> vpn a) as \<and>
     sorted_wrt (\<lambda>a b. \<not> same_address a b) as"

lemma same_address_equiv:
  assumes "addr_ok a" "addr_ok b"
  shows "same_address a a" "same_address a b \<longleftrightarrow> same_address b a"
  using sockaddr_order.cmp_refl [of a] sockaddr_order.cmp_eq_sym [of a b] sockaddr_order.cmp_eq_sym [of b a] assms
  by (auto simp: same_address_def)

lemma same_address_trans:
  assumes "addr_ok a" "addr_ok b" "addr_ok d" "same_address a b" "same_address b d"
  shows "same_address a d"
proof -
  have "sockaddrcmp a d \<le> 0" using assms by (intro sockaddrcmp_trans [of a b d]) (auto simp: same_address_def)
  moreover have "sockaddrcmp d a \<le> 0"
    using assms sockaddr_order.cmp_eq_sym [of a b] sockaddr_order.cmp_eq_sym [of b d]
    by (intro sockaddrcmp_trans [of d b a]) (auto simp: same_address_def)
  ultimately show ?thesis
    using sockaddr_order.cmp_flip [of d a] assms(1,3) by (simp add: same_address_def)
qed

lemma find_cached_None: "find_cached_from i as sa = None \<longleftrightarrow> (\<forall>a\<in>set as. \<not> same_address a sa)"
  by (induction as arbitrary: i) (auto simp: same_address_def)

lemma find_cached_Some:
  assumes "find_cached_from i as sa = Some k"
  obtains xs a ys where "as = xs @ a # ys" "k = i + length xs" "same_address a sa"
    "\<forall>x\<in>set xs. \<not> same_address x sa"
proof -
  have "\<exists>xs a ys. as = xs @ a # ys \<and> k = i + length xs \<and> same_address a sa \<and> (\<forall>x\<in>set xs. \<not> same_address x sa)"
    using assms
  proof (induction as arbitrary: i)
    case (Cons b as)
    show ?case
    proof (cases "same_address b sa")
      case True
      with Cons.prems show ?thesis by (intro exI [of _ "[]"]) (auto simp: same_address_def)
    next
      case False
      with Cons.prems have "find_cached_from (Suc i) as sa = Some k" by (simp add: same_address_def)
      from Cons.IH [OF this] obtain xs a ys where
        "as = xs @ a # ys" "k = Suc i + length xs" "same_address a sa" "\<forall>x\<in>set xs. \<not> same_address x sa" by blast
      with False show ?thesis by (intro exI [of _ "b # xs"]) auto
    qed
  qed simp
  then show ?thesis using that by blast
qed

text \<open>Dropping the entry found is dropping all that are the same.\<close>

definition without :: "sockaddr \<Rightarrow> sockaddr list \<Rightarrow> sockaddr list" where
  "without sa as = filter (\<lambda>a. \<not> same_address a sa) as"

lemma without_found:
  assumes "recent_ok vpn (xs @ a # ys)" "same_address a sa" "addr_ok sa" "\<forall>x\<in>set xs. \<not> same_address x sa"
  shows "without sa (xs @ a # ys) = xs @ ys"
proof -
  have "\<not> same_address y sa" if "y \<in> set ys" for y
  proof
    assume "same_address y sa"
    moreover have ok: "addr_ok y" "addr_ok a" "\<not> same_address a y"
      using assms(1) that by (auto simp: recent_ok_def sorted_wrt_append list_all_iff)
    ultimately have "same_address sa y" using same_address_equiv(2) [OF ok(1) assms(3)] by blast
    from same_address_trans [OF ok(2) assms(3) ok(1) assms(2) this] ok(3) show False by blast
  qed
  with assms(2,4) show ?thesis by (auto simp: without_def filter_id_conv)
qed

lemma recent_ok_without: "recent_ok vpn as \<Longrightarrow> recent_ok vpn (without sa as)"
  using le_trans [OF length_filter_le [of "\<lambda>a. \<not> same_address a sa" as], of MAX_CACHED_ADDRESSES]
  by (auto simp: recent_ok_def without_def list_all_iff sorted_wrt_filter)

lemma recent_ok_add:
  assumes "recent_ok vpn as" "addr_ok sa" "\<not> vpn sa"
  shows "recent_ok vpn (take MAX_CACHED_ADDRESSES (sa # without sa as))"
proof -
  have "\<forall>a\<in>set (without sa as). \<not> same_address sa a"
    using assms(1,2) same_address_equiv(2) by (auto simp: without_def recent_ok_def list_all_iff)
  moreover have "recent_ok vpn (without sa as)" by (rule recent_ok_without [OF assms(1)])
  ultimately have "sorted_wrt (\<lambda>a b. \<not> same_address a b) (sa # without sa as)"
      "list_all (\<lambda>a. addr_ok a \<and> \<not> vpn a) (sa # without sa as)"
    using assms(2,3) by (auto simp: recent_ok_def)
  then show ?thesis
    unfolding recent_ok_def list_all_iff using sorted_wrt_take in_set_takeD by (metis length_take min.cobounded2)
qed

lemma add_recent_address_ok:
  assumes ok: "recent_ok vpn (recent c)" and sa: "addr_ok sa"
  shows "recent_ok vpn (recent (add_recent_address vpn sa c)) \<and>
    recent (add_recent_address vpn sa c) =
      (if vpn sa \<or> (recent c \<noteq> [] \<and> same_address (hd (recent c)) sa) then recent c
       else take MAX_CACHED_ADDRESSES (sa # without sa (recent c)))"
proof (cases "vpn sa")
  case True
  with ok show ?thesis by (simp add: add_recent_address_def)
next
  case False
  note add = recent_ok_add [OF ok sa False]
  have len: "length (recent c) \<le> MAX_CACHED_ADDRESSES" using ok by (simp add: recent_ok_def)
  show ?thesis
  proof (cases "find_cached c sa")
    case None
    then have no: "\<forall>a\<in>set (recent c). \<not> same_address a sa" by (simp add: find_cached_def find_cached_None)
    then have "without sa (recent c) = recent c" by (simp add: without_def filter_id_conv)
    moreover have "move_to_front (if length (recent c) < MAX_CACHED_ADDRESSES then length (recent c)
        else length (recent c) - 1) sa (recent c) = take MAX_CACHED_ADDRESSES (sa # recent c)"
      using len by (auto simp: move_to_front_def MAX_CACHED_ADDRESSES_def take_Cons')
    moreover have "\<not> (recent c \<noteq> [] \<and> same_address (hd (recent c)) sa)" using no by (cases "recent c") auto
    ultimately show ?thesis using None False add by (auto simp: add_recent_address_def)
  next
    case (Some k)
    then obtain xs a ys where split: "recent c = xs @ a # ys" "k = length xs" "same_address a sa"
      and xs: "\<forall>x\<in>set xs. \<not> same_address x sa"
      by (auto simp: find_cached_def elim: find_cached_Some)
    have "without sa (recent c) = xs @ ys"
      unfolding split(1) by (rule without_found [OF _ split(3) sa xs]) (use ok split(1) in simp)
    moreover have "move_to_front k sa (recent c) = sa # xs @ ys" by (simp add: move_to_front_def split(1,2))
    moreover have "length (sa # xs @ ys) \<le> MAX_CACHED_ADDRESSES" using len by (simp add: split(1))
    moreover have "k = 0 \<longleftrightarrow> recent c \<noteq> [] \<and> same_address (hd (recent c)) sa"
      using split xs by (cases xs) auto
    ultimately show ?thesis using Some False add ok by (auto simp: add_recent_address_def)
  qed
qed

lemma drop_address_ok:
  assumes ok: "recent_ok vpn (recent c)" and sa: "addr_ok sa"
  shows "recent_ok vpn (recent (drop_address sa c)) \<and> recent (drop_address sa c) = without sa (recent c)"
proof (cases "find_cached c sa")
  case None
  then have "without sa (recent c) = recent c"
    by (simp add: find_cached_def find_cached_None without_def filter_id_conv)
  with None ok show ?thesis by (simp add: drop_address_def)
next
  case (Some k)
  then obtain xs a ys where split: "recent c = xs @ a # ys" "k = length xs" "same_address a sa"
    and xs: "\<forall>x\<in>set xs. \<not> same_address x sa"
    by (auto simp: find_cached_def elim: find_cached_Some)
  have "without sa (recent c) = xs @ ys"
    unfolding split(1) by (rule without_found [OF _ split(3) sa xs]) (use ok split(1) in simp)
  with Some recent_ok_without [OF ok, of sa] show ?thesis by (simp add: drop_address_def split(1,2))
qed

lemma drop_ip_filter: "snd (drop_ip_loop sa i k as) = filter (\<lambda>a. \<not> same_ip a sa) as"
  by (induction sa i k as rule: drop_ip_loop.induct) (auto simp: case_prod_beta)

section \<open>Properties\<close>

datatype cache_op = C_add sockaddr | C_drop sockaddr | C_drop_ip sockaddr | C_reset | C_next "sockaddr option list"

fun cache_exec :: "(sockaddr \<Rightarrow> bool) \<Rightarrow> cache_op \<Rightarrow> address_cache \<Rightarrow> address_cache" where
  "cache_exec vpn (C_add sa) c = add_recent_address vpn sa c"
| "cache_exec vpn (C_drop sa) c = drop_address sa c"
| "cache_exec vpn (C_drop_ip sa) c = drop_address_ip sa c"
| "cache_exec vpn C_reset c = reset_address_cache c"
| "cache_exec vpn (C_next revs) c = snd (get_recent_address vpn revs c)"

text \<open>The specification: a list of the last eight different addresses, the latest first.\<close>

fun mru_exec :: "(sockaddr \<Rightarrow> bool) \<Rightarrow> cache_op \<Rightarrow> sockaddr list \<Rightarrow> sockaddr list" where
  "mru_exec vpn (C_add sa) as =
     (if vpn sa \<or> (as \<noteq> [] \<and> same_address (hd as) sa) then as else take MAX_CACHED_ADDRESSES (sa # without sa as))"
| "mru_exec vpn (C_drop sa) as = without sa as"
| "mru_exec vpn (C_drop_ip sa) as = filter (\<lambda>a. \<not> same_ip a sa) as"
| "mru_exec vpn C_reset as = as"
| "mru_exec vpn (C_next revs) as = as"

fun cache_op_ok :: "cache_op \<Rightarrow> bool" where
  "cache_op_ok (C_add sa) = addr_ok sa" | "cache_op_ok (C_drop sa) = addr_ok sa" | "cache_op_ok _ = True"

lemma next_known_recent: "recent (snd (next_known vpn c as)) = recent c"
  by (induction vpn c as rule: next_known.induct) auto

lemma get_recent_address_recent: "recent (snd (get_recent_address vpn revs c)) = recent c"
  by (auto simp: get_recent_address_def Let_def next_known_recent split: prod.split option.split)

lemma cache_exec_refines:
  assumes "recent_ok vpn (recent c)" "cache_op_ok op"
  shows "recent_ok vpn (recent (cache_exec vpn op c)) \<and> recent (cache_exec vpn op c) = mru_exec vpn op (recent c)"
proof (cases op)
  case (C_drop_ip sa)
  have "recent_ok vpn (filter (\<lambda>a. \<not> same_ip a sa) (recent c))"
    using assms(1) le_trans [OF length_filter_le [of "\<lambda>a. \<not> same_ip a sa" "recent c"], of MAX_CACHED_ADDRESSES]
    by (auto simp: recent_ok_def list_all_iff sorted_wrt_filter)
  moreover have "recent (drop_address_ip sa c) = filter (\<lambda>a. \<not> same_ip a sa) (recent c)"
    using drop_ip_filter [of sa 0 "tried c" "recent c"] by (simp add: drop_address_ip_def case_prod_beta)
  ultimately show ?thesis by (simp add: C_drop_ip)
next
  case (C_add sa)
  then have "addr_ok sa" using assms(2) by simp
  then show ?thesis unfolding C_add cache_exec.simps mru_exec.simps by (rule add_recent_address_ok [OF assms(1)])
next
  case (C_drop sa)
  then have "addr_ok sa" using assms(2) by simp
  then show ?thesis unfolding C_drop cache_exec.simps mru_exec.simps by (rule drop_address_ok [OF assms(1)])
qed (use assms in \<open>simp_all add: reset_address_cache_def get_recent_address_recent\<close>)

text \<open>C33: Under any sequence of additions, removals and walks the array holds the latest eight different
  addresses, the most recent first, and never one that leads back into the VPN.\<close>

theorem address_cache_refines_mru:
  fixes vpn :: "sockaddr \<Rightarrow> bool"
  assumes "\<forall>op\<in>set ops. cache_op_ok op"
  defines "c \<equiv> fold (cache_exec vpn) ops (open_address_cache None)"
  shows "recent c = fold (mru_exec vpn) ops [] \<and> recent_ok vpn (recent c)"
proof -
  have "recent_ok vpn (recent d) \<Longrightarrow> recent_ok vpn (fold (mru_exec vpn) ops (recent d)) \<and>
      recent (fold (cache_exec vpn) ops d) = fold (mru_exec vpn) ops (recent d)" for d
    using assms(1)
  proof (induction ops arbitrary: d)
    case (Cons op ops)
    have "cache_op_ok op" using Cons.prems(2) by simp
    then have "recent_ok vpn (recent (cache_exec vpn op d))" "recent (cache_exec vpn op d) = mru_exec vpn op (recent d)"
      using cache_exec_refines [OF Cons.prems(1)] by blast+
    with Cons.IH [of "cache_exec vpn op d"] Cons.prems(2) show ?case by simp
  qed simp
  from this [of "open_address_cache None"] show ?thesis
    by (simp add: c_def open_address_cache_def recent_ok_def)
qed

theorem address_cache_refines_mru_witness:
  "recent (fold (cache_exec (\<lambda>_. False)) [C_add (Addr_inet [1, 2, 3, 4] 655), C_add (Addr_inet [5, 6, 7, 8] 655)]
     (open_address_cache None)) = [Addr_inet [5, 6, 7, 8] 655, Addr_inet [1, 2, 3, 4] 655]"
  using address_cache_refines_mru [of "[C_add (Addr_inet [1, 2, 3, 4] 655), C_add (Addr_inet [5, 6, 7, 8] 655)]" "\<lambda>_. False"]
  by (simp add: same_address_def without_def MAX_CACHED_ADDRESSES_def then_cmp_def)

text \<open>The addresses a walk has still to offer.\<close>

definition offers :: "(sockaddr \<Rightarrow> bool) \<Rightarrow> sockaddr option list \<Rightarrow> address_cache \<Rightarrow> sockaddr list" where
  "offers vpn revs c =
     (if tried c \<le> length (recent c)
      then filter (\<lambda>a. \<not> vpn a) (drop (tried c) (recent c)) @
           filter (\<lambda>a. find_cached c a = None \<and> \<not> vpn a)
             (case known c of None \<Rightarrow> get_known_addresses vpn revs | Some as \<Rightarrow> as)
      else [])"

lemma next_recent_cases:
  "case next_recent vpn k as of
     (Some a, k') \<Rightarrow> \<exists>xs ys. as = xs @ a # ys \<and> filter (\<lambda>a. \<not> vpn a) xs = [] \<and> \<not> vpn a \<and> k' = k + length xs + 1
   | (None, k') \<Rightarrow> filter (\<lambda>a. \<not> vpn a) as = [] \<and> k' = k + length as"
proof (induction vpn k as rule: next_recent.induct)
  case (2 vpn k a as)
  show ?case
  proof (cases "vpn a")
    case True
    obtain r k' where r: "next_recent vpn (Suc k) as = (r, k')" by (cases "next_recent vpn (Suc k) as")
    show ?thesis
    proof (cases r)
      case None
      with 2 True r show ?thesis by simp
    next
      case (Some b)
      with 2 True r obtain xs ys where "as = xs @ b # ys" "filter (\<lambda>a. \<not> vpn a) xs = []" "\<not> vpn b"
        "k' = Suc k + length xs + 1" by auto
      with True r Some show ?thesis by (simp, intro exI [of _ "a # xs"]) auto
    qed
  next
    case False
    then show ?thesis by simp
  qed
qed simp

lemma next_known_cases:
  "case next_known vpn c as of
     (Some a, c') \<Rightarrow> \<exists>ys. c' = c\<lparr>known := Some ys\<rparr> \<and>
        filter (\<lambda>a. find_cached c a = None \<and> \<not> vpn a) as = a # filter (\<lambda>a. find_cached c a = None \<and> \<not> vpn a) ys
   | (None, c') \<Rightarrow> filter (\<lambda>a. find_cached c a = None \<and> \<not> vpn a) as = []"
  by (induction vpn c as rule: next_known.induct) (auto split: prod.split option.split)

lemma find_cached_cong [simp]: "find_cached (c\<lparr>tried := k\<rparr>) = find_cached c" "find_cached (c\<lparr>known := l\<rparr>) = find_cached c"
  by (simp_all add: fun_eq_iff find_cached_def)

lemma walk_step:
  assumes "tried c \<le> length (recent c)"
  shows "case get_recent_address vpn revs c of
      (None, c') \<Rightarrow> offers vpn revs c = []
    | (Some a, c') \<Rightarrow> offers vpn revs c = a # offers vpn revs c' \<and> tried c' \<le> length (recent c')"
proof -
  obtain r k where r: "next_recent vpn (tried c) (drop (tried c) (recent c)) = (r, k)"
    by (cases "next_recent vpn (tried c) (drop (tried c) (recent c))")
  note cases = next_recent_cases [where vpn = vpn and k = "tried c" and as = "drop (tried c) (recent c)", unfolded r]
  show ?thesis
  proof (cases r)
    case (Some a)
    with cases obtain xs ys where s: "drop (tried c) (recent c) = xs @ a # ys" "filter (\<lambda>a. \<not> vpn a) xs = []" "\<not> vpn a"
      "k = tried c + length xs + 1" by auto
    have "drop k (recent c) = drop (length xs + 1) (drop (tried c) (recent c))" by (simp add: s(4) add.commute)
    then have ys: "drop k (recent c) = ys" by (simp add: s(1))
    have "length (recent c) - tried c = length xs + 1 + length ys"
      using arg_cong [OF s(1), of length] by simp
    then have "k \<le> length (recent c)" using s(4) by simp
    with Some r s ys assms show ?thesis by (simp add: get_recent_address_def offers_def)
  next
    case None
    with cases have e: "filter (\<lambda>a. \<not> vpn a) (drop (tried c) (recent c)) = []" "k = length (recent c)"
      using assms by simp_all
    let ?c = "c\<lparr>tried := k\<rparr>" and ?as = "case known c of None \<Rightarrow> get_known_addresses vpn revs | Some as \<Rightarrow> as"
    have get: "get_recent_address vpn revs c = next_known vpn ?c ?as"
      using None r e(2) by (simp add: get_recent_address_def Let_def)
    have o: "offers vpn revs c = filter (\<lambda>a. find_cached c a = None \<and> \<not> vpn a) ?as"
      unfolding offers_def using assms e(1) by simp
    obtain q c' where q: "next_known vpn ?c ?as = (q, c')" by (cases "next_known vpn ?c ?as")
    from next_known_cases [where vpn = vpn and c = ?c and as = ?as, unfolded q] e(2) show ?thesis
      unfolding get q o by (cases q) (auto simp: offers_def)
  qed
qed

fun collect :: "(sockaddr \<Rightarrow> bool) \<Rightarrow> sockaddr option list \<Rightarrow> nat \<Rightarrow> address_cache \<Rightarrow> sockaddr list" where
  "collect vpn revs 0 c = []"
| "collect vpn revs (Suc n) c =
     (case get_recent_address vpn revs c of (None, c') \<Rightarrow> [] | (Some a, c') \<Rightarrow> a # collect vpn revs n c')"

lemma collect_offers: "tried c \<le> length (recent c) \<Longrightarrow> collect vpn revs n c = take n (offers vpn revs c)"
proof (induction n arbitrary: c)
  case (Suc n)
  with walk_step [OF Suc.prems, of vpn revs] show ?case by (auto split: prod.splits option.splits)
qed simp


end
