(* ===== verification/Gossip.thy ===== *)
theory Gossip
  imports SubnetText SubnetTable EdgeTable GraphBfs AddressCache
begin

text \<open>
  How the picture of the mesh spreads: the handlers of the requests \<open>ADD_EDGE\<close>, \<open>DEL_EDGE\<close> (\<open>protocol_edge.c\<close>),
  \<open>ADD_SUBNET\<close> and \<open>DEL_SUBNET\<close> (\<open>protocol_subnet.c\<close>), the memory of requests already seen and the dispatch
  of requests (\<open>protocol.c\<close>).

  The state \<open>daemon\<close> composes the node tree, the edge table, the subnet table, the address caches and the
  request memory; \<open>d_log\<close> is what the daemon has sent and run, oldest first.  \<open>denv\<close> is what does not
  change: configuration, the clock, the C library's address conversions, the random numbers, and in
  \<open>e_graph\<close> the constant part of the graph's environment.  \<open>None\<close> as the result of a handler is \<open>abort()\<close>;
  the boolean is the handler's result, false ends the connection.
\<close>

unbundle bit_operations_syntax

section \<open>State\<close>

record past_request =
  request :: string
  firstseen :: int

record mconn =
  mc_id :: nat
  mc_node :: "name option"
  mc_edge :: bool
  mc_outgoing :: bool
  mc_active :: bool
  mc_allow :: int
  mc_verified :: bool

datatype action =
  Send nat string
| Subnet_script name subnet bool
| Graph_events "node_event list" device_action

record denv =
  e_graph :: graph_env
  e_tunnelserver :: bool
  e_strictsubnets :: bool
  e_blocked :: "name list"
  e_inet :: inet
  e_getaddrinfo :: "string \<Rightarrow> string \<Rightarrow> sockaddr option"
  e_getnameinfo :: "sockaddr \<Rightarrow> string \<times> string"
  e_pinginterval :: int
  e_http_proxy :: bool
  e_prng :: "nat \<Rightarrow> u32"
  e_node_id :: "name \<Rightarrow> bytes"
  e_config_address :: "name \<Rightarrow> bool"
  e_cache_file :: "name \<Rightarrow> (nat \<times> sockaddr list) option"

record daemon =
  d_node_tree :: "name splay_tree"
  d_node_ids :: "name splay_tree"
  d_nodes :: nodes
  d_edges :: edge_db
  d_subnets :: subnet_db
  d_expires :: "subnet \<Rightarrow> int"
  d_requests :: "past_request splay_tree"
  d_request_timer :: bool
  d_conns :: "mconn list"
  d_caches :: "name \<rightharpoonup> address_cache"
  d_lan_change :: "name \<Rightarrow> int"
  d_punch_backoff :: "name \<Rightarrow> int"
  d_contradicting_add_edge :: nat
  d_contradicting_del_edge :: nat
  d_drawn :: nat
  d_mst :: "name \<Rightarrow> bool"
  d_log :: "action list"

abbreviation me_of :: "denv \<Rightarrow> name" where
  "me_of E \<equiv> g_myself (e_graph E)"

abbreviation now_of :: "denv \<Rightarrow> int" where
  "now_of E \<equiv> ae_now (g_addr (e_graph E))"

section \<open>Requests already seen\<close>

definition past_request_compare :: "past_request \<Rightarrow> past_request \<Rightarrow> int" where
  "past_request_compare a b = c_strcmp (request a) (request b)"

definition seen_request :: "denv \<Rightarrow> string \<Rightarrow> daemon \<Rightarrow> bool \<times> daemon" where
  "seen_request E r d =
     (case splay_search past_request_compare \<lparr>request = r, firstseen = 0\<rparr> (d_requests d) of
        (Some p, t) \<Rightarrow> (True, d\<lparr>d_requests := t\<rparr>)
      | (None, t) \<Rightarrow> (False, d\<lparr>d_requests :=
            snd (splay_insert past_request_compare \<lparr>request = r, firstseen = now_of E\<rparr> t),
          d_request_timer := True\<rparr>))"

definition too_old :: "denv \<Rightarrow> past_request \<Rightarrow> bool" where
  "too_old E p \<longleftrightarrow> firstseen p + e_pinginterval E \<le> now_of E"

text \<open>The callback of the timer, which runs again only if something is left.\<close>

definition age_past_requests :: "denv \<Rightarrow> daemon \<Rightarrow> daemon" where
  "age_past_requests E d =
     (let ps = thread (d_requests d);
          t = fold (\<lambda>p t. if too_old E p then splay_unlink_node t p else t) ps (d_requests d)
      in d\<lparr>d_requests := t, d_request_timer := list_ex (\<lambda>p. \<not> too_old E p) ps\<rparr>)"

section \<open>Sending\<close>

definition MAXBUFSIZE :: nat where "MAXBUFSIZE = 2176"

definition broadcast_meta :: "nat option \<Rightarrow> string \<Rightarrow> daemon \<Rightarrow> daemon" where
  "broadcast_meta from text d =
     d\<lparr>d_log := d_log d @
        map (\<lambda>c. Send (mc_id c) text) (filter (\<lambda>c. Some (mc_id c) \<noteq> from \<and> mc_edge c) (d_conns d))\<rparr>"

text \<open>The text without the newline that ends it; \<open>None\<close> is the connection \<open>everyone\<close>.\<close>

definition send_request :: "nat option \<Rightarrow> string \<Rightarrow> daemon \<Rightarrow> daemon" where
  "send_request c text d =
     (if length text > MAXBUFSIZE - 1 then d
      else case c of None \<Rightarrow> broadcast_meta None text d
                   | Some i \<Rightarrow> d\<lparr>d_log := d_log d @ [Send i text]\<rparr>)"

definition forward_request :: "mconn \<Rightarrow> string \<Rightarrow> daemon \<Rightarrow> daemon" where
  "forward_request c text d = broadcast_meta (Some (mc_id c)) text d"

fun spaced :: "string list \<Rightarrow> string" where
  "spaced [] = []"
| "spaced [w] = w"
| "spaced (w # ws) = w @ CHR '' '' # spaced ws"

text \<open>Each message carries a fresh random number.\<close>

definition draw :: "denv \<Rightarrow> daemon \<Rightarrow> string \<times> daemon" where
  "draw E d = (show_hex (unat (e_prng E (d_drawn d))), d\<lparr>d_drawn := d_drawn d + 1\<rparr>)"

definition str2sockaddr :: "denv \<Rightarrow> string \<Rightarrow> string \<Rightarrow> sockaddr" where
  "str2sockaddr E address port =
     (case e_getaddrinfo E address port of None \<Rightarrow> Addr_unknown address port | Some sa \<Rightarrow> sa)"

definition sockaddr2str :: "denv \<Rightarrow> sockaddr \<Rightarrow> string \<times> string" where
  "sockaddr2str E sa =
     (case sa of
        Addr_unspec \<Rightarrow> (''unspec'', ''unspec'')
      | Addr_unknown a p \<Rightarrow> (a, p)
      | _ \<Rightarrow> (case e_getnameinfo E sa of (a, p) \<Rightarrow> (takeWhile (\<lambda>c. c \<noteq> CHR ''%'') a, p)))"

definition add_edge_text :: "denv \<Rightarrow> string \<Rightarrow> edge_id \<Rightarrow> edge_obj \<Rightarrow> string" where
  "add_edge_text E nonce e x =
     (case sockaddr2str E (eo_address x) of (a, p) \<Rightarrow>
        spaced ([''12'', nonce, fst e, snd e, a, p, show_hex (unat (eo_options x)), show_dec (eo_weight x)] @
          (if sa_family (eo_local_address x) \<noteq> 0
           then (case sockaddr2str E (eo_local_address x) of (la, lp) \<Rightarrow> [la, lp]) else [])))"

definition send_add_edge :: "denv \<Rightarrow> nat option \<Rightarrow> edge_id \<Rightarrow> edge_obj \<Rightarrow> daemon \<Rightarrow> daemon" where
  "send_add_edge E c e x d =
     (case draw E d of (nonce, d) \<Rightarrow> send_request c (add_edge_text E nonce e x) d)"

definition send_del_edge :: "denv \<Rightarrow> nat option \<Rightarrow> edge_id \<Rightarrow> daemon \<Rightarrow> daemon" where
  "send_del_edge E c e d =
     (case draw E d of (nonce, d) \<Rightarrow> send_request c (spaced [''13'', nonce, fst e, snd e]) d)"

definition send_add_subnet :: "denv \<Rightarrow> nat option \<Rightarrow> name \<Rightarrow> subnet \<Rightarrow> daemon \<Rightarrow> daemon" where
  "send_add_subnet E c n s d =
     (case draw E d of (nonce, d) \<Rightarrow> send_request c (spaced [''10'', nonce, n, net2str (e_inet E) s]) d)"

definition send_del_subnet :: "denv \<Rightarrow> nat option \<Rightarrow> name \<Rightarrow> subnet \<Rightarrow> daemon \<Rightarrow> daemon" where
  "send_del_subnet E c n s d =
     (case draw E d of (nonce, d) \<Rightarrow> send_request c (spaced [''11'', nonce, n, net2str (e_inet E) s]) d)"

section \<open>Nodes\<close>

definition node_is_blocked :: "denv \<Rightarrow> name \<Rightarrow> bool" where
  "node_is_blocked E n \<longleftrightarrow> n \<noteq> [] \<and> n \<noteq> me_of E \<and> n \<in> set (e_blocked E)"

definition node_compare :: "name \<Rightarrow> name \<Rightarrow> int" where
  "node_compare a b = c_strcmp a b"

definition lookup_node :: "name \<Rightarrow> daemon \<Rightarrow> name option \<times> daemon" where
  "lookup_node n d = (case splay_search node_compare n (d_node_tree d) of (r, t) \<Rightarrow> (r, d\<lparr>d_node_tree := t\<rparr>))"

definition node_id_compare :: "denv \<Rightarrow> name \<Rightarrow> name \<Rightarrow> int" where
  "node_id_compare E a b = c_memcmp (e_node_id E a) (e_node_id E b)"

text \<open>\<open>new_node\<close> and \<open>node_add\<close>; the trees of the new node are empty.\<close>

definition node_add :: "denv \<Rightarrow> name \<Rightarrow> daemon \<Rightarrow> daemon" where
  "node_add E n d =
     d\<lparr>d_nodes := (d_nodes d)(n := new_node (g_no_direct (e_graph E) n)),
       d_node_tree := snd (splay_insert node_compare n (d_node_tree d)),
       d_node_ids := snd (splay_insert (node_id_compare E) n (d_node_ids d))\<rparr>"

section \<open>The graph\<close>

definition edge_view :: "edge_store \<Rightarrow> edge_id \<Rightarrow> edge" where
  "edge_view h e =
     (let x = the (h e); r = Option.bind (eo_reverse x) h
      in \<lparr>efrom = fst e, eto = snd e, eweight = eo_weight x, eoptions = eo_options x, eaddress = eo_address x,
          elocal_address = eo_local_address x, ereverse = (r \<noteq> None),
          erev_address = (case r of None \<Rightarrow> Addr_unspec | Some y \<Rightarrow> eo_address y),
          econnection = eo_connection x,
          erev_connection = (case r of None \<Rightarrow> None | Some y \<Rightarrow> eo_connection y)\<rparr>)"

text \<open>
  What the graph algorithms read, in a state of the daemon.  The caches of the subnet table are flushed
  first (\<open>graph()\<close>), and the lookups the LAN tests make only fill them again.
\<close>

definition graph_env_of :: "denv \<Rightarrow> daemon \<Rightarrow> graph_env" where
  "graph_env_of E d =
     (let G = e_graph E; db = subnet_cache_flush_tables (d_subnets d); h = estore (d_edges d)
      in G\<lparr>g_nodes := thread (d_node_tree d),
           g_edges := \<lambda>n. map (edge_view h) (thread (edge_tree (d_edges d) n)),
           g_addr := (g_addr G)\<lparr>ae_lookup4 := \<lambda>a. fst (lookup_subnet_ipv4 a db),
             ae_lookup6 := \<lambda>a. fst (lookup_subnet_ipv6 a db),
             ae_own := map net (thread (node_subnets db (g_myself G)))\<rparr>\<rparr>)"

definition run_graph :: "denv \<Rightarrow> daemon \<Rightarrow> daemon option" where
  "run_graph E d =
     map_option (\<lambda>r. d\<lparr>d_nodes := gr_nodes r,
          d_subnets := reachability_changed (\<lambda>n. reachable (gr_nodes r n)) (d_subnets d),
          d_mst := gr_mst r, d_log := d_log d @ [Graph_events (gr_events r) (gr_device r)]\<rparr>)
       (graph (graph_env_of E d) (map (edge_view (estore (d_edges d))) (thread (edge_weight_tree (d_edges d)))) (d_nodes d))"

section \<open>Edges\<close>

definition MAX_STRING :: conv where "MAX_STRING = Take_str 2048"

record add_edge_args =
  ae_from :: name
  ae_to :: name
  ae_host :: string
  ae_port :: string
  ae_opts :: u32
  ae_weight :: int
  ae_local_host_port :: "(string \<times> string) option"

definition scan_add_edge :: "string \<Rightarrow> add_edge_args option" where
  "scan_add_edge r =
     (case fst (sscanf [Skip_dec, Skip_hex, MAX_STRING, MAX_STRING, MAX_STRING, MAX_STRING, Take_hex, Take_dec,
          MAX_STRING, MAX_STRING] r) of
        [Got_str f, Got_str t, Got_str a, Got_str p, Got_hex opts, Got_dec w] \<Rightarrow>
          Some \<lparr>ae_from = f, ae_to = t, ae_host = a, ae_port = p, ae_opts = ucast opts, ae_weight = w,
            ae_local_host_port = None\<rparr>
      | [Got_str f, Got_str t, Got_str a, Got_str p, Got_hex opts, Got_dec w, Got_str la, Got_str lp] \<Rightarrow>
          Some \<lparr>ae_from = f, ae_to = t, ae_host = a, ae_port = p, ae_opts = ucast opts, ae_weight = w,
            ae_local_host_port = Some (la, lp)\<rparr>
      | _ \<Rightarrow> None)"

text \<open>\<open>tunnelserver\<close>: what is not about this node or the neighbour is ignored.\<close>

definition indirect_edge :: "denv \<Rightarrow> mconn \<Rightarrow> name option \<Rightarrow> name option \<Rightarrow> bool" where
  "indirect_edge E c f t \<longleftrightarrow> e_tunnelserver E \<and> f \<noteq> Some (me_of E) \<and> f \<noteq> mc_node c \<and>
     t \<noteq> Some (me_of E) \<and> t \<noteq> mc_node c"

definition addr_known :: "sockaddr \<Rightarrow> bool" where
  "addr_known sa \<longleftrightarrow> sa_family sa \<noteq> 0 \<and> sa_family sa \<noteq> 255"

definition touch_lan :: "denv \<Rightarrow> name \<Rightarrow> name \<Rightarrow> daemon \<Rightarrow> daemon" where
  "touch_lan E f t d = d\<lparr>d_lan_change := (d_lan_change d)(f := now_of E, t := now_of E)\<rparr>"

definition retry_punch :: "name \<Rightarrow> daemon \<Rightarrow> daemon" where
  "retry_punch f d = d\<lparr>d_punch_backoff := (d_punch_backoff d)(f := 0)\<rparr>"

fun external_port :: "sockaddr \<Rightarrow> u16" where
  "external_port (Addr_inet a p) = p"
| "external_port (Addr_inet6 a p s) = p"
| "external_port _ = 0"

text \<open>A listening endpoint of a peer without a configured address is remembered across restarts.\<close>

definition remember_endpoint :: "denv \<Rightarrow> name \<Rightarrow> sockaddr \<Rightarrow> daemon \<Rightarrow> daemon" where
  "remember_endpoint E t sa d =
     (if t \<noteq> me_of E \<and> \<not> e_config_address E t then
        let port = external_port sa in
        if 0 < port \<and> port < 32768 \<and> \<not> g_vpn (e_graph E) sa then
          let cache = (case d_caches d t of None \<Rightarrow> open_address_cache (e_cache_file E t) | Some c \<Rightarrow> c)
          in d\<lparr>d_caches := (d_caches d)(t \<mapsto> add_recent_address (g_vpn (e_graph E)) sa cache),
               d_nodes := (d_nodes d)(t := (d_nodes d t)\<lparr>has_address := True\<rparr>)\<rparr>
        else d
      else d)"

text \<open>The part of \<open>add_edge_h\<close> that both a new and a changed edge reach.\<close>

definition add_edge_finish :: "denv \<Rightarrow> mconn \<Rightarrow> string \<Rightarrow> edge_id \<Rightarrow> daemon \<Rightarrow> (bool \<times> daemon) option" where
  "add_edge_finish E c r e d =
     (let d = remember_endpoint E (snd e) (eo_address (the (estore (d_edges d) e))) d;
          d = (if e_tunnelserver E then d else forward_request c r d)
      in map_option (\<lambda>d. (True, d)) (run_graph E d))"

definition change_edge :: "denv \<Rightarrow> edge_id \<Rightarrow> edge_obj \<Rightarrow> u32 \<Rightarrow> int \<Rightarrow> sockaddr \<Rightarrow> sockaddr \<Rightarrow> daemon \<Rightarrow> daemon" where
  "change_edge E e x opts w addr loc d =
     (let new_address = (sockaddrcmp (eo_address x) addr \<noteq> 0);
          new_local = (addr_known loc \<and> sockaddrcmp (eo_local_address x) loc \<noteq> 0);
          d = d\<lparr>d_edges := set_edge_data e opts (if new_address then addr else eo_address x)
                 (if new_local then loc else eo_local_address x) (d_edges d)\<rparr>;
          d = (if new_address \<or> new_local then retry_punch (fst e) (touch_lan E (fst e) (snd e) d) else d)
      in if eo_weight x \<noteq> w then d\<lparr>d_edges := set_edge_weight e w (d_edges d)\<rparr> else d)"

definition same_edge :: "edge_obj \<Rightarrow> u32 \<Rightarrow> int \<Rightarrow> sockaddr \<Rightarrow> sockaddr \<Rightarrow> bool" where
  "same_edge x opts w addr loc \<longleftrightarrow> eo_weight x = w \<and> eo_options x = opts \<and> sockaddrcmp (eo_address x) addr = 0 \<and>
     \<not> (addr_known loc \<and> sockaddrcmp (eo_local_address x) loc \<noteq> 0)"

text \<open>After the nodes have been found or made.\<close>

definition add_edge_nodes :: "denv \<Rightarrow> mconn \<Rightarrow> string \<Rightarrow> add_edge_args \<Rightarrow> daemon \<Rightarrow> (bool \<times> daemon) option" where
  "add_edge_nodes E c r a d =
     (let addr = str2sockaddr E (ae_host a) (ae_port a);
          loc = (case ae_local_host_port a of None \<Rightarrow> Addr_unspec | Some (h, p) \<Rightarrow> str2sockaddr E h p);
          mine = (ae_from a = me_of E)
      in case lookup_edge (ae_from a) (ae_to a) (d_edges d) of
           (Some e, db) \<Rightarrow>
             let d = d\<lparr>d_edges := db\<rparr>; x = the (estore db e) in
             if same_edge x (ae_opts a) (ae_weight a) addr loc then Some (True, d)
             else if mine then Some (True, send_add_edge E (Some (mc_id c)) e x d)
             else add_edge_finish E c r e (change_edge E e x (ae_opts a) (ae_weight a) addr loc d)
         | (None, db) \<Rightarrow>
             let d = d\<lparr>d_edges := db\<rparr>; e = (ae_from a, ae_to a) in
             if mine then Some (True, send_del_edge E (Some (mc_id c)) e
                 (d\<lparr>d_contradicting_add_edge := d_contradicting_add_edge d + 1\<rparr>))
             else
               let x = \<lparr>eo_address = addr, eo_local_address = loc, eo_options = ae_opts a, eo_weight = ae_weight a,
                     eo_connection = None, eo_reverse = None\<rparr>;
                   d = d\<lparr>d_edges := edge_add e x db\<rparr>;
                   d = (if addr_known loc then touch_lan E (ae_from a) (ae_to a) d else d)
               in add_edge_finish E c r e d)"

definition add_edge_h :: "denv \<Rightarrow> mconn \<Rightarrow> string \<Rightarrow> daemon \<Rightarrow> (bool \<times> daemon) option" where
  "add_edge_h E c r d =
     (case scan_add_edge r of
        None \<Rightarrow> Some (False, d)
      | Some a \<Rightarrow>
        if \<not> check_id (ae_from a) \<or> \<not> check_id (ae_to a) \<or> ae_from a = ae_to a then Some (False, d)
        else case seen_request E r d of
          (True, d) \<Rightarrow> Some (True, d)
        | (False, d) \<Rightarrow>
            if node_is_blocked E (ae_from a) \<or> node_is_blocked E (ae_to a) then Some (True, d)
            else
              let (f, d) = lookup_node (ae_from a) d; (t, d) = lookup_node (ae_to a) d
              in if indirect_edge E c f t then Some (True, d)
                 else
                   let d = (if f = None then node_add E (ae_from a) d else d);
                       d = (if t = None then node_add E (ae_to a) d else d)
                   in add_edge_nodes E c r a d)"

definition scan_two :: "string \<Rightarrow> (string \<times> string) option" where
  "scan_two r = (case fst (sscanf [Skip_dec, Skip_hex, MAX_STRING, MAX_STRING] r) of
     [Got_str a, Got_str b] \<Rightarrow> Some (a, b) | _ \<Rightarrow> None)"

text \<open>A node that is gone but had an edge to this one loses it.\<close>

definition drop_edge_to_me :: "denv \<Rightarrow> name \<Rightarrow> daemon \<Rightarrow> daemon" where
  "drop_edge_to_me E t d =
     (if reachable (d_nodes d t) then d
      else case lookup_edge t (me_of E) (d_edges d) of
        (None, db) \<Rightarrow> d\<lparr>d_edges := db\<rparr>
      | (Some e, db) \<Rightarrow>
          let d = d\<lparr>d_edges := db\<rparr>;
              d = (if e_tunnelserver E then d else send_del_edge E None e d)
          in d\<lparr>d_edges := edge_del e (d_edges d)\<rparr>)"

definition del_edge_nodes :: "denv \<Rightarrow> mconn \<Rightarrow> string \<Rightarrow> name \<Rightarrow> name \<Rightarrow> daemon \<Rightarrow> (bool \<times> daemon) option" where
  "del_edge_nodes E c r f t d =
     (case lookup_edge f t (d_edges d) of
        (None, db) \<Rightarrow> Some (True, d\<lparr>d_edges := db\<rparr>)
      | (Some e, db) \<Rightarrow>
          let d = d\<lparr>d_edges := db\<rparr> in
          if fst e = me_of E
          then Some (True, send_add_edge E (Some (mc_id c)) e (the (estore db e))
                 (d\<lparr>d_contradicting_del_edge := d_contradicting_del_edge d + 1\<rparr>))
          else
            let d = (if e_tunnelserver E then d else forward_request c r d);
                d = d\<lparr>d_edges := edge_del e (d_edges d)\<rparr>
            in map_option (\<lambda>d. (True, drop_edge_to_me E t d)) (run_graph E d))"

definition del_edge_h :: "denv \<Rightarrow> mconn \<Rightarrow> string \<Rightarrow> daemon \<Rightarrow> (bool \<times> daemon) option" where
  "del_edge_h E c r d =
     (case scan_two r of
        None \<Rightarrow> Some (False, d)
      | Some (f_name, t_name) \<Rightarrow>
        if \<not> check_id f_name \<or> \<not> check_id t_name \<or> f_name = t_name then Some (False, d)
        else case seen_request E r d of
          (True, d) \<Rightarrow> Some (True, d)
        | (False, d) \<Rightarrow>
            if node_is_blocked E f_name \<or> node_is_blocked E t_name then Some (True, d)
            else
              let (f, d) = lookup_node f_name d; (t, d) = lookup_node t_name d
              in if indirect_edge E c f t then Some (True, d)
                 else case (f, t) of
                   (Some f, Some t) \<Rightarrow> del_edge_nodes E c r f t d
                 | _ \<Rightarrow> Some (True, d))"

section \<open>Subnets\<close>

definition ignored_subnet :: "denv \<Rightarrow> mconn \<Rightarrow> name option \<Rightarrow> bool" where
  "ignored_subnet E c n \<longleftrightarrow> e_tunnelserver E \<and> n \<noteq> Some (me_of E) \<and> n \<noteq> mc_node c"

text \<open>A MAC address that has moved to another node expires here.\<close>

definition hand_off_mac :: "denv \<Rightarrow> subnet \<Rightarrow> daemon \<Rightarrow> daemon" where
  "hand_off_mac E s d =
     (case net s of
        Mac a \<Rightarrow> (case lookup_subnet (me_of E) s (d_subnets d) of
            (None, db) \<Rightarrow> d\<lparr>d_subnets := db\<rparr>
          | (Some old, db) \<Rightarrow> d\<lparr>d_subnets := db,
              d_expires := (if d_expires d old \<noteq> 0 then (d_expires d)(old := 1) else d_expires d)\<rparr>)
      | _ \<Rightarrow> d)"

definition add_subnet_owner :: "denv \<Rightarrow> mconn \<Rightarrow> string \<Rightarrow> name \<Rightarrow> subnet \<Rightarrow> daemon \<Rightarrow> bool \<times> daemon" where
  "add_subnet_owner E c r n s d =
     (case lookup_subnet n s (d_subnets d) of
        (Some _, db) \<Rightarrow> (True, d\<lparr>d_subnets := db\<rparr>)
      | (None, db) \<Rightarrow>
          let d = d\<lparr>d_subnets := db\<rparr> in
          if n = me_of E then (True, send_del_subnet E (Some (mc_id c)) n s d)
          else if e_tunnelserver E then (True, d)
          else if e_strictsubnets E then (True, forward_request c r d)
          else
            let d = d\<lparr>d_subnets := subnet_add (Some n) s (d_subnets d)\<rparr>;
                d = (if reachable (d_nodes d n) then d\<lparr>d_log := d_log d @ [Subnet_script n s True]\<rparr> else d);
                d = forward_request c r d
            in (True, hand_off_mac E s d))"

definition add_subnet_h :: "denv \<Rightarrow> mconn \<Rightarrow> string \<Rightarrow> daemon \<Rightarrow> (bool \<times> daemon) option" where
  "add_subnet_h E c r d =
     (case scan_two r of
        None \<Rightarrow> Some (False, d)
      | Some (n, subnetstr) \<Rightarrow>
        if \<not> check_id n then Some (False, d)
        else case str2net (e_inet E) subnetstr of
          None \<Rightarrow> Some (False, d)
        | Some s \<Rightarrow>
          case seen_request E r d of
            (True, d) \<Rightarrow> Some (True, d)
          | (False, d) \<Rightarrow>
              if node_is_blocked E n then Some (True, d)
              else
                let (ow, d) = lookup_node n d
                in if ignored_subnet E c ow then Some (True, d)
                   else case ow of
                     Some n \<Rightarrow> Some (add_subnet_owner E c r n s d)
                   | None \<Rightarrow>
                       if e_tunnelserver E then Some (True, d)
                       else if e_strictsubnets E then Some (True, forward_request c r d)
                       else Some (add_subnet_owner E c r n s (node_add E n d)))"

definition del_subnet_owner :: "denv \<Rightarrow> mconn \<Rightarrow> string \<Rightarrow> name \<Rightarrow> subnet \<Rightarrow> daemon \<Rightarrow> bool \<times> daemon" where
  "del_subnet_owner E c r n s d =
     (case lookup_subnet n (s\<lparr>owner := Some n\<rparr>) (d_subnets d) of
        (None, db) \<Rightarrow>
          let d = d\<lparr>d_subnets := db\<rparr>
          in (True, if e_strictsubnets E then forward_request c r d else d)
      | (Some old, db) \<Rightarrow>
          let d = d\<lparr>d_subnets := db\<rparr> in
          if n = me_of E then (True, send_add_subnet E (Some (mc_id c)) n old d)
          else if e_tunnelserver E then (True, d)
          else
            let d = forward_request c r d in
            if e_strictsubnets E then (True, d)
            else
              let d = (if reachable (d_nodes d n) then d\<lparr>d_log := d_log d @ [Subnet_script n old False]\<rparr> else d)
              in (True, d\<lparr>d_subnets := subnet_del (Some n) old (d_subnets d)\<rparr>))"

definition del_subnet_h :: "denv \<Rightarrow> mconn \<Rightarrow> string \<Rightarrow> daemon \<Rightarrow> (bool \<times> daemon) option" where
  "del_subnet_h E c r d =
     (case scan_two r of
        None \<Rightarrow> Some (False, d)
      | Some (n, subnetstr) \<Rightarrow>
        if \<not> check_id n then Some (False, d)
        else case str2net (e_inet E) subnetstr of
          None \<Rightarrow> Some (False, d)
        | Some s \<Rightarrow>
          case seen_request E r d of
            (True, d) \<Rightarrow> Some (True, d)
          | (False, d) \<Rightarrow>
              if node_is_blocked E n then Some (True, d)
              else
                let (ow, d) = lookup_node n d
                in if ignored_subnet E c ow then Some (True, d)
                   else case ow of
                     None \<Rightarrow> Some (True, d)
                   | Some n \<Rightarrow> Some (del_subnet_owner E c r n s d))"

section \<open>Dispatch\<close>

type_synonym handler = "denv \<Rightarrow> mconn \<Rightarrow> string \<Rightarrow> daemon \<Rightarrow> (bool \<times> daemon) option"

text \<open>
  The table of handlers.  The handlers that are not modelled here are the parameter \<open>other\<close>; the entries 5,
  6, 19 and 20 are null.
\<close>

definition is_valid_request :: "int \<Rightarrow> bool" where
  "is_valid_request req \<longleftrightarrow> -1 < req \<and> req < 25"

definition request_handler :: "(int \<Rightarrow> handler) \<Rightarrow> int \<Rightarrow> handler option" where
  "request_handler other req =
     (if \<not> is_valid_request req \<or> req \<in> {5, 6, 19, 20} then None
      else if req = 10 then Some add_subnet_h else if req = 11 then Some del_subnet_h
      else if req = 12 then Some add_edge_h else if req = 13 then Some del_edge_h else Some (other req))"

definition lower :: "string \<Rightarrow> string" where
  "lower s = map (\<lambda>c. if c_isupper c then char_of (char_code c + 32) else c) s"

definition proxy_reply :: "denv \<Rightarrow> mconn \<Rightarrow> string \<Rightarrow> bool option" where
  "proxy_reply E c r =
     (if mc_outgoing c \<and> e_http_proxy E \<and> mc_allow c = 0 then
        if r = [] \<or> hd r = CHR 0x0D then Some True
        else if lower (take 9 r) = ''http/1.1 '' then Some (take 3 (drop 9 r) = ''200'') else None
      else None)"

definition set_verified :: "mconn \<Rightarrow> daemon \<Rightarrow> daemon" where
  "set_verified c d =
     d\<lparr>d_conns := map (\<lambda>x. if mc_id x = mc_id c \<and> mc_active x then x\<lparr>mc_verified := True\<rparr> else x) (d_conns d)\<rparr>"

definition receive_request :: "(int \<Rightarrow> handler) \<Rightarrow> handler" where
  "receive_request other E c r d =
     (case proxy_reply E c r of
        Some b \<Rightarrow> Some (b, d)
      | None \<Rightarrow>
        let reqno = atoi r in
        if reqno = 0 \<and> take 1 r \<noteq> ''0'' then Some (False, d)
        else case request_handler other reqno of
          None \<Rightarrow> Some (False, d)
        | Some h \<Rightarrow>
            if mc_allow c \<noteq> -1 \<and> mc_allow c \<noteq> reqno then Some (False, d)
            else h E c r (if mc_active c then set_verified c d else d))"

end
