(* ===== verification/GossipProps.thy ===== *)
theory GossipProps
  imports Gossip
begin

text \<open>
  What the gossip handlers guarantee, whatever text arrives: they never abort and keep the daemon's
  tables consistent (\<open>daemon_inv\<close>, which composes the invariants of the components), they never touch
  what belongs to this node, and a request has an effect at most once.

  The relation \<open>keeps\<close> collects what every operation preserves, so that a handler is a chain of
  operations and its proof a chain of \<open>keeps\<close>.
\<close>

section \<open>The tables of the daemon\<close>

lemma comparator_names: "comparator node_compare UNIV"
  unfolding node_compare_def by (rule strcmp.comparator_axioms)

interpretation names: comparator node_compare UNIV
  by (rule comparator_names)

lemma comparator_past: "comparator past_request_compare UNIV"
  unfolding past_request_compare_def by (rule comparator_inj [OF strcmp.comparator_axioms]) simp

interpretation past: comparator past_request_compare UNIV
  by (rule comparator_past)

abbreviation nodes_of :: "daemon \<Rightarrow> name set" where
  "nodes_of d \<equiv> set (thread (d_node_tree d))"

definition requests_of :: "daemon \<Rightarrow> past_request set" where
  "requests_of d = set (thread (d_requests d))"

definition subnets_of :: "daemon \<Rightarrow> subnet list" where
  "subnets_of d = thread (subnet_tree (d_subnets d))"

definition daemon_inv :: "(net \<times> int) set \<Rightarrow> denv \<Rightarrow> daemon \<Rightarrow> bool" where
  "daemon_inv B E d \<longleftrightarrow>
     splay_wf node_compare UNIV (d_node_tree d) \<and> me_of E \<in> nodes_of d \<and>
     splay_wf past_request_compare UNIV (d_requests d) \<and>
     edges_ok (d_edges d) \<and>
     (\<forall>e\<in>dom (estore (d_edges d)). fst e \<in> nodes_of d \<and> snd e \<in> nodes_of d \<and> fst e \<noteq> snd e) \<and>
     db_ok B (d_subnets d) \<and> (\<forall>s\<in>set (subnets_of d). \<forall>n. owner s = Some n \<longrightarrow> n \<in> nodes_of d) \<and>
     {v. visited (d_nodes d v)} \<subseteq> nodes_of d"

text \<open>What this node owns: its edges, and its subnets.\<close>

definition own_part :: "name \<Rightarrow> edge_store \<Rightarrow> edge_store" where
  "own_part n m = m |` {e. fst e = n}"

definition own_view :: "denv \<Rightarrow> daemon \<Rightarrow> edge_store \<times> subnet list" where
  "own_view E d = (own_part (me_of E) (edge_data (d_edges d)), filter (owned_by (me_of E)) (subnets_of d))"

definition keeps :: "(net \<times> int) set \<Rightarrow> denv \<Rightarrow> daemon \<Rightarrow> daemon \<Rightarrow> bool" where
  "keeps B E d d' \<longleftrightarrow> daemon_inv B E d' \<and> own_view E d' = own_view E d \<and> requests_of d \<subseteq> requests_of d' \<and>
     nodes_of d \<subseteq> nodes_of d' \<and> (\<exists>l. d_log d' = d_log d @ l)"

lemma keeps_refl: "daemon_inv B E d \<Longrightarrow> keeps B E d d"
  by (simp add: keeps_def)

lemma keeps_trans: "keeps B E d d' \<Longrightarrow> keeps B E d' d'' \<Longrightarrow> keeps B E d d''"
  by (fastforce simp: keeps_def)

lemma keeps_inv: "keeps B E d d' \<Longrightarrow> daemon_inv B E d'"
  by (simp add: keeps_def)

text \<open>Fields that no invariant reads.\<close>

lemma keeps_frame:
  assumes "daemon_inv B E d" "d_node_tree d' = d_node_tree d" "d_nodes d' = d_nodes d" "d_edges d' = d_edges d"
    "d_subnets d' = d_subnets d" "d_requests d' = d_requests d" "d_log d' = d_log d @ l"
  shows "keeps B E d d'"
  using assms by (auto simp: keeps_def daemon_inv_def own_view_def requests_of_def subnets_of_def)

lemma keeps_broadcast: "daemon_inv B E d \<Longrightarrow> keeps B E d (broadcast_meta f t d)"
  by (rule keeps_frame) (auto simp: broadcast_meta_def)

lemma keeps_send_request: "daemon_inv B E d \<Longrightarrow> keeps B E d (send_request c t d)"
  using keeps_broadcast [of B E d None t]
  by (auto simp: send_request_def keeps_refl split: option.split intro: keeps_frame)

lemma keeps_draw: "daemon_inv B E d \<Longrightarrow> keeps B E d (snd (draw E d))"
  by (rule keeps_frame) (auto simp: draw_def)

lemma keeps_sends:
  assumes "daemon_inv B E d"
  shows "keeps B E d (send_add_edge E c e x d)" "keeps B E d (send_del_edge E c e d)"
    "keeps B E d (send_add_subnet E c n s d)" "keeps B E d (send_del_subnet E c n s d)"
    "keeps B E d (forward_request k r d)"
proof -
  note draw = keeps_draw [OF assms]
  have "keeps B E d (send_request c t (snd (draw E d)))" for t
    by (rule keeps_trans [OF draw keeps_send_request [OF keeps_inv [OF draw]]])
  then show "keeps B E d (send_add_edge E c e x d)" "keeps B E d (send_del_edge E c e d)"
    "keeps B E d (send_add_subnet E c n s d)" "keeps B E d (send_del_subnet E c n s d)"
    by (simp_all add: send_add_edge_def send_del_edge_def send_add_subnet_def send_del_subnet_def case_prod_beta
        del: spaced.simps)
  show "keeps B E d (forward_request k r d)" unfolding forward_request_def by (rule keeps_broadcast [OF assms])
qed

subsection \<open>Requests\<close>

definition remembered :: "string \<Rightarrow> daemon \<Rightarrow> bool" where
  "remembered r d \<longleftrightarrow> (\<exists>p\<in>requests_of d. request p = r)"

lemma past_0: "past_request_compare p q = 0 \<longleftrightarrow> request p = request q"
  by (simp add: past_request_compare_def)

lemma past_search:
  "(ol_search past_request_compare \<lparr>request = r, firstseen = t\<rparr> ps = None) \<longleftrightarrow> (\<forall>p\<in>set ps. request p \<noteq> r)"
  by (auto simp: ol_search_None_iff past_0)

lemma seen_request_ok:
  assumes "daemon_inv B E d"
  shows "fst (seen_request E r d) \<longleftrightarrow> remembered r d" "keeps B E d (snd (seen_request E r d))"
    "remembered r (snd (seen_request E r d))"
    "requests_of (snd (seen_request E r d)) = requests_of d \<union> (if remembered r d then {} else {\<lparr>request = r, firstseen = now_of E\<rparr>})"
    "d_log (snd (seen_request E r d)) = d_log d"
proof -
  let ?p = "\<lparr>request = r, firstseen = 0\<rparr>" and ?q = "\<lparr>request = r, firstseen = now_of E\<rparr>"
  have wf: "splay_wf past_request_compare UNIV (d_requests d)" using assms by (simp add: daemon_inv_def)
  obtain q t where qt: "splay_search past_request_compare ?p (d_requests d) = (q, t)"
    by (cases "splay_search past_request_compare ?p (d_requests d)")
  have t: "thread t = thread (d_requests d)" "splay_wf past_request_compare UNIV t"
    and q: "q = ol_search past_request_compare ?p (thread (d_requests d))"
    using past.splay.search_contents [OF wf UNIV_I, of ?p] past.splay.search_valid [OF wf UNIV_I, of ?p]
      past.splay.search_result [OF wf UNIV_I, of ?p] qt by simp_all
  have none: "q = None \<longleftrightarrow> \<not> remembered r d" by (auto simp: q past_search remembered_def requests_of_def)
  let ?u = "snd (splay_insert past_request_compare ?q t)"
  have u: "set (thread ?u) = insert ?q (set (thread t))" "splay_wf past_request_compare UNIV ?u" if "q = None"
  proof -
    have "ol_search past_request_compare ?q (thread t) = None"
      using that q past_search [of r 0 "thread t"] past_search [of r "now_of E" "thread t"] t(1) by simp
    from past.set_ol_insert [OF _ UNIV_I past.splay.contents_sorted [OF t(2)] this]
    show "set (thread ?u) = insert ?q (set (thread t))"
      using past.splay.insert_contents [OF t(2) UNIV_I, of ?q] by simp
    show "splay_wf past_request_compare UNIV ?u" by (rule past.splay.insert_valid [OF t(2) UNIV_I])
  qed
  let ?d = "snd (seen_request E r d)"
  have d: "?d = d\<lparr>d_requests := if q = None then ?u else t, d_request_timer := q = None \<or> d_request_timer d\<rparr>"
    by (cases q) (simp_all add: seen_request_def qt)
  show "fst (seen_request E r d) \<longleftrightarrow> remembered r d"
    using none by (cases q) (simp_all add: seen_request_def qt)
  show req: "requests_of ?d = requests_of d \<union> (if remembered r d then {} else {?q})"
    using none u(1) t(1) unfolding d by (auto simp: requests_of_def)
  show "d_log ?d = d_log d" by (simp add: d)
  show "remembered r ?d" unfolding remembered_def req by (auto simp: remembered_def)
  have "splay_wf past_request_compare UNIV (d_requests ?d)" using u(2) t(2) by (simp add: d)
  moreover have "d_node_tree ?d = d_node_tree d" "d_nodes ?d = d_nodes d" "d_edges ?d = d_edges d"
    "d_subnets ?d = d_subnets d" "d_log ?d = d_log d" "requests_of d \<subseteq> requests_of ?d"
    using req by (simp_all add: d)
  ultimately show "keeps B E d ?d"
    using assms unfolding keeps_def daemon_inv_def own_view_def subnets_of_def by simp
qed

subsection \<open>Nodes\<close>

lemma names_search: "ol_search node_compare n ns = (if n \<in> set ns then Some n else None)"
  by (rule ol_search_id) (simp add: node_compare_def)

lemma lookup_node_ok:
  assumes "daemon_inv B E d"
  shows "fst (lookup_node n d) = (if n \<in> nodes_of d then Some n else None)" "keeps B E d (snd (lookup_node n d))"
    "nodes_of (snd (lookup_node n d)) = nodes_of d" "requests_of (snd (lookup_node n d)) = requests_of d"
    "d_log (snd (lookup_node n d)) = d_log d"
proof -
  have wf: "splay_wf node_compare UNIV (d_node_tree d)" using assms by (simp add: daemon_inv_def)
  note s = names.splay.search_contents [OF wf UNIV_I, of n] names.splay.search_valid [OF wf UNIV_I, of n]
    names.splay.search_result [OF wf UNIV_I, of n]
  have d: "snd (lookup_node n d) = d\<lparr>d_node_tree := snd (splay_search node_compare n (d_node_tree d))\<rparr>"
    by (simp add: lookup_node_def case_prod_beta)
  show "fst (lookup_node n d) = (if n \<in> nodes_of d then Some n else None)"
    using s(3) by (simp add: lookup_node_def case_prod_beta names_search)
  show "nodes_of (snd (lookup_node n d)) = nodes_of d" using s(1) by (simp add: d)
  show "requests_of (snd (lookup_node n d)) = requests_of d" by (simp add: d requests_of_def)
  show "d_log (snd (lookup_node n d)) = d_log d" by (simp add: d)
  show "keeps B E d (snd (lookup_node n d))"
    using assms s(1,2) unfolding keeps_def daemon_inv_def own_view_def subnets_of_def requests_of_def d by simp
qed

lemma node_add_ok:
  assumes "daemon_inv B E d"
  shows "keeps B E d (node_add E n d)" "nodes_of (node_add E n d) = insert n (nodes_of d)"
    "requests_of (node_add E n d) = requests_of d" "d_edges (node_add E n d) = d_edges d"
proof -
  have wf: "splay_wf node_compare UNIV (d_node_tree d)" using assms by (simp add: daemon_inv_def)
  let ?t = "snd (splay_insert node_compare n (d_node_tree d))"
  have set: "set (thread ?t) = insert n (nodes_of d)"
  proof (cases "n \<in> nodes_of d")
    case True
    then have "\<not> fst (splay_insert node_compare n (d_node_tree d))"
      using names.splay.insert_result [OF wf UNIV_I, of n] by (simp add: names_search)
    with names.splay.insert_refused [OF wf UNIV_I] True show ?thesis by auto
  next
    case False
    then have "ol_search node_compare n (thread (d_node_tree d)) = None" by (simp add: names_search)
    from names.set_ol_insert [OF _ UNIV_I names.splay.contents_sorted [OF wf] this]
    show ?thesis using names.splay.insert_contents [OF wf UNIV_I, of n] by simp
  qed
  moreover have "splay_wf node_compare UNIV ?t" by (rule names.splay.insert_valid [OF wf UNIV_I])
  moreover have "\<not> visited (new_node b)" for b by (simp add: new_node_def)
  ultimately show "keeps B E d (node_add E n d)"
    using assms unfolding keeps_def daemon_inv_def own_view_def subnets_of_def requests_of_def node_add_def by auto
  show "nodes_of (node_add E n d) = insert n (nodes_of d)" using set by (simp add: node_add_def)
qed (simp_all add: node_add_def requests_of_def)

subsection \<open>The graph\<close>

lemma graph_env_simps [simp]:
  "g_nodes (graph_env_of E d) = thread (d_node_tree d)"
  "g_myself (graph_env_of E d) = me_of E"
  "g_edges (graph_env_of E d) = (\<lambda>n. map (edge_view (estore (d_edges d))) (thread (edge_tree (d_edges d) n)))"
  by (simp_all add: graph_env_of_def Let_def)

lemma edge_view_simps [simp]: "efrom (edge_view h e) = fst e" "eto (edge_view h e) = snd e"
  by (simp_all add: edge_view_def Let_def)

lemma names_distinct: "splay_wf node_compare UNIV t \<Longrightarrow> distinct (thread t)"
  using names.sorted_distinct [of "thread t"] names.splay.contents_sorted by blast

lemma tree_edges:
  assumes "edges_ok db" "e \<in> set (thread (edge_tree db n))"
  shows "fst e = n" "e \<in> dom (estore db)"
proof -
  have ok: "trees_ok (edge_tree db) (dom (estore db))" using assms(1) by (simp add: edges_ok_def)
  then have "splay_wf edge_compare (out_edges n) (edge_tree db n)" unfolding trees_ok_def by blast
  from out.splay.contents_subset [OF this] assms(2) show n: "fst e = n" by (auto simp: out_edges_def)
  then have "e \<in> set (thread (edge_tree db (fst e)))" using assms(2) by simp
  with ok show "e \<in> dom (estore db)" unfolding trees_ok_def by blast
qed

lemma graph_env_ok:
  assumes "daemon_inv B E d"
  shows "graph_ok (graph_env_of E d)"
proof -
  have "eto e \<in> nodes_of d" if "e \<in> set (map (edge_view (estore (d_edges d))) (thread (edge_tree (d_edges d) n)))" for n e
  proof -
    note mem = that
    obtain f where f: "e = edge_view (estore (d_edges d)) f" "f \<in> set (thread (edge_tree (d_edges d) n))"
      using mem unfolding set_map by (rule imageE)
    then have "f \<in> dom (estore (d_edges d))" using assms tree_edges by (simp add: daemon_inv_def)
    with assms f(1) show ?thesis by (simp add: daemon_inv_def)
  qed
  then show ?thesis
    using assms names_distinct unfolding graph_ok_def by (simp add: daemon_inv_def)
qed

lemma usable_in_nodes:
  assumes "graph_ok G" "(g_myself G, v) \<in> (usable G nd)\<^sup>*"
  shows "v \<in> set (g_nodes G)"
  using assms(2)
proof (cases rule: rtranclE)
  case base
  with assms(1) show ?thesis by (simp add: graph_ok_def)
next
  case (step u)
  with assms(1) show ?thesis by (auto simp: usable_def graph_ok_def)
qed

lemma graph_returns:
  assumes G: "graph_ok G" and out: "{v. visited (st v)} \<subseteq> set (g_nodes G)"
  shows "\<exists>r. graph G ws st = Some r \<and> {v. visited (gr_nodes r v)} \<subseteq> set (g_nodes G)"
proof -
  obtain s1 s X where s: "sssp_bfs G st = Some s" "nodes_inv G (\<lambda>v. no_direct (st v)) s1"
    "queue_inv G (\<lambda>v. no_direct (st v)) X s1 []" "\<forall>v. visited (s v) = visited (s1 v)"
    using sssp_bfs_returns [OF assms] by blast
  have vis: "v \<in> set (g_nodes G)" if "visited (s v)" for v
    using usable_in_nodes [OF G] visited_iff_reachable [OF s(2,3)] s(4) that by blast
  obtain r where r: "graph G ws st = Some r" using s(1) by (simp add: graph_def)
  have "distinct (g_nodes G)" using G by (simp add: graph_ok_def)
  then have "v \<in> set (g_nodes G)" if "visited (gr_nodes r v)" for v
    using that vis r s(1)
    by (auto simp: graph_def check_reachability_def Let_def update_nodes_apply split: if_splits)
  with r show ?thesis by blast
qed

lemma run_graph_ok:
  assumes "daemon_inv B E d"
  shows "\<exists>d'. run_graph E d = Some d' \<and> keeps B E d d' \<and> d_edges d' = d_edges d"
proof -
  let ?ws = "map (edge_view (estore (d_edges d))) (thread (edge_weight_tree (d_edges d)))"
  obtain r where r: "graph (graph_env_of E d) (map (edge_view (estore (d_edges d))) (thread (edge_weight_tree (d_edges d))))
      (d_nodes d) = Some r" and vis: "{v. visited (gr_nodes r v)} \<subseteq> nodes_of d"
    using graph_returns [OF graph_env_ok [OF assms], of "d_nodes d" ?ws] assms by (auto simp: daemon_inv_def)
  have "db_ok B (d_subnets d)" using assms by (simp add: daemon_inv_def)
  from reachability_changed_ok [OF this, of "\<lambda>n. reachable (gr_nodes r n)"]
  have db: "db_ok B (reachability_changed (\<lambda>n. reachable (gr_nodes r n)) (d_subnets d))"
    "thread (subnet_tree (reachability_changed (\<lambda>n. reachable (gr_nodes r n)) (d_subnets d))) =
      thread (subnet_tree (d_subnets d))"
    by (simp_all add: db_abs_def)
  with assms vis show ?thesis
    unfolding run_graph_def r keeps_def daemon_inv_def own_view_def subnets_of_def requests_of_def by simp
qed

subsection \<open>Changes of the edge table\<close>

lemma keeps_edges:
  assumes "daemon_inv B E d" "edges_ok db"
    and dom: "dom (edge_data db) \<subseteq> dom (edge_data (d_edges d)) \<union> {e. fst e \<in> nodes_of d \<and> snd e \<in> nodes_of d \<and> fst e \<noteq> snd e}"
    and own: "own_part (me_of E) (edge_data db) = own_part (me_of E) (edge_data (d_edges d))"
  shows "keeps B E d (d\<lparr>d_edges := db\<rparr>)"
proof -
  have "\<forall>e\<in>dom (estore db). fst e \<in> nodes_of d \<and> snd e \<in> nodes_of d \<and> fst e \<noteq> snd e"
    using assms(1) dom unfolding daemon_inv_def dom_edge_data by blast
  then show ?thesis
    using assms(1,2) own unfolding keeps_def daemon_inv_def own_view_def subnets_of_def requests_of_def by simp
qed

lemma own_part_other [simp]: "fst e \<noteq> n \<Longrightarrow> own_part n (m(e := v)) = own_part n m"
  by (auto simp: own_part_def restrict_map_def fun_eq_iff)

lemma inv_edges: "daemon_inv B E d \<Longrightarrow> edges_ok (d_edges d)"
  by (simp add: daemon_inv_def)

lemma inv_edge_nodes: "daemon_inv B E d \<Longrightarrow> e \<in> dom (estore (d_edges d)) \<Longrightarrow>
    fst e \<in> nodes_of d \<and> snd e \<in> nodes_of d \<and> fst e \<noteq> snd e"
  by (simp add: daemon_inv_def)

lemma keeps_lookup_edge:
  assumes "daemon_inv B E d" "lookup_edge a b (d_edges d) = (r, db)"
  shows "keeps B E d (d\<lparr>d_edges := db\<rparr>)" "r = (if (a, b) \<in> dom (estore (d_edges d)) then Some (a, b) else None)"
    "estore db = estore (d_edges d)"
proof -
  note ok = lookup_edge_ok [OF inv_edges [OF assms(1)], of a b, unfolded assms(2) fst_conv snd_conv]
  show "r = (if (a, b) \<in> dom (estore (d_edges d)) then Some (a, b) else None)" "estore db = estore (d_edges d)"
    by (fact ok(1), fact ok(3))
  have "edge_data db = edge_data (d_edges d)" using ok(3) by (simp add: edge_data_def)
  then show "keeps B E d (d\<lparr>d_edges := db\<rparr>)" using ok(2) by (intro keeps_edges [OF assms(1)]) auto
qed

lemma keeps_edge_add:
  assumes "daemon_inv B E d" "eo_weight x \<in> small_int" "fst e \<noteq> me_of E" "fst e \<in> nodes_of d" "snd e \<in> nodes_of d" "fst e \<noteq> snd e"
  shows "keeps B E d (d\<lparr>d_edges := edge_add e x (d_edges d)\<rparr>)"
proof (rule keeps_edges [OF assms(1)])
  note ok = edge_add_ok [OF inv_edges [OF assms(1)] assms(2), of e]
  show "edges_ok (edge_add e x (d_edges d))" using ok ..
  show "dom (edge_data (edge_add e x (d_edges d)))
      \<subseteq> dom (edge_data (d_edges d)) \<union> {e. fst e \<in> nodes_of d \<and> snd e \<in> nodes_of d \<and> fst e \<noteq> snd e}"
    using ok assms(4-6) by (auto split: if_splits)
  show "own_part (me_of E) (edge_data (edge_add e x (d_edges d))) = own_part (me_of E) (edge_data (d_edges d))"
    using ok assms(3) by simp
qed

lemma keeps_edge_del:
  assumes "daemon_inv B E d" "e \<in> dom (estore (d_edges d))" "fst e \<noteq> me_of E"
  shows "keeps B E d (d\<lparr>d_edges := edge_del e (d_edges d)\<rparr>)"
  using edge_del_ok [OF inv_edges [OF assms(1)] assms(2)] assms(3)
  by (intro keeps_edges [OF assms(1)]) auto

lemma keeps_set_edge_data:
  assumes "daemon_inv B E d" "e \<in> dom (estore (d_edges d))" "fst e \<noteq> me_of E"
  shows "keeps B E d (d\<lparr>d_edges := set_edge_data e opts addr loc (d_edges d)\<rparr>)"
  using set_edge_data_ok [OF inv_edges [OF assms(1)] assms(2), of opts addr loc] assms(2,3)
  by (intro keeps_edges [OF assms(1)]) (auto split: if_splits simp: dom_edge_data [symmetric] simp del: dom_edge_data)

lemma keeps_set_edge_weight:
  assumes "daemon_inv B E d" "e \<in> dom (estore (d_edges d))" "fst e \<noteq> me_of E" "w \<in> small_int"
  shows "keeps B E d (d\<lparr>d_edges := set_edge_weight e w (d_edges d)\<rparr>)"
  using set_edge_weight_ok [OF inv_edges [OF assms(1)] assms(2,4)] assms(2,3)
  by (intro keeps_edges [OF assms(1)]) (auto split: if_splits simp: dom_edge_data [symmetric] simp del: dom_edge_data)

lemma dom_set_edge_data [simp]: "dom (estore (set_edge_data e opts addr loc db)) = dom (estore db)"
  by (auto simp: set_edge_data_def split: if_splits)

section \<open>The edge handlers\<close>

text \<open>The handler returns, and what it did is kept.\<close>

definition handled :: "(net \<times> int) set \<Rightarrow> denv \<Rightarrow> daemon \<Rightarrow> (bool \<times> daemon) option \<Rightarrow> bool" where
  "handled B E d r \<longleftrightarrow> (\<exists>b d'. r = Some (b, d') \<and> keeps B E d d')"

lemma handled_Some [simp]: "handled B E d (Some (b, d')) \<longleftrightarrow> keeps B E d d'"
  by (simp add: handled_def)

text \<open>
  A handler refuses its request before it looks at its memory, or ignores a request that it remembers, or
  remembers the request and does its work.
\<close>

definition processed :: "(net \<times> int) set \<Rightarrow> denv \<Rightarrow> string \<Rightarrow> daemon \<Rightarrow> (bool \<times> daemon) option \<Rightarrow> bool" where
  "processed B E r d q \<longleftrightarrow> q = Some (False, d) \<or>
     (if fst (seen_request E r d) then q = Some (True, snd (seen_request E r d))
      else handled B E (snd (seen_request E r d)) q)"

lemma processed_refused [simp]: "processed B E r d (Some (False, d))"
  by (simp add: processed_def)

lemma processedI: "seen_request E r d = (b, d1) \<Longrightarrow> handled B E d1 q \<Longrightarrow>
    processed B E r d (if bad then Some (False, d) else if b then Some (True, d1) else q)"
  by (simp add: processed_def)

lemma handled_after: "keeps B E d d' \<Longrightarrow> handled B E d' r \<Longrightarrow> handled B E d r"
  by (auto simp: handled_def intro: keeps_trans)

lemma keeps_remember_endpoint: "daemon_inv B E d \<Longrightarrow> keeps B E d (remember_endpoint E t sa d)"
  by (auto simp: remember_endpoint_def Let_def keeps_def daemon_inv_def own_view_def subnets_of_def requests_of_def)

lemma keeps_forward: "daemon_inv B E d \<Longrightarrow> keeps B E d (if q then d else forward_request c r d)"
  using keeps_refl keeps_sends(5) by simp

lemma add_edge_finish_ok:
  assumes "daemon_inv B E d"
  shows "handled B E d (add_edge_finish E c r e d)"
proof -
  let ?d1 = "remember_endpoint E (snd e) (eo_address (the (estore (d_edges d) e))) d"
  let ?d2 = "if e_tunnelserver E then ?d1 else forward_request c r ?d1"
  have k1: "keeps B E d ?d1" by (rule keeps_remember_endpoint [OF assms])
  have k2: "keeps B E d ?d2" by (rule keeps_trans [OF k1 keeps_forward [OF keeps_inv [OF k1]]])
  from run_graph_ok [OF keeps_inv [OF k2]] obtain d' where "run_graph E ?d2 = Some d'" "keeps B E ?d2 d'" by blast
  then show ?thesis using keeps_trans [OF k2] by (simp add: add_edge_finish_def Let_def)
qed

lemma keeps_touch: "daemon_inv B E d \<Longrightarrow> keeps B E d (touch_lan E f t d)" "daemon_inv B E d \<Longrightarrow> keeps B E d (retry_punch f d)"
  by (rule keeps_frame [where l = "[]"]; simp add: touch_lan_def retry_punch_def)+

lemma change_edge_ok:
  assumes d: "daemon_inv B E d" "e \<in> dom (estore (d_edges d))" and me: "fst e \<noteq> me_of E" and w: "w \<in> small_int"
  shows "keeps B E d (change_edge E e x opts w addr loc d)"
proof -
  define a where "a = (if sockaddrcmp (eo_address x) addr \<noteq> 0 then addr else eo_address x)"
  define l where "l = (if addr_known loc \<and> sockaddrcmp (eo_local_address x) loc \<noteq> 0 then loc else eo_local_address x)"
  define q where "q \<longleftrightarrow> sockaddrcmp (eo_address x) addr \<noteq> 0 \<or> addr_known loc \<and> sockaddrcmp (eo_local_address x) loc \<noteq> 0"
  let ?d1 = "d\<lparr>d_edges := set_edge_data e opts a l (d_edges d)\<rparr>"
  let ?d2 = "if q then retry_punch (fst e) (touch_lan E (fst e) (snd e) ?d1) else ?d1"
  have k1: "keeps B E d ?d1" by (rule keeps_set_edge_data [OF d me])
  have "keeps B E ?d1 (retry_punch (fst e) (touch_lan E (fst e) (snd e) ?d1))"
    using keeps_touch keeps_inv [OF k1] by (blast intro: keeps_trans keeps_inv)
  then have k2: "keeps B E d ?d2" using keeps_trans [OF k1] k1 by simp
  have "dom (estore (d_edges ?d2)) = dom (estore (d_edges d))" by (simp add: touch_lan_def retry_punch_def)
  with d(2) have "keeps B E ?d2 (?d2\<lparr>d_edges := set_edge_weight e w (d_edges ?d2)\<rparr>)"
    by (intro keeps_set_edge_weight [OF keeps_inv [OF k2] _ me w]) simp
  then have "keeps B E d (if eo_weight x \<noteq> w then ?d2\<lparr>d_edges := set_edge_weight e w (d_edges ?d2)\<rparr> else ?d2)"
    using k2 keeps_trans [OF k2] by simp
  then show ?thesis by (simp only: change_edge_def Let_def a_def l_def q_def)
qed

lemma add_edge_nodes_ok:
  assumes d: "daemon_inv B E d" and n: "ae_from a \<in> nodes_of d" "ae_to a \<in> nodes_of d" "ae_from a \<noteq> ae_to a"
    and w: "ae_weight a \<in> small_int"
  shows "handled B E d (add_edge_nodes E c r a d)"
proof -
  define addr where "addr = str2sockaddr E (ae_host a) (ae_port a)"
  define loc where "loc = (case ae_local_host_port a of None \<Rightarrow> Addr_unspec | Some (h, p) \<Rightarrow> str2sockaddr E h p)"
  let ?e = "(ae_from a, ae_to a)"
  obtain q db where look: "lookup_edge (ae_from a) (ae_to a) (d_edges d) = (q, db)"
    by (cases "lookup_edge (ae_from a) (ae_to a) (d_edges d)")
  let ?d = "d\<lparr>d_edges := db\<rparr>"
  note k = keeps_lookup_edge [OF d look]
  note inv = keeps_inv [OF k(1)]
  have "handled B E ?d (add_edge_nodes E c r a d)"
  proof (cases q)
    case (Some e)
    with k(2) have e: "e = ?e" "e \<in> dom (estore (d_edges ?d))" using k(3) by (auto split: if_splits)
    define x where "x = the (estore db e)"
    show ?thesis
    proof (cases "same_edge x (ae_opts a) (ae_weight a) addr loc")
      case True
      then show ?thesis using keeps_refl [OF inv]
        by (simp add: add_edge_nodes_def look Some Let_def addr_def [symmetric] loc_def [symmetric] x_def [symmetric])
    next
      case False
      show ?thesis
      proof (cases "ae_from a = me_of E")
        case True
        then show ?thesis using keeps_sends(1) [OF inv] False
          unfolding add_edge_nodes_def look Some by (simp add: Let_def addr_def [symmetric] loc_def [symmetric] x_def [symmetric])
      next
        case other: False
        have "keeps B E ?d (change_edge E e x (ae_opts a) (ae_weight a) addr loc ?d)"
          using other e by (intro change_edge_ok [OF inv e(2) _ w]) simp
        from handled_after [OF this add_edge_finish_ok [OF keeps_inv [OF this]]] other False show ?thesis
          by (simp add: add_edge_nodes_def look Some Let_def addr_def [symmetric] loc_def [symmetric] x_def [symmetric])
      qed
    qed
  next
    case None
    show ?thesis
    proof (cases "ae_from a = me_of E")
      case True
      let ?d' = "?d\<lparr>d_contradicting_add_edge := d_contradicting_add_edge ?d + 1\<rparr>"
      have "keeps B E ?d ?d'" by (rule keeps_frame [OF inv, where l = "[]"]) simp_all
      from keeps_trans [OF this keeps_sends(2) [OF keeps_inv [OF this]]] True show ?thesis
        unfolding add_edge_nodes_def look None by (simp add: Let_def)
    next
      case False
      define x where "x = \<lparr>eo_address = addr, eo_local_address = loc, eo_options = ae_opts a, eo_weight = ae_weight a,
        eo_connection = None, eo_reverse = None\<rparr>"
      let ?d1 = "d\<lparr>d_edges := edge_add ?e x db\<rparr>"
      let ?d2 = "if addr_known loc then touch_lan E (ae_from a) (ae_to a) ?d1 else ?d1"
      have "keeps B E ?d (?d\<lparr>d_edges := edge_add ?e x (d_edges ?d)\<rparr>)"
        using n w False by (intro keeps_edge_add [OF inv]) (simp_all add: x_def)
      then have k1: "keeps B E ?d ?d1" by simp
      have k2: "keeps B E ?d ?d2" using k1 keeps_trans [OF k1 keeps_touch(1) [OF keeps_inv [OF k1]]] by simp
      note fin = handled_after [OF k2 add_edge_finish_ok [OF keeps_inv [OF k2]], of c r ?e]
      show ?thesis
        using False fin unfolding add_edge_nodes_def look None
        by (cases "addr_known loc") (simp_all add: Let_def addr_def [symmetric] loc_def [symmetric] x_def [symmetric])
    qed
  qed
  then show ?thesis by (rule handled_after [OF k(1)])
qed

text \<open>The common start of the handlers: the memory, and the lookup of one or two nodes.\<close>

lemma two_nodes_found:
  assumes "daemon_inv B E d" "lookup_node f d = (a, d1)" "lookup_node t d1 = (b, d2)"
  shows "keeps B E d d2" "a = (if f \<in> nodes_of d then Some f else None)"
    "b = (if t \<in> nodes_of d then Some t else None)" "nodes_of d2 = nodes_of d" "d_log d2 = d_log d"
proof -
  note l1 = lookup_node_ok [OF assms(1), of f, unfolded assms(2) fst_conv snd_conv]
  note l2 = lookup_node_ok [OF keeps_inv [OF l1(2)], of t, unfolded assms(3) fst_conv snd_conv]
  show "keeps B E d d2" by (rule keeps_trans [OF l1(2) l2(2)])
  show "a = (if f \<in> nodes_of d then Some f else None)" "b = (if t \<in> nodes_of d then Some t else None)"
    "nodes_of d2 = nodes_of d" "d_log d2 = d_log d" using l1 l2 by simp_all
qed

text \<open>What neither the memory, nor a lookup, nor a new node touches.\<close>

definition unchanged :: "daemon \<Rightarrow> daemon \<Rightarrow> bool" where
  "unchanged d d' \<longleftrightarrow> d_edges d' = d_edges d \<and> d_subnets d' = d_subnets d \<and> d_log d' = d_log d \<and> d_drawn d' = d_drawn d"

lemma unchanged_trans: "unchanged d d' \<Longrightarrow> unchanged d' d'' \<Longrightarrow> unchanged d d''"
  by (simp add: unchanged_def)

lemma unchanged_simps [simp]: "unchanged d d" "unchanged d (snd (seen_request E r d))" "unchanged d (snd (lookup_node n d))"
    "unchanged d (node_add E n d)"
  by (auto simp: unchanged_def seen_request_def lookup_node_def node_add_def case_prod_beta split: option.split prod.split)

text \<open>The handler once the request's text is known to be good.\<close>

lemma add_edge_h_cases:
  assumes d: "daemon_inv B E d" and r: "scan_add_edge r = Some a"
    and valid: "check_id (ae_from a)" "check_id (ae_to a)" "ae_from a \<noteq> ae_to a" and seen: "seen_request E r d = (b, d1)"
  obtains d3 d5 f t where "keeps B E d1 d3" "keeps B E d1 d5" "ae_from a \<in> nodes_of d5" "ae_to a \<in> nodes_of d5"
    "unchanged d1 d5" "ae_from a = me_of E \<longrightarrow> f = Some (me_of E)"
    "add_edge_h E c r d = (if b then Some (True, d1)
       else if node_is_blocked E (ae_from a) \<or> node_is_blocked E (ae_to a) then Some (True, d1)
       else if indirect_edge E c f t then Some (True, d3) else add_edge_nodes E c r a d5)"
proof -
  have k1: "keeps B E d d1" using seen_request_ok(2) [OF d, of r] seen by simp
  obtain f d2 where l1: "lookup_node (ae_from a) d1 = (f, d2)" by (cases "lookup_node (ae_from a) d1")
  obtain t d3 where l2: "lookup_node (ae_to a) d2 = (t, d3)" by (cases "lookup_node (ae_to a) d2")
  note l = two_nodes_found [OF keeps_inv [OF k1] l1 l2]
  let ?d4 = "if f = None then node_add E (ae_from a) d3 else d3"
  let ?d5 = "if t = None then node_add E (ae_to a) ?d4 else ?d4"
  note k3 = l(1)
  have k4: "keeps B E d3 ?d4" "nodes_of ?d4 = insert (ae_from a) (nodes_of d3)"
    using node_add_ok [OF keeps_inv [OF k3]] keeps_refl [OF keeps_inv [OF k3]] l(2,4) by (auto split: if_splits)
  have k5: "keeps B E ?d4 ?d5" "nodes_of ?d5 = insert (ae_to a) (nodes_of ?d4)"
    using node_add_ok [OF keeps_inv [OF k4(1)]] keeps_refl [OF keeps_inv [OF k4(1)]] l(3,4) k4(2)
    by (auto split: if_splits)
  have "unchanged d1 d3"
    using unchanged_simps(3) [of d1 "ae_from a"] unchanged_simps(3) [of d2 "ae_to a"] unchanged_trans by (simp add: l1 l2)
  moreover have "unchanged d3 ?d4" by simp
  moreover have "unchanged ?d4 ?d5" by simp
  ultimately have u: "unchanged d1 ?d5" using unchanged_trans by blast
  have eq: "add_edge_h E c r d =
      (if b then Some (True, d1)
       else if node_is_blocked E (ae_from a) \<or> node_is_blocked E (ae_to a) then Some (True, d1)
       else if indirect_edge E c f t then Some (True, d3) else add_edge_nodes E c r a ?d5)"
    unfolding add_edge_h_def r option.case using valid
    by (cases b) (simp_all only: if_False if_True simp_thms seen prod.case bool.case l1 l2 Let_def)
  have "me_of E \<in> nodes_of d1" using keeps_inv [OF k1] by (simp add: daemon_inv_def)
  then have me: "ae_from a = me_of E \<longrightarrow> f = Some (me_of E)" using l(2) by simp
  show thesis
    by (rule that [OF k3 keeps_trans [OF keeps_trans [OF k3 k4(1)] k5(1)] _ _ u me eq]) (use k4(2) k5(2) in simp_all)
qed

lemma add_edge_h_ok:
  assumes d: "daemon_inv B E d" and w: "\<And>a. scan_add_edge r = Some a \<Longrightarrow> ae_weight a \<in> small_int"
  shows "processed B E r d (add_edge_h E c r d)"
proof (cases "scan_add_edge r")
  case None
  then show ?thesis by (simp add: add_edge_h_def)
next
  case (Some a)
  show ?thesis
  proof (cases "\<not> check_id (ae_from a) \<or> \<not> check_id (ae_to a) \<or> ae_from a = ae_to a")
    case True
    then show ?thesis by (simp add: add_edge_h_def Some)
  next
    case False
    then have valid: "check_id (ae_from a)" "check_id (ae_to a)" "ae_from a \<noteq> ae_to a" by blast+
    obtain b d1 where seen: "seen_request E r d = (b, d1)" by (cases "seen_request E r d")
    have k1: "keeps B E d d1" using seen_request_ok(2) [OF d, of r] seen by simp
    obtain d3 d5 f t where k: "keeps B E d1 d3" "keeps B E d1 d5" "ae_from a \<in> nodes_of d5" "ae_to a \<in> nodes_of d5"
      and eq: "add_edge_h E c r d = (if b then Some (True, d1)
         else if node_is_blocked E (ae_from a) \<or> node_is_blocked E (ae_to a) then Some (True, d1)
         else if indirect_edge E c f t then Some (True, d3) else add_edge_nodes E c r a d5)"
      by (rule add_edge_h_cases [OF d Some valid seen])
    have "handled B E d1 (add_edge_nodes E c r a d5)"
      using valid w [OF Some] by (intro handled_after [OF k(2)] add_edge_nodes_ok [OF keeps_inv [OF k(2)] k(3,4)])
    then show ?thesis
      unfolding eq using keeps_refl [OF keeps_inv [OF k1]] k(1)
      by (intro processedI [OF seen, where bad = False, simplified]) (simp only: handled_Some split: if_split, blast)
  qed
qed

end
