(* ===== verification/GossipSafety.thy ===== *)
theory GossipSafety
  imports GossipProps
begin

text \<open>
  The handlers of \<open>DEL_EDGE\<close>, \<open>ADD_SUBNET\<close> and \<open>DEL_SUBNET\<close>, the dispatch, and the properties of the gossip
  that hold for every request.
\<close>

section \<open>Deleted edges\<close>

lemma drop_edge_to_me_ok:
  assumes d: "daemon_inv B E d"
  shows "keeps B E d (drop_edge_to_me E t d)"
proof (cases "reachable (d_nodes d t)")
  case True
  then show ?thesis using keeps_refl [OF d] by (simp add: drop_edge_to_me_def)
next
  case False
  obtain q db where look: "lookup_edge t (me_of E) (d_edges d) = (q, db)"
    by (cases "lookup_edge t (me_of E) (d_edges d)")
  let ?d = "d\<lparr>d_edges := db\<rparr>"
  note k = keeps_lookup_edge [OF d look]
  show ?thesis
  proof (cases q)
    case None
    then show ?thesis using False k(1) look by (simp add: drop_edge_to_me_def)
  next
    case (Some e)
    let ?d1 = "if e_tunnelserver E then ?d else send_del_edge E None e ?d"
    have k1: "keeps B E ?d ?d1"
      using keeps_refl [OF keeps_inv [OF k(1)]] keeps_sends(2) [OF keeps_inv [OF k(1)]] by simp
    have e: "e = (t, me_of E)" "e \<in> dom (estore db)" using k(2,3) Some by (auto split: if_splits)
    with inv_edge_nodes [OF d, of e] k(3) have t: "t \<noteq> me_of E" by simp
    have "d_edges ?d1 = db"
      by (simp add: send_del_edge_def draw_def send_request_def broadcast_meta_def)
    with e have "e \<in> dom (estore (d_edges ?d1))" by simp
    from keeps_edge_del [OF keeps_inv [OF k1] this] e(1) t
    have "keeps B E ?d1 (?d1\<lparr>d_edges := edge_del e (d_edges ?d1)\<rparr>)" by simp
    from keeps_trans [OF k(1) keeps_trans [OF k1 this]] show ?thesis
      unfolding drop_edge_to_me_def look Some using False by (simp only: if_False prod.case option.case Let_def)
  qed
qed

lemma del_edge_nodes_ok:
  assumes d: "daemon_inv B E d"
  shows "handled B E d (del_edge_nodes E c r f t d)"
proof -
  obtain q db where look: "lookup_edge f t (d_edges d) = (q, db)"
    by (cases "lookup_edge f t (d_edges d)")
  let ?d = "d\<lparr>d_edges := db\<rparr>"
  note k = keeps_lookup_edge [OF d look]
  note inv = keeps_inv [OF k(1)]
  show ?thesis
  proof (cases q)
    case None
    then show ?thesis using k(1) look by (simp add: del_edge_nodes_def)
  next
    case (Some e)
    have e: "e = (f, t)" "e \<in> dom (estore db)" using k(2,3) Some by (auto split: if_splits)
    show ?thesis
    proof (cases "f = me_of E")
      case True
      let ?d' = "?d\<lparr>d_contradicting_del_edge := d_contradicting_del_edge ?d + 1\<rparr>"
      have "keeps B E ?d ?d'" by (rule keeps_frame [OF inv, where l = "[]"]) simp_all
      from keeps_trans [OF k(1) keeps_trans [OF this keeps_sends(1) [OF keeps_inv [OF this]]]] True e show ?thesis
        unfolding del_edge_nodes_def look Some by (simp add: Let_def)
    next
      case False
      let ?d1 = "if e_tunnelserver E then ?d else forward_request c r ?d"
      let ?d2 = "?d1\<lparr>d_edges := edge_del e (d_edges ?d1)\<rparr>"
      have k1: "keeps B E ?d ?d1" by (rule keeps_forward [OF inv])
      have "d_edges ?d1 = db" by (simp add: forward_request_def broadcast_meta_def)
      with e have "e \<in> dom (estore (d_edges ?d1))" by simp
      from keeps_edge_del [OF keeps_inv [OF k1] this] e(1) False have "keeps B E ?d1 ?d2" by simp
      then have k2: "keeps B E d ?d2" by (rule keeps_trans [OF k(1) keeps_trans [OF k1]])
      from run_graph_ok [OF keeps_inv [OF k2]] obtain d' where
        g: "run_graph E ?d2 = Some d'" "keeps B E ?d2 d'" by blast
      have eq: "del_edge_nodes E c r f t d = Some (True, drop_edge_to_me E t d')"
        unfolding del_edge_nodes_def look Some using False e(1) g(1)
        by (simp only: prod.case option.case fst_conv if_False Let_def option.map)
      show ?thesis unfolding eq handled_Some
        by (rule keeps_trans [OF k2 keeps_trans [OF g(2) drop_edge_to_me_ok [OF keeps_inv [OF g(2)]]]])
    qed
  qed
qed

lemma del_edge_h_ok:
  assumes d: "daemon_inv B E d"
  shows "processed B E r d (del_edge_h E c r d)"
proof (cases "scan_two r")
  case None
  then show ?thesis by (simp add: del_edge_h_def)
next
  case (Some ft)
  obtain f t where ft: "ft = (f, t)" by (cases ft)
  obtain b d1 where seen: "seen_request E r d = (b, d1)" by (cases "seen_request E r d")
  have k1: "keeps B E d d1" using seen_request_ok(2) [OF d, of r] seen by simp
  obtain f' d2 where l1: "lookup_node f d1 = (f', d2)" by (cases "lookup_node f d1")
  obtain t' d3 where l2: "lookup_node t d2 = (t', d3)" by (cases "lookup_node t d2")
  note k3 = two_nodes_found(1) [OF keeps_inv [OF k1] l1 l2]
  have eq: "del_edge_h E c r d =
      (if \<not> check_id f \<or> \<not> check_id t \<or> f = t then Some (False, d)
       else if b then Some (True, d1)
       else if node_is_blocked E f \<or> node_is_blocked E t then Some (True, d1)
       else if indirect_edge E c f' t' \<or> f' = None \<or> t' = None then Some (True, d3)
       else del_edge_nodes E c r (the f') (the t') d3)"
    unfolding del_edge_h_def Some option.case ft prod.case
    by (cases b; cases f'; cases t')
      (simp_all add: seen l1 l2)
  have go: "handled B E d1 (del_edge_nodes E c r (the f') (the t') d3)"
    by (rule handled_after [OF k3 del_edge_nodes_ok [OF keeps_inv [OF k3]]])
  show ?thesis
    unfolding eq using keeps_refl [OF keeps_inv [OF k1]] k3 go
      by (intro processedI [OF seen]) (simp only: handled_Some split: if_split, blast)
qed

section \<open>Subnets\<close>

text \<open>What the C library's address parsers return has the size of an address.\<close>

definition pton_ok :: "inet \<Rightarrow> bool" where
  "pton_ok I \<longleftrightarrow> (\<forall>s a. pton4 I s = Some a \<longrightarrow> length a = 4) \<and> (\<forall>s a. pton6 I s = Some a \<longrightarrow> length a = 16)"

lemma scan_mac_length: "scan_mac s = Some a \<Longrightarrow> length a = 6"
  by (auto simp: scan_mac_def split: prod.splits if_splits)

lemma str2net_address_ok:
  "pton_ok I \<Longrightarrow> str2net_address I s p w = Some x \<Longrightarrow> net_ok (net x) \<and> owner x = None"
  by (auto simp: str2net_address_def pton_ok_def Let_def scan_mac_length split: option.splits if_splits)

lemma str2net_ok: "pton_ok I \<Longrightarrow> str2net I s = Some x \<Longrightarrow> net_ok (net x) \<and> owner x = None"
  by (auto simp: str2net_def dest: str2net_address_ok split: option.splits prod.splits if_splits)

lemma keeps_subnets:
  assumes "daemon_inv B E d" "db_ok B db"
    and "\<And>s n. s \<in> set (thread (subnet_tree db)) \<Longrightarrow> owner s = Some n \<Longrightarrow> s \<in> set (subnets_of d) \<or> n \<in> nodes_of d"
    and "filter (owned_by (me_of E)) (thread (subnet_tree db)) = filter (owned_by (me_of E)) (subnets_of d)"
  shows "keeps B E d (d\<lparr>d_subnets := db\<rparr>)"
proof -
  have "\<forall>s\<in>set (thread (subnet_tree db)). \<forall>n. owner s = Some n \<longrightarrow> n \<in> nodes_of d"
    using assms(1,3) unfolding daemon_inv_def by blast
  then show ?thesis
    using assms(1,2,4) unfolding keeps_def daemon_inv_def own_view_def subnets_of_def requests_of_def by simp
qed

lemma inv_db: "daemon_inv B E d \<Longrightarrow> db_ok B (d_subnets d)"
  by (simp add: daemon_inv_def)

lemma keeps_lookup_subnet:
  assumes "daemon_inv B E d" "s \<in> own_subnets n" "lookup_subnet n s (d_subnets d) = (r, db)"
  shows "keeps B E d (d\<lparr>d_subnets := db\<rparr>)"
    "r = ol_search subnet_compare s (filter (owned_by n) (subnets_of d))"
    "thread (subnet_tree db) = subnets_of d"
proof -
  note ok = lookup_subnet_ok [OF inv_db [OF assms(1)] assms(2), unfolded assms(3) fst_conv snd_conv db_abs_def]
  show "r = ol_search subnet_compare s (filter (owned_by n) (subnets_of d))"
    "thread (subnet_tree db) = subnets_of d" using ok by (simp_all add: subnets_of_def)
  with ok show "keeps B E d (d\<lparr>d_subnets := db\<rparr>)" by (intro keeps_subnets [OF assms(1)]) auto
qed

lemma keeps_subnet_add:
  assumes "daemon_inv B E d" "s\<lparr>owner := Some n\<rparr> \<in> subnets_ok B" "n \<in> nodes_of d" "n \<noteq> me_of E"
  shows "keeps B E d (d\<lparr>d_subnets := subnet_add (Some n) s (d_subnets d)\<rparr>)"
proof -
  note ok = subnet_add_ok [OF inv_db [OF assms(1)] assms(2), unfolded db_abs_def]
  then have t: "thread (subnet_tree (subnet_add (Some n) s (d_subnets d))) =
      ol_insert subnet_compare (s\<lparr>owner := Some n\<rparr>) (subnets_of d)" by (simp add: subnets_of_def)
  show ?thesis
  proof (rule keeps_subnets [OF assms(1)])
    show "filter (owned_by (me_of E)) (thread (subnet_tree (subnet_add (Some n) s (d_subnets d)))) =
        filter (owned_by (me_of E)) (subnets_of d)"
      unfolding t using assms(4) by (intro filter_ol_insert_skip) simp
    show "p \<in> set (subnets_of d) \<or> m \<in> nodes_of d"
      if "p \<in> set (thread (subnet_tree (subnet_add (Some n) s (d_subnets d))))" "owner p = Some m" for p m
      using that assms(3) set_ol_insert_subset [of subnet_compare "s\<lparr>owner := Some n\<rparr>" "subnets_of d"]
      unfolding t by auto
  qed (use ok in blast)
qed

lemma keeps_subnet_del:
  assumes "daemon_inv B E d" "s \<in> set (subnets_of d)" "owner s = Some n" "n \<noteq> me_of E"
  shows "keeps B E d (d\<lparr>d_subnets := subnet_del (Some n) s (d_subnets d)\<rparr>)"
proof -
  note db = inv_db [OF assms(1)]
  have s: "s \<in> subnets_ok B" using db_wf(4) [OF db] assms(2) by (auto simp: subnets_of_def)
  note ok = subnet_del_ok [OF db s assms(3), unfolded db_abs_def]
  then have t: "thread (subnet_tree (subnet_del (Some n) s (d_subnets d))) = ol_delete subnet_compare s (subnets_of d)"
    by (simp add: subnets_of_def)
  have same: "owner p = owner s" if "p \<in> set (subnets_of d)" "subnet_compare s p = 0" for p
    using that db_wf(4) [OF db] equal_same_owner [OF s, of p] by (auto simp: subnets_of_def)
  show ?thesis
  proof (rule keeps_subnets [OF assms(1)])
    show "filter (owned_by (me_of E)) (thread (subnet_tree (subnet_del (Some n) s (d_subnets d)))) =
        filter (owned_by (me_of E)) (subnets_of d)"
      unfolding t using assms(3,4) same by (intro filter_ol_delete_skip) auto
    show "p \<in> set (subnets_of d) \<or> m \<in> nodes_of d"
      if "p \<in> set (thread (subnet_tree (subnet_del (Some n) s (d_subnets d))))" "owner p = Some m" for p m
      using that set_ol_delete_subset [of subnet_compare s "subnets_of d"] unfolding t by auto
  qed (use ok in blast)
qed

text \<open>
  The subnets that a neighbour may announce: weights within the range the comparison of \<open>subnet_compare\<close>
  subtracts correctly, and no announced subnet equal to an ownerless (broadcast) one.
\<close>

definition announced :: "(net \<times> int) set \<Rightarrow> subnet set" where
  "announced B = {s. net_ok (net s) \<and> owner s = None \<and> weight s \<in> small_int \<and> (net s, weight s) \<notin> B}"

lemma announced_own: "s \<in> announced B \<Longrightarrow> s \<in> own_subnets n" "s \<in> announced B \<Longrightarrow> s\<lparr>owner := Some n\<rparr> \<in> own_subnets n"
    "s \<in> announced B \<Longrightarrow> s\<lparr>owner := Some n\<rparr> \<in> subnets_ok B"
  by (simp_all add: announced_def own_subnets_def subnets_ok_def)

lemma keeps_log: "daemon_inv B E d \<Longrightarrow> keeps B E d (if q then d\<lparr>d_log := d_log d @ l\<rparr> else d)"
  using keeps_refl [of B E d] keeps_frame [of B E d "d\<lparr>d_log := d_log d @ l\<rparr>" l] by simp

lemma keeps_hand_off_mac:
  assumes d: "daemon_inv B E d" and s: "s \<in> announced B"
  shows "keeps B E d (hand_off_mac E s d)"
proof (cases "net s")
  case (Mac a)
  obtain q db where look: "lookup_subnet (me_of E) s (d_subnets d) = (q, db)"
    by (cases "lookup_subnet (me_of E) s (d_subnets d)")
  note k = keeps_lookup_subnet(1) [OF d announced_own(1) [OF s] look]
  have "keeps B E (d\<lparr>d_subnets := db\<rparr>) (d\<lparr>d_subnets := db, d_expires := x\<rparr>)" for x
    by (rule keeps_frame [OF keeps_inv [OF k], where l = "[]"]) simp_all
  from keeps_trans [OF k this] show ?thesis using k by (cases q) (simp_all add: hand_off_mac_def Mac look)
qed (simp_all add: hand_off_mac_def keeps_refl [OF d])

lemma add_subnet_owner_ok:
  assumes d: "daemon_inv B E d" and n: "n \<in> nodes_of d" and s: "s \<in> announced B"
  shows "keeps B E d (snd (add_subnet_owner E c r n s d))"
proof -
  obtain q db where look: "lookup_subnet n s (d_subnets d) = (q, db)"
    by (cases "lookup_subnet n s (d_subnets d)")
  let ?d = "d\<lparr>d_subnets := db\<rparr>"
  note k = keeps_lookup_subnet(1) [OF d announced_own(1) [OF s] look]
  note inv = keeps_inv [OF k]
  note sends = keeps_sends [OF inv]
  let ?d1 = "?d\<lparr>d_subnets := subnet_add (Some n) s (d_subnets ?d)\<rparr>"
  let ?d2 = "if reachable (d_nodes ?d1 n) then ?d1\<lparr>d_log := d_log ?d1 @ [Subnet_script n s True]\<rparr> else ?d1"
  define d3 where "d3 = hand_off_mac E s (forward_request c r ?d2)"
  have k3: "keeps B E ?d d3" if me: "n \<noteq> me_of E"
  proof -
    have k1: "keeps B E ?d ?d1" using n by (intro keeps_subnet_add [OF inv announced_own(3) [OF s] _ me]) simp
    have k2: "keeps B E ?d ?d2" by (rule keeps_trans [OF k1 keeps_log [OF keeps_inv [OF k1]]])
    have f: "keeps B E ?d (forward_request c r ?d2)" by (rule keeps_trans [OF k2 keeps_sends(5) [OF keeps_inv [OF k2]]])
    show ?thesis unfolding d3_def by (rule keeps_trans [OF f keeps_hand_off_mac [OF keeps_inv [OF f] s]])
  qed
  have eq: "snd (add_subnet_owner E c r n s d) =
      (if q \<noteq> None then ?d else if n = me_of E then send_del_subnet E (Some (mc_id c)) n s ?d
       else if e_tunnelserver E then ?d else if e_strictsubnets E then forward_request c r ?d else d3)"
    unfolding add_subnet_owner_def look prod.case Let_def d3_def by (cases q) (simp_all only: option.case snd_conv if_distrib [of snd]
      option.distinct simp_thms if_True if_False)
  have "keeps B E ?d (snd (add_subnet_owner E c r n s d))"
    unfolding eq using keeps_refl [OF inv] sends(4,5) k3 by (simp only: split: if_split) blast
  then show ?thesis by (rule keeps_trans [OF k])
qed

lemma del_subnet_owner_ok:
  assumes d: "daemon_inv B E d" and s: "s \<in> announced B"
  shows "keeps B E d (snd (del_subnet_owner E c r n s d))"
proof -
  obtain q db where look: "lookup_subnet n (s\<lparr>owner := Some n\<rparr>) (d_subnets d) = (q, db)"
    by (cases "lookup_subnet n (s\<lparr>owner := Some n\<rparr>) (d_subnets d)")
  let ?d = "d\<lparr>d_subnets := db\<rparr>"
  note k = keeps_lookup_subnet [OF d announced_own(2) [OF s] look]
  note inv = keeps_inv [OF k(1)]
  note sends = keeps_sends [OF inv]
  have "keeps B E ?d (snd (del_subnet_owner E c r n s d))"
  proof (cases q)
    case None
    then show ?thesis using keeps_refl [OF inv] sends(5) by (simp add: del_subnet_owner_def look Let_def)
  next
    case (Some old)
    then have old: "old \<in> set (subnets_of d)" "owner old = Some n"
      using ol_search_SomeD [OF k(2) [unfolded Some, symmetric]] by auto
    let ?d1 = "forward_request c r ?d"
    let ?d2 = "if reachable (d_nodes ?d1 n) then ?d1\<lparr>d_log := d_log ?d1 @ [Subnet_script n old False]\<rparr> else ?d1"
    define d3 where "d3 = ?d2\<lparr>d_subnets := subnet_del (Some n) old (d_subnets ?d2)\<rparr>"
    have k2: "keeps B E ?d ?d2" by (rule keeps_trans [OF sends(5) keeps_log [OF keeps_inv [OF sends(5)]]])
    have "subnets_of ?d2 = subnets_of d"
      using k(3) by (simp add: forward_request_def broadcast_meta_def subnets_of_def)
    with old have "old \<in> set (subnets_of ?d2)" by simp
    then have k3: "keeps B E ?d d3" if "n \<noteq> me_of E"
      unfolding d3_def using keeps_trans [OF k2 keeps_subnet_del [OF keeps_inv [OF k2]]] old(2) that by blast
    have eq: "snd (del_subnet_owner E c r n s d) =
        (if n = me_of E then send_add_subnet E (Some (mc_id c)) n old ?d
         else if e_tunnelserver E then ?d else if e_strictsubnets E then ?d1 else d3)"
      unfolding del_subnet_owner_def look Some prod.case option.case Let_def d3_def
      by (simp only: snd_conv if_distrib [of snd])
    show ?thesis
      unfolding eq using keeps_refl [OF inv] sends(3,5) k3 by (simp only: split: if_split) blast
  qed
  then show ?thesis by (rule keeps_trans [OF k(1)])
qed

section \<open>Every request\<close>

text \<open>What is asked of a request's text: the numbers in it are within the range of the comparisons.\<close>

definition tame :: "(net \<times> int) set \<Rightarrow> denv \<Rightarrow> string \<Rightarrow> bool" where
  "tame B E r \<longleftrightarrow>
     (case scan_add_edge r of None \<Rightarrow> True | Some a \<Rightarrow> ae_weight a \<in> small_int) \<and>
     (case scan_two r of None \<Rightarrow> True
      | Some (n, t) \<Rightarrow> (case str2net (e_inet E) t of None \<Rightarrow> True
          | Some s \<Rightarrow> weight s \<in> small_int \<and> (net s, weight s) \<notin> B))"

lemma tame_subnet:
  assumes "tame B E r" "pton_ok (e_inet E)" "scan_two r = Some (n, t)" "str2net (e_inet E) t = Some s"
  shows "s \<in> announced B"
  using assms str2net_ok [OF assms(2,4)] by (simp add: tame_def announced_def)

lemma add_subnet_h_ok:
  assumes d: "daemon_inv B E d" and E: "pton_ok (e_inet E)" and r: "tame B E r"
  shows "processed B E r d (add_subnet_h E c r d)"
proof (cases "scan_two r")
  case None
  then show ?thesis by (simp add: add_subnet_h_def)
next
  case (Some nt)
  obtain n t where nt: "nt = (n, t)" by (cases nt)
  show ?thesis
  proof (cases "str2net (e_inet E) t")
    case None
    then show ?thesis using Some nt by (simp add: add_subnet_h_def)
  next
    case net: (Some s)
    obtain b d1 where seen: "seen_request E r d = (b, d1)" by (cases "seen_request E r d")
    have k1: "keeps B E d d1" using seen_request_ok(2) [OF d, of r] seen by simp
    obtain w d2 where l: "lookup_node n d1 = (w, d2)" by (cases "lookup_node n d1")
    note look = lookup_node_ok [OF keeps_inv [OF k1], of n, unfolded l fst_conv snd_conv]
    note k2 = look(2)
    let ?d3 = "if w = None then node_add E n d2 else d2"
    have k3: "keeps B E d2 ?d3" "n \<in> nodes_of ?d3"
      using node_add_ok [OF keeps_inv [OF k2]] keeps_refl [OF keeps_inv [OF k2]] look(1,3) by (auto split: if_splits)
    have s: "s \<in> announced B" using tame_subnet [OF r E] Some nt net by simp
    have k4: "keeps B E d1 (snd (add_subnet_owner E c r n s ?d3))"
      by (rule keeps_trans [OF k2 keeps_trans [OF k3(1) add_subnet_owner_ok [OF keeps_inv [OF k3(1)] k3(2) s]]])
    have k5: "keeps B E d1 (forward_request c r d2)" by (rule keeps_trans [OF k2 keeps_sends(5) [OF keeps_inv [OF k2]]])
    have w: "w = None \<or> w = Some n" using look(1) by auto
    have eq: "add_subnet_h E c r d =
        (if \<not> check_id n then Some (False, d) else if b then Some (True, d1)
         else if node_is_blocked E n then Some (True, d1) else if ignored_subnet E c w then Some (True, d2)
         else if w = None \<and> e_tunnelserver E then Some (True, d2)
         else if w = None \<and> e_strictsubnets E then Some (True, forward_request c r d2)
         else Some (add_subnet_owner E c r n s ?d3))"
      using w unfolding add_subnet_h_def Some nt option.case prod.case net
      by (cases b; elim disjE) (simp_all add: seen l)
    have h: "handled B E d1 (Some (add_subnet_owner E c r n s ?d3))"
      using k4 by (metis handled_Some prod.collapse)
    show ?thesis
      unfolding eq using keeps_refl [OF keeps_inv [OF k1]] k2 k5 h
      by (intro processedI [OF seen]) (simp only: handled_Some split: if_split, blast)
  qed
qed

lemma del_subnet_h_ok:
  assumes d: "daemon_inv B E d" and E: "pton_ok (e_inet E)" and r: "tame B E r"
  shows "processed B E r d (del_subnet_h E c r d)"
proof (cases "scan_two r")
  case None
  then show ?thesis by (simp add: del_subnet_h_def)
next
  case (Some nt)
  obtain n t where nt: "nt = (n, t)" by (cases nt)
  show ?thesis
  proof (cases "str2net (e_inet E) t")
    case None
    then show ?thesis using Some nt by (simp add: del_subnet_h_def)
  next
    case net: (Some s)
    obtain b d1 where seen: "seen_request E r d = (b, d1)" by (cases "seen_request E r d")
    have k1: "keeps B E d d1" using seen_request_ok(2) [OF d, of r] seen by simp
    obtain w d2 where l: "lookup_node n d1 = (w, d2)" by (cases "lookup_node n d1")
    note look = lookup_node_ok [OF keeps_inv [OF k1], of n, unfolded l fst_conv snd_conv]
    note k2 = look(2)
    have s: "s \<in> announced B" using tame_subnet [OF r E] Some nt net by simp
    have k3: "keeps B E d1 (snd (del_subnet_owner E c r n s d2))"
      by (rule keeps_trans [OF k2 del_subnet_owner_ok [OF keeps_inv [OF k2] s]])
    have eq: "del_subnet_h E c r d =
        (if \<not> check_id n then Some (False, d) else if b then Some (True, d1)
         else if node_is_blocked E n then Some (True, d1)
         else if ignored_subnet E c w \<or> w = None then Some (True, d2)
         else Some (del_subnet_owner E c r n s d2))"
      using look(1) unfolding del_subnet_h_def Some nt option.case prod.case net
      by (cases b; cases w) (simp_all add: seen l split: if_splits)
    have h: "handled B E d1 (Some (del_subnet_owner E c r n s d2))"
      using k3 by (metis handled_Some prod.collapse)
    show ?thesis
      unfolding eq using keeps_refl [OF keeps_inv [OF k1]] k2 h
      by (intro processedI [OF seen]) (simp only: handled_Some split: if_split, blast)
  qed
qed

text \<open>The four requests of the gossip.\<close>

definition gossip :: "string \<Rightarrow> bool" where
  "gossip r \<longleftrightarrow> atoi r \<in> {10, 11, 12, 13}"

lemma keeps_set_verified: "daemon_inv B E d \<Longrightarrow> keeps B E d (if q then set_verified c d else d)"
  by (rule keeps_frame [where l = "[]"]) (simp_all add: set_verified_def)

lemma gossip_handler:
  assumes "gossip r" "daemon_inv B E d" "pton_ok (e_inet E)" "tame B E r"
  shows "\<exists>h. request_handler other (atoi r) = Some h \<and> processed B E r d (h E c r d)"
proof -
  have w: "\<And>a. scan_add_edge r = Some a \<Longrightarrow> ae_weight a \<in> small_int" using assms(4) by (simp add: tame_def)
  have "atoi r = 10 \<or> atoi r = 11 \<or> atoi r = 12 \<or> atoi r = 13" using assms(1) by (simp add: gossip_def)
  then show ?thesis
    using add_subnet_h_ok [OF assms(2-4)] del_subnet_h_ok [OF assms(2-4)] add_edge_h_ok [OF assms(2) w]
      del_edge_h_ok [OF assms(2)]
    by (elim disjE) (simp_all add: request_handler_def is_valid_request_def)
qed

lemma processed_handled: "daemon_inv B E d \<Longrightarrow> processed B E r d q \<Longrightarrow> handled B E d q"
  using seen_request_ok(2) [of B E d r]
  by (auto simp: processed_def keeps_refl intro: handled_after split: if_splits)

lemma receive_request_eq:
  assumes "gossip r" "request_handler other (atoi r) = Some h"
  shows "receive_request other E c r d =
    (case proxy_reply E c r of Some b \<Rightarrow> Some (b, d)
     | None \<Rightarrow> if mc_allow c \<noteq> -1 \<and> mc_allow c \<noteq> atoi r then Some (False, d)
         else h E c r (if mc_active c then set_verified c d else d))"
proof -
  have "atoi r \<noteq> 0" using assms(1) by (auto simp: gossip_def)
  then show ?thesis unfolding receive_request_def by (simp add: assms(2) Let_def split: option.split)
qed

lemma receive_request_ok:
  assumes g: "gossip r" and d: "daemon_inv B E d" and E: "pton_ok (e_inet E)" and r: "tame B E r"
  shows "handled B E d (receive_request other E c r d)"
proof -
  let ?d = "if mc_active c then set_verified c d else d"
  have k: "keeps B E d ?d" by (rule keeps_set_verified [OF d])
  obtain h where h: "request_handler other (atoi r) = Some h" "handled B E ?d (h E c r ?d)"
    using gossip_handler [OF g keeps_inv [OF k] E r] processed_handled [OF keeps_inv [OF k]] by blast
  note eq = receive_request_eq [OF g h(1)]
  show ?thesis
    unfolding eq using keeps_refl [OF d] handled_after [OF k h(2)]
    by (auto simp only: handled_Some option.case split: option.split if_split)
qed

section \<open>Ageing\<close>

lemma past_distinct: "splay_wf past_request_compare UNIV t \<Longrightarrow> distinct (thread t)"
  using past.sorted_distinct [of "thread t"] past.splay.contents_sorted by blast

lemma fold_unlink:
  assumes "splay_wf past_request_compare UNIV t" "thread t = as @ bs"
  shows "splay_wf past_request_compare UNIV (fold (\<lambda>p t. if P p then splay_unlink_node t p else t) bs t) \<and>
    thread (fold (\<lambda>p t. if P p then splay_unlink_node t p else t) bs t) = as @ filter (\<lambda>p. \<not> P p) bs"
  using assms
proof (induction bs arbitrary: as t)
  case (Cons p bs)
  show ?case
  proof (cases "P p")
    case True
    have p: "p \<in> set (thread t)" using Cons.prems(2) by simp
    have "p \<notin> set as" using past_distinct [OF Cons.prems(1)] Cons.prems(2) by simp
    moreover have "inorder (root t) = thread t" "distinct (thread t)"
      using Cons.prems(1) past_distinct [OF Cons.prems(1)] by (simp_all add: splay_wf_def)
    ultimately have "thread (splay_unlink_node t p) = as @ bs"
      using splay_unlink_node_list(2) [OF _ _ p] Cons.prems(2) by (simp add: remove1_append)
    from Cons.IH [OF past.splay_unlink_node_wf [OF Cons.prems(1) p] this] True show ?thesis by simp
  next
    case False
    with Cons.IH [OF Cons.prems(1), of "as @ [p]"] Cons.prems(2) show ?thesis by simp
  qed
qed simp

lemma age_past_requests_ok:
  assumes d: "daemon_inv B E d"
  shows "daemon_inv B E (age_past_requests E d)"
    "thread (d_requests (age_past_requests E d)) = filter (\<lambda>p. \<not> too_old E p) (thread (d_requests d))"
proof -
  have "splay_wf past_request_compare UNIV (d_requests d)" using d by (simp add: daemon_inv_def)
  from fold_unlink [OF this, of "[]" "thread (d_requests d)" "too_old E"]
  show "thread (d_requests (age_past_requests E d)) = filter (\<lambda>p. \<not> too_old E p) (thread (d_requests d))"
    "daemon_inv B E (age_past_requests E d)"
    using d unfolding age_past_requests_def daemon_inv_def subnets_of_def Let_def by simp_all
qed

end
