(* ===== verification/GossipText.thy ===== *)
theory GossipText
  imports Gossip
begin

text \<open>
  The text of \<open>ADD_EDGE\<close>: what \<open>send_add_edge\<close> prints, \<open>add_edge_h\<close> of another daemon reads back.
\<close>

section \<open>Fields between spaces\<close>

lemma show_dec_requests: "show_dec 10 = ''10''" "show_dec 11 = ''11''" "show_dec 12 = ''12''" "show_dec 13 = ''13''"
  by code_simp+

definition spaced_conv :: "conv list \<Rightarrow> bool" where
  "spaced_conv cs \<longleftrightarrow> cs \<noteq> [] \<and> (\<forall>c. hd cs \<noteq> Lit c)"

lemma spaced_conv_Cons [simp]: "spaced_conv (Skip_dec # cs)" "spaced_conv (Skip_hex # cs)" "spaced_conv (Take_dec # cs)"
    "spaced_conv (Take_hex # cs)" "spaced_conv (MAX_STRING # cs)"
  by (simp_all add: spaced_conv_def MAX_STRING_def)

lemma scan_field:
  assumes "spaced_conv cs"
  shows "fst (sscanf (Skip_dec # cs) (show_dec i @ CHR '' '' # s)) = fst (sscanf cs s)"
    "fst (sscanf (Skip_hex # cs) (show_hex n @ CHR '' '' # s)) = fst (sscanf cs s)"
    "- (2 ^ 31) \<le> i \<Longrightarrow> i < 2 ^ 31 \<Longrightarrow>
       fst (sscanf (Take_dec # cs) (show_dec i @ CHR '' '' # s)) = Got_dec i # fst (sscanf cs s)"
    "n < 2 ^ 64 \<Longrightarrow> fst (sscanf (Take_hex # cs) (show_hex n @ CHR '' '' # s)) = Got_hex (word_of_nat n) # fst (sscanf cs s)"
    "word_ok w \<Longrightarrow> length w \<le> 2048 \<Longrightarrow>
       fst (sscanf (MAX_STRING # cs) (w @ CHR '' '' # s)) = Got_str w # fst (sscanf cs s)"
  using assms by (simp_all add: sscanf_fields sscanf_skips_space spaced_conv_def MAX_STRING_def del: sscanf.simps)

lemma scan_request:
  "spaced_conv cs \<Longrightarrow> fst (sscanf (Skip_dec # Skip_hex # cs) (''12'' @ CHR '' '' # show_hex n @ CHR '' '' # s)) = fst (sscanf cs s)"
  "spaced_conv cs \<Longrightarrow> fst (sscanf (Skip_dec # Skip_hex # cs) (''13'' @ CHR '' '' # show_hex n @ CHR '' '' # s)) = fst (sscanf cs s)"
  unfolding show_dec_requests [symmetric] by (simp_all only: scan_field spaced_conv_Cons)

lemma scan_last:
  "- (2 ^ 31) \<le> i \<Longrightarrow> i < 2 ^ 31 \<Longrightarrow> fst (sscanf [Take_dec, MAX_STRING, MAX_STRING] (show_dec i)) = [Got_dec i]"
  "word_ok w \<Longrightarrow> length w \<le> 2048 \<Longrightarrow> fst (sscanf [MAX_STRING] w) = [Got_str w]"
  using sscanf_fields(3) [of "[]" i "[MAX_STRING, MAX_STRING]"] sscanf_fields(5) [of "[]" w 2048 "[]"]
  by (simp_all add: MAX_STRING_def del: sscanf.simps) (simp_all add: scan_number_def)

lemma check_id_word: "check_id n \<Longrightarrow> word_ok n"
  by (auto simp: check_id_def word_ok_def list_all_iff c_isalnum_def c_isupper_def c_islower_def c_isdigit_def is_space_def char_code_def Let_def)

lemma atoi_12: "atoi (''12'' @ CHR '' '' # s) = 12"
  by (simp add: atoi_def c_atoi_def is_space_def)

text \<open>
  What is asked of the C library's conversions: the texts of an address are words, and the receiver's
  \<open>getaddrinfo\<close> reads back what the sender's \<open>getnameinfo\<close> wrote.
\<close>

definition address_text_ok :: "denv \<Rightarrow> denv \<Rightarrow> sockaddr \<Rightarrow> bool" where
  "address_text_ok E E' sa \<longleftrightarrow> (case sockaddr2str E sa of (a, p) \<Rightarrow>
     word_ok a \<and> word_ok p \<and> length a \<le> 2048 \<and> length p \<le> 2048 \<and> str2sockaddr E' a p = sa)"

definition sent_args :: "denv \<Rightarrow> edge_id \<Rightarrow> edge_obj \<Rightarrow> add_edge_args" where
  "sent_args E e x = \<lparr>ae_from = fst e, ae_to = snd e, ae_host = fst (sockaddr2str E (eo_address x)),
     ae_port = snd (sockaddr2str E (eo_address x)), ae_opts = eo_options x, ae_weight = eo_weight x,
     ae_local_host_port = (if sa_family (eo_local_address x) = 0 then None else Some (sockaddr2str E (eo_local_address x)))\<rparr>"

lemma scan_add_edge_text:
  assumes ids: "check_id (fst e)" "check_id (snd e)" "length (fst e) \<le> 2048" "length (snd e) \<le> 2048"
    and addr: "address_text_ok E E' (eo_address x)" "sa_family (eo_local_address x) \<noteq> 0 \<longrightarrow> address_text_ok E E' (eo_local_address x)"
    and w: "- (2 ^ 31) \<le> eo_weight x" "eo_weight x < 2 ^ 31"
  shows "scan_add_edge (add_edge_text E (show_hex n) e x) = Some (sent_args E e x)"
proof -
  obtain a p where ap: "sockaddr2str E (eo_address x) = (a, p)" by (cases "sockaddr2str E (eo_address x)")
  obtain la lp where lap: "sockaddr2str E (eo_local_address x) = (la, lp)" by (cases "sockaddr2str E (eo_local_address x)")
  have words: "word_ok (fst e)" "word_ok (snd e)" "word_ok a" "word_ok p" "length a \<le> 2048" "length p \<le> 2048"
    using ids addr(1) check_id_word by (simp_all add: address_text_ok_def ap)
  have lwords: "sa_family (eo_local_address x) \<noteq> 0 \<Longrightarrow> word_ok la \<and> word_ok lp \<and> length la \<le> 2048 \<and> length lp \<le> 2048"
    using addr(2) by (simp add: address_text_ok_def lap)
  have "unat (eo_options x) < 2 ^ 32" by (rule order_less_le_trans [OF unsigned_less]) simp
  then have opts: "unat (eo_options x) < 2 ^ 64" by simp
  have [simp]: "ucast (ucast o' :: u64) = o'" for o' :: u32
    by (rule bit_word_eqI) (simp add: bit_simps)
  note fields = scan_request [unfolded append.simps] scan_field scan_last
  show ?thesis
  proof (cases "sa_family (eo_local_address x) = 0")
    case True
    then show ?thesis
      unfolding scan_add_edge_def add_edge_text_def ap prod.case
      by (simp add: fields words ids(3,4) opts [simplified] w [simplified] sent_args_def ap del: sscanf.simps)
  next
    case False
    from lwords [OF this] False show ?thesis
      unfolding scan_add_edge_def add_edge_text_def ap lap prod.case
      by (simp add: fields words ids(3,4) opts [simplified] w [simplified] sent_args_def ap lap del: sscanf.simps)
  qed
qed

text \<open>Read as a request about a subnet, the names are the two words.\<close>

lemma scan_two_add_edge_text:
  assumes "check_id (fst e)" "check_id (snd e)" "length (fst e) \<le> 2048" "length (snd e) \<le> 2048"
  shows "scan_two (add_edge_text E (show_hex n) e x) = Some e"
proof -
  have last: "fst (sscanf [MAX_STRING] (snd e @ CHR '' '' # s)) = [Got_str (snd e)]" for s
    using sscanf_fields(5) [of "CHR '' '' # s" "snd e" 2048 "[]"] assms(2,4) check_id_word
    by (simp add: MAX_STRING_def del: sscanf.simps(6))
  note fields = scan_request [unfolded append.simps] scan_field last check_id_word assms
  show ?thesis
    unfolding scan_two_def add_edge_text_def
    by (cases "sa_family (eo_local_address x) = 0")
      (simp_all add: fields case_prod_beta del: sscanf.simps)
qed

lemma atoi_add_edge_text: "atoi (add_edge_text E n e x) = 12" "hd (add_edge_text E n e x) = CHR ''1''"
    "add_edge_text E n e x \<noteq> []"
  using atoi_12 by (simp_all add: add_edge_text_def case_prod_beta)

end
