(* ===== verification/GossipRuns.thy ===== *)
theory GossipRuns
  imports GossipSafety GossipText
begin

text \<open>
  The gossip as a transition system: the requests of all neighbours in any order, and the timer that makes
  the daemon forget requests, at the times of a set \<open>T\<close>.  What holds after every run.
\<close>

section \<open>Steps\<close>

definition at_time :: "int \<Rightarrow> denv \<Rightarrow> denv" where
  "at_time t E = E\<lparr>e_graph := (e_graph E)\<lparr>g_addr := (g_addr (e_graph E))\<lparr>ae_now := t\<rparr>\<rparr>\<rparr>"

inductive gossip_step :: "(int \<Rightarrow> handler) \<Rightarrow> (net \<times> int) set \<Rightarrow> denv \<Rightarrow> int set \<Rightarrow> daemon \<Rightarrow> daemon \<Rightarrow> bool"
  for other B E T where
  receive: "t \<in> T \<Longrightarrow> gossip r \<Longrightarrow> tame B E r \<Longrightarrow> receive_request other (at_time t E) c r d = Some (b, d') \<Longrightarrow>
    gossip_step other B E T d d'"
| age: "t \<in> T \<Longrightarrow> gossip_step other B E T d (age_past_requests (at_time t E) d)"

abbreviation gossip_run :: "(int \<Rightarrow> handler) \<Rightarrow> (net \<times> int) set \<Rightarrow> denv \<Rightarrow> int set \<Rightarrow> daemon \<Rightarrow> daemon \<Rightarrow> bool" where
  "gossip_run other B E T \<equiv> (gossip_step other B E T)\<^sup>*\<^sup>*"

section \<open>What the time does not change\<close>

lemma at_time_simps [simp]:
  "me_of (at_time t E) = me_of E" "now_of (at_time t E) = t" "e_inet (at_time t E) = e_inet E"
  "e_pinginterval (at_time t E) = e_pinginterval E" "e_http_proxy (at_time t E) = e_http_proxy E"
  by (simp_all add: at_time_def)

lemma at_time_inv [simp]:
  "daemon_inv B (at_time t E) = daemon_inv B E" "own_view (at_time t E) = own_view E"
  "keeps B (at_time t E) = keeps B E" "handled B (at_time t E) = handled B E"
  "proxy_reply (at_time t E) = proxy_reply E"
  by (simp_all add: fun_eq_iff daemon_inv_def own_view_def keeps_def handled_def proxy_reply_def)

lemma at_time_tame [simp]: "tame B (at_time t E) r = tame B E r"
  by (simp only: tame_def at_time_simps)

lemma receive_at_time:
  assumes "gossip r" "tame B E r" "daemon_inv B E d" "pton_ok (e_inet E)"
  shows "handled B E d (receive_request other (at_time t E) c r d)"
  using receive_request_ok [of r B "at_time t E" d other c] assms by simp

section \<open>Invariants of the runs\<close>

text \<open>A step keeps the tables consistent, and this node's own edges and subnets.\<close>

lemma gossip_step_keeps:
  assumes "gossip_step other B E T d d'" "daemon_inv B E d" "pton_ok (e_inet E)"
  shows "daemon_inv B E d' \<and> own_view E d' = own_view E d"
  using assms(1)
proof (cases rule: gossip_step.cases)
  case (receive t r c b)
  with receive_at_time [OF receive(2,3) assms(2,3), of other t c] show ?thesis by (simp add: handled_def keeps_def)
next
  case (age t)
  have "own_view E (age_past_requests (at_time t E) d) = own_view E d"
    by (simp add: age_past_requests_def own_view_def subnets_of_def Let_def)
  with age age_past_requests_ok(1) [of B "at_time t E" d] assms(2) show ?thesis by simp
qed

lemma gossip_run_keeps:
  assumes "gossip_run other B E T d d'" "daemon_inv B E d" "pton_ok (e_inet E)"
  shows "daemon_inv B E d' \<and> own_view E d' = own_view E d"
  using assms(1)
proof (induction rule: rtranclp_induct)
  case (step d1 d2)
  with gossip_step_keeps [OF step(2) _ assms(3)] show ?case by simp
qed (use assms(2) in simp)

section \<open>The memory of the runs\<close>

lemma step_remembers:
  assumes "gossip_step other B E {t0..<t0 + e_pinginterval E} d d'" "daemon_inv B E d" "pton_ok (e_inet E)"
    and "\<lparr>request = r, firstseen = t0\<rparr> \<in> requests_of d"
  shows "\<lparr>request = r, firstseen = t0\<rparr> \<in> requests_of d'"
  using assms(1)
proof (cases rule: gossip_step.cases)
  case (receive t s c b)
  with receive_at_time [OF receive(2,3) assms(2,3), of other t c] assms(4) show ?thesis
    by (auto simp: handled_def keeps_def)
next
  case (age t)
  with age_past_requests_ok(2) [of B "at_time t E" d] assms(2,4) show ?thesis
    by (simp add: requests_of_def too_old_def)
qed

lemma run_remembers:
  assumes "gossip_run other B E {t0..<t0 + e_pinginterval E} d d'" "daemon_inv B E d" "pton_ok (e_inet E)"
    and "\<lparr>request = r, firstseen = t0\<rparr> \<in> requests_of d"
  shows "\<lparr>request = r, firstseen = t0\<rparr> \<in> requests_of d'"
  using assms(1)
proof (induction rule: rtranclp_induct)
  case (step d1 d2)
  with gossip_run_keeps [OF step(1) assms(2,3)] step_remembers [OF step(2) _ assms(3)] show ?case by blast
qed (use assms(4) in simp)

text \<open>What the daemon knows of the mesh and has done, without the memory and the order of its trees.\<close>

definition same_effect :: "daemon \<Rightarrow> daemon \<Rightarrow> bool" where
  "same_effect d d' \<longleftrightarrow> d_log d' = d_log d \<and> d_edges d' = d_edges d \<and> d_subnets d' = d_subnets d \<and>
     d_nodes d' = d_nodes d \<and> d_node_tree d' = d_node_tree d"

lemma same_effect_seen: "same_effect d (snd (seen_request E r d))"
  by (auto simp: same_effect_def seen_request_def split: prod.split option.split)

lemma same_effect_verified: "same_effect (set_verified c d) d' \<longleftrightarrow> same_effect d d'"
  by (simp add: same_effect_def set_verified_def)

lemma receive_request_cases:
  assumes "gossip r" "daemon_inv B E d" "pton_ok (e_inet E)" "tame B E r"
    and "receive_request other E c r d = Some (b, d')"
  obtains "d' = d" "proxy_reply E c r \<noteq> None \<or> \<not> b"
  | "processed B E r (if mc_active c then set_verified c d else d) (Some (b, d'))"
proof -
  let ?d = "if mc_active c then set_verified c d else d"
  obtain h where h: "request_handler other (atoi r) = Some h" "processed B E r ?d (h E c r ?d)"
    using gossip_handler [OF assms(1) keeps_inv [OF keeps_set_verified [OF assms(2)]] assms(3,4)] by blast
  note eq = assms(5) [unfolded receive_request_eq [OF assms(1) h(1)]]
  show thesis
  proof (cases "proxy_reply E c r \<noteq> None \<or> mc_allow c \<noteq> -1 \<and> mc_allow c \<noteq> atoi r")
    case True
    with eq have "d' = d" "proxy_reply E c r \<noteq> None \<or> \<not> b" by (auto split: option.splits)
    then show thesis by (rule that(1))
  next
    case False
    with eq have "h E c r ?d = Some (b, d')" by (auto split: option.splits if_splits)
    with h(2) show thesis using that(2) by simp
  qed
qed

lemma remembered_again:
  assumes "gossip r" "daemon_inv B E d" "pton_ok (e_inet E)" "tame B E r" "remembered r d"
    and "receive_request other E c r d = Some (b, d')"
  shows "same_effect d d'"
  using assms(1-4,6)
proof (cases rule: receive_request_cases)
  case 1
  then show ?thesis by (simp add: same_effect_def)
next
  case 2
  let ?d = "if mc_active c then set_verified c d else d"
  have "remembered r ?d" using assms(5) by (simp add: remembered_def requests_of_def set_verified_def)
  then have "fst (seen_request E r ?d)"
    using seen_request_ok(1) [OF keeps_inv [OF keeps_set_verified [OF assms(2)]]] by blast
  with 2 have "d' = ?d \<or> d' = snd (seen_request E r ?d)" by (auto simp: processed_def)
  then have "same_effect ?d d'" using same_effect_seen by (auto simp: same_effect_def)
  then show ?thesis by (simp add: same_effect_verified split: if_splits)
qed

lemma accepted_remembered:
  assumes "gossip r" "daemon_inv B E d" "pton_ok (e_inet E)" "tame B E r" "\<not> remembered r d"
    and "proxy_reply E c r = None" "receive_request other E c r d = Some (True, d')"
  shows "\<lparr>request = r, firstseen = now_of E\<rparr> \<in> requests_of d'"
  using assms(1-4,7)
proof (cases rule: receive_request_cases)
  case 1
  then show ?thesis using assms(6) by simp
next
  case 2
  let ?d = "if mc_active c then set_verified c d else d"
  have r: "\<not> remembered r ?d" using assms(5) by (simp add: remembered_def requests_of_def set_verified_def)
  note seen = seen_request_ok [OF keeps_inv [OF keeps_set_verified [OF assms(2)]], where r = r]
  have "keeps B E (snd (seen_request E r ?d)) d'" using 2 r seen(1) by (simp add: processed_def)
  with r seen(4) show ?thesis by (auto simp: keeps_def)
qed

section \<open>The first state\<close>

text \<open>A daemon that knows only itself.\<close>

definition first_daemon :: "denv \<Rightarrow> daemon" where
  "first_daemon E = \<lparr>d_node_tree = \<lparr>root = Node Leaf (me_of E) Leaf, thread = [me_of E], tcount = 1, generation = 0\<rparr>,
     d_node_ids = \<lparr>root = Node Leaf (me_of E) Leaf, thread = [me_of E], tcount = 1, generation = 0\<rparr>,
     d_nodes = (\<lambda>_. new_node False), d_edges = no_edges, d_subnets = init_subnets 0 empty_db, d_expires = (\<lambda>_. 0),
     d_requests = empty_tree, d_request_timer = False, d_conns = [], d_caches = (\<lambda>_. None), d_lan_change = (\<lambda>_. 0),
     d_punch_backoff = (\<lambda>_. 0), d_contradicting_add_edge = 0, d_contradicting_del_edge = 0, d_drawn = 0,
     d_mst = (\<lambda>_. False), d_log = []\<rparr>"

lemma first_daemon_inv: "daemon_inv B E (first_daemon E)"
  using init_subnets_ok [of B 0] no_edges_ok
  by (simp add: daemon_inv_def first_daemon_def db_abs_def subnets_of_def splay_wf_empty new_node_def)
    (simp add: splay_wf_def no_edges_def)

lemma first_daemon_nothing: "\<not> remembered r (first_daemon E)" "estore (d_edges (first_daemon E)) = (\<lambda>_. None)"
  by (simp_all add: remembered_def requests_of_def first_daemon_def empty_tree_def no_edges_def)

definition example_denv :: denv where
  "example_denv = \<lparr>e_graph = example_graph_env [] (\<lambda>_. []), e_tunnelserver = False, e_strictsubnets = False,
     e_blocked = [''x''], e_inet = example_inet,
     e_getaddrinfo = (\<lambda>h p. map_option (\<lambda>a. Addr_inet a 655) (read_ip4 h)),
     e_getnameinfo = (\<lambda>sa. case sa of Addr_inet a p \<Rightarrow> (show_ip4 a, ''655'') | _ \<Rightarrow> ([], [])),
     e_pinginterval = 60, e_http_proxy = False, e_prng = (\<lambda>i. of_nat i), e_node_id = (\<lambda>_. []),
     e_config_address = (\<lambda>_. False), e_cache_file = (\<lambda>_. None)\<rparr>"

definition example_conn :: mconn where
  "example_conn = \<lparr>mc_id = 1, mc_node = Some ''b'', mc_edge = True, mc_outgoing = False, mc_active = True,
     mc_allow = -1, mc_verified = False\<rparr>"

definition example_edge_obj :: edge_obj where
  "example_edge_obj = \<lparr>eo_address = Addr_inet [10, 0, 0, 3] 655, eo_local_address = Addr_unspec, eo_options = 0,
     eo_weight = 25, eo_connection = None, eo_reverse = None\<rparr>"

definition example_request :: string where
  "example_request = add_edge_text example_denv (show_hex 127) (''b'', ''z'') example_edge_obj"

lemma example_denv_simps [simp]: "me_of example_denv = ''a''" "e_pinginterval example_denv = 60"
  "e_inet example_denv = example_inet"
  by (simp_all add: example_denv_def example_graph_env_def)

lemma example_pton_ok: "pton_ok (e_inet example_denv)"
  by (auto simp: pton_ok_def example_inet_def read_ip4_def read_ip6_def Let_def split: if_splits)

lemma example_address: "address_text_ok example_denv example_denv (eo_address example_edge_obj)"
  by code_simp

lemma example_ids: "check_id ''b''" "check_id ''z''" "str2net example_inet ''z'' = None"
  by code_simp+

lemma example_scan:
  "scan_add_edge example_request = Some (sent_args example_denv (''b'', ''z'') example_edge_obj)"
  "scan_two example_request = Some (''b'', ''z'')" "atoi example_request = 12"
  using scan_add_edge_text [of "(''b'', ''z'')", OF _ _ _ _ example_address] example_ids
    scan_two_add_edge_text [of "(''b'', ''z'')"] atoi_add_edge_text
  by (simp_all add: example_request_def) (simp_all add: example_edge_obj_def)

lemma example_request_facts:
  "gossip example_request" "tame {} example_denv example_request" "proxy_reply example_denv example_conn example_request = None"
  using example_scan example_ids
  by (simp_all add: gossip_def tame_def small_int_def proxy_reply_def example_conn_def sent_args_def)
    (simp add: example_edge_obj_def)

section \<open>Properties\<close>



text \<open>C35: Nobody else decides what belongs to this node: whatever requests arrive, in any order, the edges that
  start at this node keep their addresses, options and weights, none is added and none is deleted, and the
  list of this node's own subnets stays the same.\<close>

theorem gossip_never_changes_own:
  assumes "daemon_inv B E d" "pton_ok (e_inet E)" "gossip_run other B E T d d'"
  shows "(fst e = me_of E \<longrightarrow> edge_data (d_edges d') e = edge_data (d_edges d) e) \<and>
    thread (node_subnets (d_subnets d') (me_of E)) = thread (node_subnets (d_subnets d) (me_of E))"
proof -
  note k = gossip_run_keeps [OF assms(3,1,2)]
  have own: "thread (node_subnets (d_subnets x) (me_of E)) = filter (owned_by (me_of E)) (subnets_of x)"
    if "daemon_inv B E x" for x
    using db_wf(3) [OF inv_db [OF that]] by (simp add: subnets_of_def)
  have "own_part (me_of E) (edge_data (d_edges d')) e = own_part (me_of E) (edge_data (d_edges d)) e"
    using k by (simp add: own_view_def)
  then have "edge_data (d_edges d') e = edge_data (d_edges d) e" if "fst e = me_of E"
    using that by (simp add: own_part_def)
  then show ?thesis using k own [of d] own [of d'] assms(1) by (simp add: own_view_def)
qed

theorem gossip_never_changes_own_witness:
  "\<exists>b d. receive_request (\<lambda>_ _ _ _ _. None) (at_time 5 example_denv) example_conn example_request
      (first_daemon example_denv) = Some (b, d) \<and> edge_data (d_edges d) (''a'', ''b'') = None"
proof -
  let ?d = "first_daemon example_denv" and ?o = "\<lambda>_ _ _ _ _. None"
  have inv: "daemon_inv {} example_denv ?d" by (rule first_daemon_inv)
  obtain b d where r: "receive_request ?o (at_time 5 example_denv) example_conn example_request ?d = Some (b, d)"
    using receive_at_time [OF example_request_facts(1,2) inv example_pton_ok, of ?o 5 example_conn]
    by (auto simp: handled_def)
  then have "gossip_run ?o {} example_denv UNIV ?d d"
    using gossip_step.receive [OF UNIV_I example_request_facts(1,2) r] by blast
  from gossip_never_changes_own [OF inv example_pton_ok this, of "(''a'', ''b'')"] r show ?thesis
    by (auto simp: edge_data_def strip_def first_daemon_nothing)
qed

end
