(* ===== verification/GossipDelivery.thy ===== *)
theory GossipDelivery
  imports GossipRuns
begin

text \<open>
  What a new request does: an announced edge arrives in the receiver's table as the sender knows it, a false
  claim about this node is answered with a correction, and a request has its effect once.
\<close>

section \<open>What the steps leave alone\<close>

lemma effect_remember [simp]: "d_edges (remember_endpoint E t sa d) = d_edges d"
  by (simp add: remember_endpoint_def Let_def)

lemma effect_forward [simp]: "d_edges (forward_request c r d) = d_edges d"
  by (simp add: forward_request_def broadcast_meta_def)

lemma effect_touch [simp]: "d_edges (touch_lan E f t d) = d_edges d" "d_edges (retry_punch f d) = d_edges d"
  by (simp_all add: touch_lan_def retry_punch_def)

lemma effect_verified [simp]: "d_edges (set_verified c d) = d_edges d" "d_log (set_verified c d) = d_log d"
  "requests_of (set_verified c d) = requests_of d"
  by (simp_all add: set_verified_def requests_of_def)

lemma sockaddrcmp_same [simp]: "sockaddrcmp a a = 0"
  by (cases a) (simp_all add: then_cmp_def c_memcmp_eq_iff)

section \<open>The announced edge is stored\<close>

definition stored :: "add_edge_args \<Rightarrow> sockaddr \<Rightarrow> edge_db \<Rightarrow> bool" where
  "stored a addr db \<longleftrightarrow> (\<exists>y. edge_data db (ae_from a, ae_to a) = Some y \<and> eo_weight y = ae_weight a \<and>
     eo_options y = ae_opts a \<and> sockaddrcmp (eo_address y) addr = 0)"

lemma add_edge_finish_edges:
  assumes "daemon_inv B E d"
  shows "\<exists>d'. add_edge_finish E c r e d = Some (True, d') \<and> d_edges d' = d_edges d"
proof -
  let ?d1 = "remember_endpoint E (snd e) (eo_address (the (estore (d_edges d) e))) d"
  let ?d2 = "if e_tunnelserver E then ?d1 else forward_request c r ?d1"
  have k1: "keeps B E d ?d1" by (rule keeps_remember_endpoint [OF assms])
  have k2: "keeps B E d ?d2" by (rule keeps_trans [OF k1 keeps_forward [OF keeps_inv [OF k1]]])
  from run_graph_ok [OF keeps_inv [OF k2]] show ?thesis by (auto simp: add_edge_finish_def Let_def)
qed

lemma change_edge_stored:
  assumes d: "daemon_inv B E d" "e \<in> dom (estore (d_edges d))" and w: "w \<in> small_int"
    and x: "x = the (estore (d_edges d) e)"
  shows "\<exists>y. edge_data (d_edges (change_edge E e x opts w addr loc d)) e = Some y \<and> eo_weight y = w \<and>
    eo_options y = opts \<and> sockaddrcmp (eo_address y) addr = 0"
proof -
  define a where "a = (if sockaddrcmp (eo_address x) addr \<noteq> 0 then addr else eo_address x)"
  define l where "l = (if addr_known loc \<and> sockaddrcmp (eo_local_address x) loc \<noteq> 0 then loc else eo_local_address x)"
  let ?db = "set_edge_data e opts a l (d_edges d)"
  have x': "estore (d_edges d) e = Some x" using d(2) x by auto
  then have data: "edge_data (d_edges d) e = Some (x\<lparr>eo_reverse := None\<rparr>)" by (simp add: edge_data_def strip_def)
  note db = set_edge_data_ok [OF inv_edges [OF d(1)] d(2), of opts a l]
  have dom: "e \<in> dom (estore ?db)" using d(2) by simp
  note wt = set_edge_weight_ok [OF conjunct1 [OF db] dom w]
  have a: "sockaddrcmp a addr = 0" by (simp add: a_def)
  have "d_edges (change_edge E e x opts w addr loc d) = (if eo_weight x \<noteq> w then set_edge_weight e w ?db else ?db)"
    by (simp add: change_edge_def Let_def a_def l_def)
  then show ?thesis using db wt data a by auto
qed

lemma add_edge_nodes_stores:
  assumes d: "daemon_inv B E d" and n: "ae_from a \<in> nodes_of d" "ae_to a \<in> nodes_of d" "ae_from a \<noteq> ae_to a"
    and me: "ae_from a \<noteq> me_of E" and w: "ae_weight a \<in> small_int"
  shows "\<exists>d'. add_edge_nodes E c r a d = Some (True, d') \<and> stored a (str2sockaddr E (ae_host a) (ae_port a)) (d_edges d')"
proof -
  define addr where "addr = str2sockaddr E (ae_host a) (ae_port a)"
  define loc where "loc = (case ae_local_host_port a of None \<Rightarrow> Addr_unspec | Some (h, p) \<Rightarrow> str2sockaddr E h p)"
  let ?e = "(ae_from a, ae_to a)"
  obtain q db where look: "lookup_edge (ae_from a) (ae_to a) (d_edges d) = (q, db)"
    by (cases "lookup_edge (ae_from a) (ae_to a) (d_edges d)")
  let ?d = "d\<lparr>d_edges := db\<rparr>"
  note k = keeps_lookup_edge [OF d look]
  note inv = keeps_inv [OF k(1)]
  show ?thesis
  proof (cases q)
    case (Some e)
    with k(2) have e: "e = ?e" "e \<in> dom (estore (d_edges ?d))" using k(3) by (auto split: if_splits)
    define x where "x = the (estore db e)"
    have data: "edge_data db ?e = Some (x\<lparr>eo_reverse := None\<rparr>)"
      using e by (auto simp: edge_data_def strip_def x_def)
    show ?thesis
    proof (cases "same_edge x (ae_opts a) (ae_weight a) addr loc")
      case True
      then have "stored a addr db" using data by (simp add: stored_def same_edge_def)
      with True show ?thesis
        by (simp add: add_edge_nodes_def look Some Let_def addr_def [symmetric] loc_def [symmetric] x_def [symmetric])
    next
      case False
      let ?d1 = "change_edge E e x (ae_opts a) (ae_weight a) addr loc ?d"
      have "keeps B E ?d ?d1" using me e by (intro change_edge_ok [OF inv e(2) _ w]) simp
      from add_edge_finish_edges [OF keeps_inv [OF this]] obtain d' where
        d': "add_edge_finish E c r e ?d1 = Some (True, d')" "d_edges d' = d_edges ?d1" by blast
      have "stored a addr (d_edges d')"
        using change_edge_stored [OF inv e(2) w, of x] d'(2) e(1) by (simp add: stored_def x_def)
      with d'(1) me False show ?thesis
        by (simp add: add_edge_nodes_def look Some Let_def addr_def [symmetric] loc_def [symmetric] x_def [symmetric])
    qed
  next
    case None
    define x where "x = \<lparr>eo_address = addr, eo_local_address = loc, eo_options = ae_opts a, eo_weight = ae_weight a,
      eo_connection = None, eo_reverse = None\<rparr>"
    let ?d1 = "d\<lparr>d_edges := edge_add ?e x db\<rparr>"
    let ?d2 = "if addr_known loc then touch_lan E (ae_from a) (ae_to a) ?d1 else ?d1"
    have "keeps B E ?d (?d\<lparr>d_edges := edge_add ?e x (d_edges ?d)\<rparr>)"
      using n w me by (intro keeps_edge_add [OF inv]) (simp_all add: x_def)
    then have k1: "keeps B E ?d ?d1" by simp
    have k2: "keeps B E ?d ?d2" using k1 keeps_trans [OF k1 keeps_touch(1) [OF keeps_inv [OF k1]]] by simp
    from add_edge_finish_edges [OF keeps_inv [OF k2]] obtain d' where
      d': "add_edge_finish E c r ?e ?d2 = Some (True, d')" "d_edges d' = d_edges ?d2" by blast
    have "edge_data (edge_add ?e x db) ?e = Some (x\<lparr>eo_reverse := None\<rparr>)"
      using edge_add_ok [OF inv_edges [OF inv], of x ?e] w k(2,3) None by (auto simp: x_def split: if_splits)
    then have "stored a addr (d_edges d')" using d'(2) by (simp add: stored_def x_def)
    with d'(1) me show ?thesis
      unfolding add_edge_nodes_def look None
      by (cases "addr_known loc") (simp_all add: Let_def addr_def [symmetric] loc_def [symmetric] x_def [symmetric])
  qed
qed

lemma lower_digit: "r \<noteq> [] \<Longrightarrow> hd r = CHR ''1'' \<Longrightarrow> lower (take 9 r) \<noteq> ''http/1.1 ''"
  by (cases r) (simp_all add: lower_def c_isupper_def char_code_def)

lemma no_proxy_reply: "r \<noteq> [] \<Longrightarrow> hd r = CHR ''1'' \<Longrightarrow> proxy_reply E c r = None"
  using lower_digit [of r] by (auto simp: proxy_reply_def)

lemma announcement_stored:
  assumes d: "daemon_inv B E' d" and new: "\<not> remembered (add_edge_text E (show_hex n) e x) d"
    and e: "check_id (fst e)" "check_id (snd e)" "length (fst e) \<le> 2048" "length (snd e) \<le> 2048" "fst e \<noteq> snd e"
    and addr: "address_text_ok E E' (eo_address x)" "sa_family (eo_local_address x) \<noteq> 0 \<longrightarrow> address_text_ok E E' (eo_local_address x)"
    and w: "eo_weight x \<in> small_int" and E': "fst e \<noteq> me_of E'" "\<not> node_is_blocked E' (fst e)"
      "\<not> node_is_blocked E' (snd e)" "\<not> e_tunnelserver E'" and c: "mc_allow c = -1"
  shows "\<exists>d' y. receive_request other E' c (add_edge_text E (show_hex n) e x) d = Some (True, d') \<and>
    edge_data (d_edges d') e = Some y \<and> eo_weight y = eo_weight x \<and> eo_options y = eo_options x \<and>
    sockaddrcmp (eo_address y) (eo_address x) = 0"
proof -
  define r where "r = add_edge_text E (show_hex n) e x"
  define a where "a = sent_args E e x"
  let ?d = "if mc_active c then set_verified c d else d"
  have scan: "scan_add_edge r = Some a"
    using scan_add_edge_text [OF e(1-4) addr] w by (simp add: r_def a_def small_int_def)
  have a: "ae_from a = fst e" "ae_to a = snd e" "ae_weight a = eo_weight x" "ae_opts a = eo_options x"
    "str2sockaddr E' (ae_host a) (ae_port a) = eo_address x"
    using addr(1) by (simp_all add: a_def sent_args_def address_text_ok_def case_prod_beta)
  have g: "gossip r" "request_handler other (atoi r) = Some add_edge_h"
    by (simp_all add: gossip_def r_def atoi_add_edge_text request_handler_def is_valid_request_def)
  have kd: "daemon_inv B E' ?d" by (rule keeps_inv [OF keeps_set_verified [OF d]])
  have recv: "receive_request other E' c r d = add_edge_h E' c r ?d"
    using receive_request_eq [OF g] no_proxy_reply [of r] atoi_add_edge_text c by (simp add: r_def)
  obtain b d1 where seen: "seen_request E' r ?d = (b, d1)" by (cases "seen_request E' r ?d")
  have "\<not> remembered r ?d" using new by (simp add: remembered_def r_def)
  then have b: "\<not> b" using seen_request_ok(1) [OF kd, of r] by (simp add: seen)
  have va: "check_id (ae_from a)" "check_id (ae_to a)" "ae_from a \<noteq> ae_to a" using e by (simp_all add: a)
  obtain d3 d5 f t where k: "keeps B E' d1 d5" "ae_from a \<in> nodes_of d5" "ae_to a \<in> nodes_of d5"
    and eq: "add_edge_h E' c r ?d = (if b then Some (True, d1)
       else if node_is_blocked E' (ae_from a) \<or> node_is_blocked E' (ae_to a) then Some (True, d1)
       else if indirect_edge E' c f t then Some (True, d3) else add_edge_nodes E' c r a d5)"
    by (rule add_edge_h_cases [OF kd scan va seen])
  have "add_edge_h E' c r ?d = add_edge_nodes E' c r a d5"
    using b E' by (simp add: eq a indirect_edge_def)
  moreover have "\<exists>d'. add_edge_nodes E' c r a d5 = Some (True, d') \<and> stored a (eo_address x) (d_edges d')"
    using add_edge_nodes_stores [OF keeps_inv [OF k(1)] k(2,3) va(3), of c r] E'(1) w by (simp add: a)
  ultimately show ?thesis unfolding r_def [symmetric] recv by (simp add: stored_def a)
qed

text \<open>C37: What \<open>send_add_edge\<close> of one daemon prints, \<open>receive_request\<close> of another reads, checks and stores: a new
  announcement of an edge that is not the receiver's own is accepted, and afterwards the receiver's edge
  table holds the edge with the sender's weight and options and an equal address, whether the edge was known
  before or not.  The C library's conversions of the address are assumed to be inverse to each other.\<close>

theorem edge_announcement_delivered:
  assumes d: "daemon_inv B E' d" and new: "\<not> remembered (add_edge_text E (show_hex n) e x) d"
    and e: "check_id (fst e)" "check_id (snd e)" "length (fst e) \<le> 2048" "length (snd e) \<le> 2048" "fst e \<noteq> snd e"
    and addr: "address_text_ok E E' (eo_address x)" "sa_family (eo_local_address x) \<noteq> 0 \<longrightarrow> address_text_ok E E' (eo_local_address x)"
    and w: "eo_weight x \<in> small_int" and E': "fst e \<noteq> me_of E'" "\<not> node_is_blocked E' (fst e)"
      "\<not> node_is_blocked E' (snd e)" "\<not> e_tunnelserver E'" and c: "mc_allow c = -1"
  shows "\<exists>d' y. receive_request other E' c (add_edge_text E (show_hex n) e x) d = Some (True, d') \<and>
    edge_data (d_edges d') e = Some y \<and> eo_weight y = eo_weight x \<and> eo_options y = eo_options x \<and>
    sockaddrcmp (eo_address y) (eo_address x) = 0"
  by (rule announcement_stored [OF assms])

theorem edge_announcement_delivered_witness:
  "\<exists>d y. receive_request (\<lambda>_ _ _ _ _. None) example_denv example_conn
       (add_edge_text example_denv (show_hex 127) (''b'', ''z'') example_edge_obj) (first_daemon example_denv) = Some (True, d) \<and>
     edge_data (d_edges d) (''b'', ''z'') = Some y \<and> eo_weight y = 25 \<and> eo_options y = 0 \<and>
     sockaddrcmp (eo_address y) (Addr_inet [10, 0, 0, 3] 655) = 0"
proof -
  have x: "eo_weight example_edge_obj = 25" "eo_options example_edge_obj = 0"
    "eo_address example_edge_obj = Addr_inet [10, 0, 0, 3] 655" "sa_family (eo_local_address example_edge_obj) = 0"
    by (simp_all add: example_edge_obj_def)
  have E: "\<not> node_is_blocked example_denv ''b''" "\<not> node_is_blocked example_denv ''z''" "\<not> e_tunnelserver example_denv"
    "mc_allow example_conn = -1"
    by (simp_all add: node_is_blocked_def example_denv_def example_conn_def)
  show ?thesis
    using edge_announcement_delivered [OF first_daemon_inv first_daemon_nothing(1), where e = "(''b'', ''z'')"
        and x = example_edge_obj and E = example_denv and c = example_conn and n = 127]
      example_ids example_address E by (simp add: x small_int_def)
qed

section \<open>False claims about this node\<close>

text \<open>
  What the neighbour is told that claims an edge of this node: nothing if the claim is right, the truth about the edge
  if it exists, its deletion otherwise.  The answer carries the next random number.
\<close>

definition own_edge_answer :: "denv \<Rightarrow> add_edge_args \<Rightarrow> daemon \<Rightarrow> string option" where
  "own_edge_answer E a d =
     (let e = (ae_from a, ae_to a); nonce = show_hex (unat (e_prng E (d_drawn d)));
          addr = str2sockaddr E (ae_host a) (ae_port a);
          loc = (case ae_local_host_port a of None \<Rightarrow> Addr_unspec | Some (h, p) \<Rightarrow> str2sockaddr E h p)
      in case estore (d_edges d) e of
           None \<Rightarrow> Some (spaced [''13'', nonce, fst e, snd e])
         | Some x \<Rightarrow> if same_edge x (ae_opts a) (ae_weight a) addr loc then None else Some (add_edge_text E nonce e x))"

definition answers :: "mconn \<Rightarrow> string option \<Rightarrow> action list" where
  "answers c q = (case q of None \<Rightarrow> [] | Some m \<Rightarrow> if length m < MAXBUFSIZE then [Send (mc_id c) m] else [])"

lemma send_request_log: "d_log (send_request (Some (mc_id c)) m d) = d_log d @ answers c (Some m)"
    "d_edges (send_request q m d) = d_edges d"
  by (auto simp: send_request_def answers_def MAXBUFSIZE_def broadcast_meta_def split: option.split)

lemma add_edge_nodes_mine:
  assumes d: "daemon_inv B E d" and me: "ae_from a = me_of E"
  shows "\<exists>d'. add_edge_nodes E c r a d = Some (True, d') \<and> d_log d' = d_log d @ answers c (own_edge_answer E a d) \<and>
    estore (d_edges d') = estore (d_edges d)"
proof -
  obtain q db where look: "lookup_edge (ae_from a) (ae_to a) (d_edges d) = (q, db)"
    by (cases "lookup_edge (ae_from a) (ae_to a) (d_edges d)")
  note k = keeps_lookup_edge [OF d look]
  note sends = send_add_edge_def send_del_edge_def draw_def send_request_log
  show ?thesis
  proof (cases q)
    case None
    then have "estore (d_edges d) (ae_from a, ae_to a) = None" using k(2) by (auto split: if_splits)
    with None k(3) show ?thesis
      unfolding add_edge_nodes_def look None prod.case option.case own_edge_answer_def
      by (simp only: me Let_def option.case if_True fst_conv snd_conv sends prod.case) (simp add: send_request_log del: spaced.simps)
  next
    case (Some e)
    then have e: "e = (me_of E, ae_to a)" "e \<in> dom (estore (d_edges d))" using k(2) me by (auto split: if_splits)
    then obtain x where x: "estore (d_edges d) (me_of E, ae_to a) = Some x" by blast
    show ?thesis
      unfolding add_edge_nodes_def look Some prod.case option.case own_edge_answer_def
      using k(3) by (simp add: me Let_def sends answers_def x e(1))
  qed
qed



section \<open>Once\<close>

text \<open>C36: A request goes through the mesh once: within \<open>pinginterval\<close> seconds after it has been accepted, and
  whatever other requests arrive in the meantime, the same text, from any neighbour, neither changes the edges,
  the subnets or the nodes, nor makes the daemon send or run anything.  So a request cannot circulate in a loop
  of the mesh.\<close>

theorem request_takes_effect_once:
  assumes d: "daemon_inv B E d" "pton_ok (e_inet E)" and r: "gossip r" "tame B E r" "proxy_reply E c r = None"
    and first: "\<not> remembered r d" "receive_request other (at_time t0 E) c r d = Some (True, d1)"
    and run: "gossip_run other B E {t0..<t0 + e_pinginterval E} d1 d2"
    and again: "receive_request other (at_time t E) c' r d2 = Some (b, d3)"
  shows "d_log d3 = d_log d2 \<and> d_edges d3 = d_edges d2 \<and> d_subnets d3 = d_subnets d2 \<and> d_nodes d3 = d_nodes d2"
proof -
  have k1: "daemon_inv B E d1" using receive_at_time [OF r(1,2) d, of other t0 c] first(2) by (simp add: handled_def keeps_def)
  have "\<lparr>request = r, firstseen = t0\<rparr> \<in> requests_of d1"
    using accepted_remembered [OF r(1), where B = B and E = "at_time t0 E" and d = d and c = c and d' = d1 and other = other] d r(2,3) first by simp
  from run_remembers [OF run k1 d(2) this] have "remembered r d2" unfolding remembered_def by force
  moreover have "daemon_inv B E d2" using gossip_run_keeps [OF run k1 d(2)] by simp
  ultimately have "same_effect d2 d3"
    using remembered_again [OF r(1), where B = B and E = "at_time t E" and d = d2 and c = c' and d' = d3 and other = other] d(2) r(2) again by simp
  then show ?thesis by (simp add: same_effect_def)
qed

theorem request_takes_effect_once_witness:
  "\<exists>d1 d2. receive_request (\<lambda>_ _ _ _ _. None) (at_time 7 example_denv) example_conn example_request
      (first_daemon example_denv) = Some (True, d1) \<and>
    map_option (d_log o snd) (receive_request (\<lambda>_ _ _ _ _. None) (at_time 9 example_denv) example_conn example_request d1) =
      Some (d_log d1)"
proof -
  let ?o = "\<lambda>_ _ _ _ _. None" and ?d = "first_daemon example_denv" and ?E = "at_time 7 example_denv"
  have inv: "daemon_inv {} ?E ?d" using first_daemon_inv [of "{}" example_denv] by simp
  have E: "\<not> node_is_blocked ?E ''b''" "\<not> node_is_blocked ?E ''z''" "\<not> e_tunnelserver ?E" "mc_allow example_conn = -1"
    by (simp_all add: node_is_blocked_def example_denv_def example_conn_def at_time_def example_graph_env_def)
  have addr: "address_text_ok example_denv ?E (eo_address example_edge_obj)"
    using example_address by (simp add: address_text_ok_def str2sockaddr_def at_time_def)
  have x: "sa_family (eo_local_address example_edge_obj) = 0" "eo_weight example_edge_obj \<in> small_int"
    by (simp_all add: example_edge_obj_def small_int_def)
  obtain d1 where d1: "receive_request ?o ?E example_conn example_request ?d = Some (True, d1)"
    using announcement_stored [OF inv first_daemon_nothing(1), where e = "(''b'', ''z'')" and x = example_edge_obj
        and E = example_denv and c = example_conn and n = 127] example_ids addr E x
    by (auto simp: example_request_def)
  note r = example_request_facts
  have "handled {} ?E ?d (receive_request ?o ?E example_conn example_request ?d)"
    using receive_request_ok [OF r(1) inv _ _] example_pton_ok r(2) by simp
  then have "daemon_inv {} example_denv d1" by (simp add: d1 keeps_def)
  from receive_at_time [OF r(1,2) this example_pton_ok, of ?o 9 example_conn] obtain b d2 where
    d2: "receive_request ?o (at_time 9 example_denv) example_conn example_request d1 = Some (b, d2)"
    by (auto simp: handled_def)
  from request_takes_effect_once [OF first_daemon_inv example_pton_ok r first_daemon_nothing(1) d1 _ d2]
  show ?thesis using d1 d2 by simp
qed

section \<open>Ageing\<close>

text \<open>C39: The timer forgets exactly the requests that were first seen \<open>pinginterval\<close> seconds ago or earlier, keeps the
  others in their order, and is armed again exactly if it left something to forget.\<close>

theorem age_past_requests_forgets:
  assumes "daemon_inv B E d"
  shows "thread (d_requests (age_past_requests E d)) =
      filter (\<lambda>p. now_of E < firstseen p + e_pinginterval E) (thread (d_requests d)) \<and>
    (d_request_timer (age_past_requests E d) \<longleftrightarrow> thread (d_requests (age_past_requests E d)) \<noteq> [])"
proof -
  have "d_request_timer (age_past_requests E d) \<longleftrightarrow> (\<exists>p\<in>set (thread (d_requests d)). \<not> too_old E p)"
    by (simp add: age_past_requests_def Let_def list_ex_iff)
  with age_past_requests_ok(2) [OF assms] show ?thesis
    by (simp add: too_old_def not_le filter_empty_conv)
qed

theorem age_past_requests_forgets_witness:
  "thread (d_requests (age_past_requests example_denv (first_daemon example_denv))) = []"
  using age_past_requests_forgets [OF first_daemon_inv, of example_denv] by (simp add: first_daemon_def empty_tree_def)

end
